(* ===== verification/Prelude.thy ===== *)
theory Prelude
  imports Main "HOL-Library.Word" "HOL-Library.List_Lexorder" "HOL-Library.Char_ord"
    "HOL-Library.AList" "HOL-Library.Multiset"
begin

text \<open>
  What the components share: the Rust types the sources use and the part of the Rust standard
  library they call. \<open>result\<close> is Rust's \<open>Result\<close> with a third outcome, \<open>Panic\<close>, for the
  operations that abort (an index out of range, an arithmetic overflow in a checked build).
  Integers are words of their width; \<open>usize\<close> lengths are \<open>nat\<close>; \<open>i64\<close> values are \<open>int\<close>
  with their bounds written out. A \<open>BTreeMap\<close> is an association list sorted by key (its
  iteration order), a \<open>HashMap\<close> an association list with distinct keys in some iteration order
  (the library theory \<open>AList\<close>), a \<open>HashSet\<close> a set, or a distinct list where it is iterated.
  A Rust \<open>String\<close> is the list of its UTF-8 bytes, here a \<open>string\<close>.
\<close>

named_theorems outcome_simps \<open>equations of the result combinators\<close>
named_theorems wf_intros \<open>well-formedness of the containers is kept\<close>

type_synonym u8 = "8 word"
type_synonym u16 = "16 word"
type_synonym u32 = "32 word"
type_synonym u64 = "64 word"
type_synonym bytes = "u8 list"

section \<open>Results\<close>

datatype ('a, 'e) result = Ok 'a | Err 'e | Panic

text \<open>The \<open>?\<close> operator: continue with the value, or return the error.\<close>

fun and_then :: "('a, 'e) result \<Rightarrow> ('a \<Rightarrow> ('b, 'e) result) \<Rightarrow> ('b, 'e) result" where
  "and_then (Ok x) f = f x"
| "and_then (Err e) f = Err e"
| "and_then Panic f = Panic"

fun map_err :: "('e \<Rightarrow> 'f) \<Rightarrow> ('a, 'e) result \<Rightarrow> ('a, 'f) result" where
  "map_err g (Ok x) = Ok x"
| "map_err g (Err e) = Err (g e)"
| "map_err g Panic = Panic"

fun map_ok :: "('a \<Rightarrow> 'b) \<Rightarrow> ('a, 'e) result \<Rightarrow> ('b, 'e) result" where
  "map_ok g (Ok x) = Ok (g x)"
| "map_ok g (Err e) = Err e"
| "map_ok g Panic = Panic"

fun ok_or :: "'a option \<Rightarrow> 'e \<Rightarrow> ('a, 'e) result" where
  "ok_or (Some x) e = Ok x"
| "ok_or None e = Err e"

fun is_ok :: "('a, 'e) result \<Rightarrow> bool" where
  "is_ok (Ok x) = True"
| "is_ok (Err e) = False"
| "is_ok Panic = False"

text \<open>An early \<open>return Err(e)\<close> when a condition holds.\<close>

definition fail_if :: "bool \<Rightarrow> 'e \<Rightarrow> (unit, 'e) result" where
  "fail_if c e = (if c then Err e else Ok ())"

lemma and_then_Ok_iff [outcome_simps]:
  "and_then r f = Ok y \<longleftrightarrow> (\<exists>x. r = Ok x \<and> f x = Ok y)"
  by (cases r) auto

lemma and_then_Err_iff [outcome_simps]:
  "and_then r f = Err e \<longleftrightarrow> r = Err e \<or> (\<exists>x. r = Ok x \<and> f x = Err e)"
  by (cases r) auto

lemma and_then_Panic_iff [outcome_simps]:
  "and_then r f = Panic \<longleftrightarrow> r = Panic \<or> (\<exists>x. r = Ok x \<and> f x = Panic)"
  by (cases r) auto

lemma map_err_iffs [outcome_simps]:
  "map_err g r = Ok x \<longleftrightarrow> r = Ok x"
  "map_err g r = Err f \<longleftrightarrow> (\<exists>e. r = Err e \<and> f = g e)"
  "map_err g r = Panic \<longleftrightarrow> r = Panic"
  by (cases r; auto)+

lemma map_ok_iffs [outcome_simps]:
  "map_ok g r = Ok y \<longleftrightarrow> (\<exists>x. r = Ok x \<and> y = g x)"
  "map_ok g r = Err e \<longleftrightarrow> r = Err e"
  "map_ok g r = Panic \<longleftrightarrow> r = Panic"
  by (cases r; auto)+

lemma ok_or_iffs [outcome_simps]:
  "ok_or z e = Ok x \<longleftrightarrow> z = Some x"
  "ok_or z e = Err f \<longleftrightarrow> z = None \<and> f = e"
  "ok_or z e = Panic \<longleftrightarrow> False"
  by (cases z; auto)+

lemma fail_if_iffs [outcome_simps]:
  "fail_if c e = Ok u \<longleftrightarrow> \<not> c"
  "fail_if c e = Err f \<longleftrightarrow> c \<and> f = e"
  "fail_if c e = Panic \<longleftrightarrow> False"
  by (auto simp: fail_if_def)

lemma fail_if_cases [simp]:
  "fail_if True e = Err e"
  "fail_if False e = Ok ()"
  by (simp_all add: fail_if_def)

lemma is_ok_iff [outcome_simps]: "is_ok r \<longleftrightarrow> (\<exists>x. r = Ok x)"
  by (cases r) auto

section \<open>Unsigned integers\<close>

definition saturating_add :: "'a::len word \<Rightarrow> 'a word \<Rightarrow> 'a word" where
  "saturating_add a b = (if unat a + unat b < 2 ^ LENGTH('a) then a + b else - 1)"

definition saturating_sub :: "'a::len word \<Rightarrow> 'a word \<Rightarrow> 'a word" where
  "saturating_sub a b = (if b \<le> a then a - b else 0)"

definition saturating_mul :: "'a::len word \<Rightarrow> 'a word \<Rightarrow> 'a word" where
  "saturating_mul a b = (if unat a * unat b < 2 ^ LENGTH('a) then a * b else - 1)"

definition checked_add :: "'a::len word \<Rightarrow> 'a word \<Rightarrow> 'a word option" where
  "checked_add a b = (if unat a + unat b < 2 ^ LENGTH('a) then Some (a + b) else None)"

definition checked_mul :: "'a::len word \<Rightarrow> 'a word \<Rightarrow> 'a word option" where
  "checked_mul a b = (if unat a * unat b < 2 ^ LENGTH('a) then Some (a * b) else None)"

definition abs_diff :: "'a::len word \<Rightarrow> 'a word \<Rightarrow> 'a word" where
  "abs_diff a b = (if b < a then a - b else b - a)"

text \<open>The plain \<open>+\<close> of Rust, which panics on overflow in a checked build.\<close>

definition plain_add :: "'a::len word \<Rightarrow> 'a word \<Rightarrow> ('a word, 'e) result" where
  "plain_add a b = (case checked_add a b of None \<Rightarrow> Panic | Some c \<Rightarrow> Ok c)"

definition plain_mul :: "'a::len word \<Rightarrow> 'a word \<Rightarrow> ('a word, 'e) result" where
  "plain_mul a b = (case checked_mul a b of None \<Rightarrow> Panic | Some c \<Rightarrow> Ok c)"

lemma unat_u64_less: "unat (x :: u64) < 18446744073709551616"
proof -
  have "unat x < 2 ^ LENGTH(64)" by (rule unsigned_less)
  then show ?thesis by simp
qed

lemma unat_max_word: "unat (- 1 :: 'a::len word) = 2 ^ LENGTH('a) - 1"
  by (simp add: unat_eq_nat_uint unsigned_minus_1_eq_mask mask_eq_exp_minus_1 nat_diff_distrib nat_power_eq)

lemma unat_saturating_add:
  "unat (saturating_add (a :: 'a::len word) b) = min (unat a + unat b) (2 ^ LENGTH('a) - 1)"
  by (auto simp: saturating_add_def unat_word_ariths unat_max_word)

lemma unat_saturating_sub: "unat (saturating_sub a b) = unat a - unat b"
  by (auto simp: saturating_sub_def unat_sub word_le_nat_alt)

lemma unat_saturating_mul:
  "unat (saturating_mul (a :: 'a::len word) b) = min (unat a * unat b) (2 ^ LENGTH('a) - 1)"
  by (auto simp: saturating_mul_def unat_word_ariths unat_max_word)

lemma checked_add_Some:
  "checked_add (a :: 'a::len word) b = Some c \<longleftrightarrow>
    unat a + unat b < 2 ^ LENGTH('a) \<and> unat c = unat a + unat b"
  by (auto simp: checked_add_def unat_word_ariths word_unat_eq_iff)

lemma checked_add_None:
  "checked_add (a :: 'a::len word) b = None \<longleftrightarrow> 2 ^ LENGTH('a) \<le> unat a + unat b"
  by (auto simp: checked_add_def)

lemma checked_mul_Some:
  "checked_mul (a :: 'a::len word) b = Some c \<longleftrightarrow>
    unat a * unat b < 2 ^ LENGTH('a) \<and> unat c = unat a * unat b"
  by (auto simp: checked_mul_def unat_word_ariths word_unat_eq_iff)

lemma unat_abs_diff: "unat (abs_diff a b) = (unat a - unat b) + (unat b - unat a)"
  by (auto simp: abs_diff_def unat_sub word_less_nat_alt word_le_nat_alt)

lemma plain_add_iffs [outcome_simps]:
  "plain_add (a :: 'a::len word) b = Ok c \<longleftrightarrow>
    unat a + unat b < 2 ^ LENGTH('a) \<and> unat c = unat a + unat b"
  "plain_add a b = Err e \<longleftrightarrow> False"
  "plain_add a b = Panic \<longleftrightarrow> 2 ^ LENGTH('a) \<le> unat a + unat b"
  by (auto simp: plain_add_def checked_add_Some checked_add_None word_unat_eq_iff split: option.splits)

lemma saturating_add_zero [simp]: "saturating_add 0 a = a" "saturating_add a 0 = a"
  by (simp_all add: saturating_add_def)

text \<open>\<open>fold(0, saturating_add)\<close> over an iterator: the sum, capped; hence independent of order.\<close>

definition saturating_sum :: "'a::len word list \<Rightarrow> 'a word" where
  "saturating_sum xs = foldl saturating_add 0 xs"

lemma unat_foldl_saturating_add:
  "unat (foldl saturating_add (a :: 'a::len word) xs)
    = min (unat a + sum_list (map unat xs)) (2 ^ LENGTH('a) - 1)"
proof (induction xs arbitrary: a)
  case Nil
  have "unat a < 2 ^ LENGTH('a)" by (rule unsigned_less)
  then have "unat a \<le> 2 ^ LENGTH('a) - 1" by linarith
  then show ?case by (simp add: min_def)
next
  case (Cons x xs)
  then show ?case by (simp add: unat_saturating_add)
qed

lemma unat_saturating_sum:
  "unat (saturating_sum (xs :: 'a::len word list)) = min (sum_list (map unat xs)) (2 ^ LENGTH('a) - 1)"
  by (simp add: saturating_sum_def unat_foldl_saturating_add)

lemma saturating_sum_mset:
  "mset xs = mset ys \<Longrightarrow> saturating_sum xs = saturating_sum ys"
proof -
  assume "mset xs = mset ys"
  then have "sum_list (map unat xs) = sum_list (map unat ys)"
    by (metis mset_map sum_mset_sum_list)
  then show ?thesis by (simp add: word_unat_eq_iff unat_saturating_sum)
qed

lemma saturating_sum_exact:
  "sum_list (map unat xs) < 2 ^ LENGTH('a) \<Longrightarrow>
    unat (saturating_sum (xs :: 'a::len word list)) = sum_list (map unat xs)"
  by (simp add: unat_saturating_sum)

section \<open>Signed 64-bit integers\<close>

definition i64_MAX :: int where "i64_MAX = 2 ^ 63 - 1"
definition i64_MIN :: int where "i64_MIN = - (2 ^ 63)"

text \<open>\<open>i64::try_from\<close> of an unsigned value.\<close>

definition i64_try_from :: "u64 \<Rightarrow> int option" where
  "i64_try_from x = (if uint x \<le> i64_MAX then Some (uint x) else None)"

text \<open>Plain \<open>+\<close> on \<open>i64\<close>, which panics outside the range in a checked build, and \<open>saturating_sub\<close>.\<close>

definition i64_plain_add :: "int \<Rightarrow> int \<Rightarrow> (int, 'e) result" where
  "i64_plain_add a b = (if i64_MIN \<le> a + b \<and> a + b \<le> i64_MAX then Ok (a + b) else Panic)"

definition i64_saturating_add :: "int \<Rightarrow> int \<Rightarrow> int" where
  "i64_saturating_add a b = max i64_MIN (min i64_MAX (a + b))"

definition i64_saturating_sub :: "int \<Rightarrow> int \<Rightarrow> int" where
  "i64_saturating_sub a b = max i64_MIN (min i64_MAX (a - b))"

section \<open>Bytes\<close>

text \<open>\<open>to_be_bytes\<close> and \<open>from_be_bytes\<close>: most significant byte first.\<close>

fun be_bytes :: "nat \<Rightarrow> nat \<Rightarrow> bytes" where
  "be_bytes 0 x = []"
| "be_bytes (Suc n) x = be_bytes n (x div 256) @ [of_nat (x mod 256)]"

definition be_value :: "bytes \<Rightarrow> nat" where
  "be_value bs = foldl (\<lambda>acc b. acc * 256 + unat b) 0 bs"

definition u64_to_be :: "u64 \<Rightarrow> bytes" where
  "u64_to_be x = be_bytes 8 (unat x)"

definition u64_from_be :: "bytes \<Rightarrow> u64" where
  "u64_from_be bs = of_nat (be_value bs)"

definition u64_to_le :: "u64 \<Rightarrow> bytes" where
  "u64_to_le x = rev (be_bytes 8 (unat x))"

definition u32_to_le :: "u32 \<Rightarrow> bytes" where
  "u32_to_le x = rev (be_bytes 4 (unat x))"

definition u16_to_be :: "u16 \<Rightarrow> bytes" where
  "u16_to_be x = be_bytes 2 (unat x)"

lemma length_be_bytes [simp]: "length (be_bytes n x) = n"
  by (induction n x rule: be_bytes.induct) auto

lemma be_value_snoc [simp]: "be_value (bs @ [b]) = be_value bs * 256 + unat b"
  by (simp add: be_value_def)

lemma be_value_be_bytes: "be_value (be_bytes n x) = x mod 256 ^ n"
proof (induction n x rule: be_bytes.induct)
  case (1 x)
  show ?case by (simp add: be_value_def)
next
  case (2 n x)
  have "unat (of_nat (x mod 256) :: u8) = x mod 256"
    by (simp add: unat_of_nat)
  then have "be_value (be_bytes (Suc n) x) = (x div 256) mod 256 ^ n * 256 + x mod 256"
    using 2 by simp
  also have "\<dots> = x mod (256 * 256 ^ n)"
    by (simp add: mod_mult2_eq)
  finally show ?case by simp
qed

lemma be_bytes_inj:
  assumes "x < 256 ^ n" "y < 256 ^ n" "be_bytes n x = be_bytes n y"
  shows "x = y"
  by (metis assms be_value_be_bytes mod_less)

lemma length_u64_bytes [simp]:
  "length (u64_to_be x) = 8" "length (u64_to_le x) = 8"
  by (simp_all add: u64_to_be_def u64_to_le_def)

lemma length_u32_u16_bytes [simp]:
  "length (u32_to_le y) = 4" "length (u16_to_be z) = 2"
  by (simp_all add: u32_to_le_def u16_to_be_def)

lemma unat_lt_256: "unat (x :: u64) < 256 ^ 8" "unat (y :: u32) < 256 ^ 4" "unat (z :: u16) < 256 ^ 2"
proof -
  have "unat x < 2 ^ 64" "unat y < 2 ^ 32" "unat z < 2 ^ 16"
    using unsigned_less[of x] unsigned_less[of y] unsigned_less[of z] by simp_all
  then show "unat x < 256 ^ 8" "unat y < 256 ^ 4" "unat z < 256 ^ 2"
    by simp_all
qed

lemma u64_from_to_be [simp]: "u64_from_be (u64_to_be x) = x"
  using unat_lt_256(1)[of x] by (simp add: u64_from_be_def u64_to_be_def be_value_be_bytes)

lemma u64_to_be_eq_iff [simp]: "u64_to_be x = u64_to_be y \<longleftrightarrow> x = y"
  by (metis u64_from_to_be)

lemma u64_to_le_eq_iff [simp]: "u64_to_le x = u64_to_le y \<longleftrightarrow> x = y"
  using u64_to_be_eq_iff[of x y] by (auto simp: u64_to_le_def u64_to_be_def)

lemma u32_to_le_eq_iff [simp]: "u32_to_le x = u32_to_le y \<longleftrightarrow> x = y"
  using be_bytes_inj[OF unat_lt_256(2) unat_lt_256(2), of x y] by (auto simp: u32_to_le_def word_unat_eq_iff)

lemma u16_to_be_eq_iff [simp]: "u16_to_be x = u16_to_be y \<longleftrightarrow> x = y"
  using be_bytes_inj[OF unat_lt_256(3) unat_lt_256(3), of x y] by (auto simp: u16_to_be_def word_unat_eq_iff)

end
