(* ===== verification/Containers.thy ===== *)
theory Containers
  imports Prelude
begin

text \<open>
  The standard containers of the sources. \<open>bt_\<close> operations are those of \<open>BTreeMap\<close>, on
  association lists that are strictly sorted by key, so that the list order is the iteration
  order and equality of lists is the derived \<open>PartialEq\<close>. \<open>hm_\<close> operations are those of
  \<open>HashMap\<close>, on association lists with distinct keys; no property of the development depends
  on the order in which such a list is kept. Decimal display of integers and the bytes of a
  string are here too.
\<close>

section \<open>BTreeMap\<close>

type_synonym ('k, 'v) btree = "('k \<times> 'v) list"

definition bt_wf :: "('k::linorder, 'v) btree \<Rightarrow> bool" where
  "bt_wf m \<longleftrightarrow> sorted_wrt (<) (map fst m)"

fun bt_insert :: "'k::linorder \<Rightarrow> 'v \<Rightarrow> ('k, 'v) btree \<Rightarrow> ('k, 'v) btree" where
  "bt_insert k v [] = [(k, v)]"
| "bt_insert k v (e # m) =
     (if fst e < k then e # bt_insert k v m
      else if fst e = k then (k, v) # m
      else (k, v) # e # m)"

definition bt_remove :: "'k \<Rightarrow> ('k, 'v) btree \<Rightarrow> ('k, 'v) btree" where
  "bt_remove k m = filter (\<lambda>e. fst e \<noteq> k) m"

text \<open>\<open>*m.entry(k).or_insert(d) = f(..)\<close>\<close>

definition bt_entry :: "'k::linorder \<Rightarrow> 'v \<Rightarrow> ('v \<Rightarrow> 'v) \<Rightarrow> ('k, 'v) btree \<Rightarrow> ('k, 'v) btree" where
  "bt_entry k d f m = bt_insert k (f (case map_of m k of None \<Rightarrow> d | Some v \<Rightarrow> v)) m"

lemma map_of_bt_insert [simp]: "map_of (bt_insert k v m) = (map_of m)(k \<mapsto> v)"
  by (induction m) (auto simp: fun_eq_iff)

lemma map_of_bt_remove [simp]: "map_of (bt_remove k m) = (map_of m)(k := None)"
  by (induction m) (auto simp: bt_remove_def fun_eq_iff)

lemma map_of_bt_entry:
  "map_of (bt_entry k d f m) = (map_of m)(k \<mapsto> f (case map_of m k of None \<Rightarrow> d | Some v \<Rightarrow> v))"
  by (simp add: bt_entry_def)

lemma keys_bt_insert [simp]: "fst ` set (bt_insert k v m) = insert k (fst ` set m)"
  by (metis dom_map_of_conv_image_fst dom_fun_upd map_of_bt_insert option.distinct(1))

lemma keys_bt_entry [simp]: "fst ` set (bt_entry k d f m) = insert k (fst ` set m)"
  by (simp add: bt_entry_def)

lemma bt_wf_Nil [simp]: "bt_wf []"
  by (simp add: bt_wf_def)

lemma bt_wf_Cons: "bt_wf (e # m) \<longleftrightarrow> (\<forall>k \<in> fst ` set m. fst e < k) \<and> bt_wf m"
  by (auto simp: bt_wf_def)

lemma bt_wf_insert [wf_intros, simp]: "bt_wf m \<Longrightarrow> bt_wf (bt_insert k v m)"
proof (induction m)
  case Nil
  then show ?case by (simp add: bt_wf_Cons)
next
  case (Cons e m)
  then have "\<forall>x \<in> fst ` set m. fst e < x" "bt_wf m" "bt_wf (bt_insert k v m)"
    by (simp_all add: bt_wf_Cons)
  moreover have "fst ` set (bt_insert k v m) = insert k (fst ` set m)" by simp
  ultimately show ?case
    by (simp only: bt_insert.simps bt_wf_Cons fst_conv split: if_split) (auto simp: bt_wf_Cons)
qed

lemma bt_wf_entry [wf_intros, simp]: "bt_wf m \<Longrightarrow> bt_wf (bt_entry k d f m)"
  by (simp add: bt_entry_def)

lemma bt_wf_remove [wf_intros, simp]: "bt_wf m \<Longrightarrow> bt_wf (bt_remove k m)"
  by (simp add: bt_wf_def bt_remove_def sorted_wrt_map sorted_wrt_filter)

lemma bt_wf_distinct: "bt_wf m \<Longrightarrow> distinct (map fst m)"
  by (induction m) (force simp: bt_wf_Cons)+

lemma length_bt_insert:
  "bt_wf m \<Longrightarrow> length (bt_insert k v m) = (if map_of m k = None then Suc (length m) else length m)"
proof -
  assume wf: "bt_wf m"
  have card: "length n = card (fst ` set n)" if "bt_wf n" for n :: "('a, 'b) btree"
    using distinct_card[OF bt_wf_distinct[OF that]] by simp
  have "length (bt_insert k v m) = card (insert k (fst ` set m))"
    using card[OF bt_wf_insert[OF wf]] by simp
  then show ?thesis
    using card[OF wf] by (simp add: card_insert_if map_of_eq_None_iff)
qed

text \<open>Two sorted maps with the same lookups are the same list.\<close>

lemma bt_ext:
  assumes "bt_wf a" "bt_wf b" "map_of a = map_of b"
  shows "a = b"
proof -
  note dist = bt_wf_distinct[OF assms(1)] bt_wf_distinct[OF assms(2)]
  have same: "set a = set b" using map_of_inject_set[OF dist] assms(3) by simp
  moreover have "inj_on fst (set a \<union> set b)" using dist(1) same by (simp add: distinct_map)
  moreover have "sorted (map fst a)" "sorted (map fst b)"
    using assms(1,2) unfolding bt_wf_def by (simp_all add: strict_sorted_iff)
  ultimately show ?thesis using map_sorted_distinct_set_unique[of fst a b] dist by blast
qed

section \<open>HashMap\<close>

type_synonym ('k, 'v) hmap = "('k \<times> 'v) list"

definition hm_wf :: "('k, 'v) hmap \<Rightarrow> bool" where
  "hm_wf m \<longleftrightarrow> distinct (map fst m)"

definition hm_insert :: "'k \<Rightarrow> 'v \<Rightarrow> ('k, 'v) hmap \<Rightarrow> ('k, 'v) hmap" where
  "hm_insert k v m = AList.update k v m"

definition hm_remove :: "'k \<Rightarrow> ('k, 'v) hmap \<Rightarrow> ('k, 'v) hmap" where
  "hm_remove k m = AList.delete k m"

definition hm_entry :: "'k \<Rightarrow> 'v \<Rightarrow> ('v \<Rightarrow> 'v) \<Rightarrow> ('k, 'v) hmap \<Rightarrow> ('k, 'v) hmap" where
  "hm_entry k d f m = hm_insert k (f (case map_of m k of None \<Rightarrow> d | Some v \<Rightarrow> v)) m"

lemma map_of_hm_insert [simp]: "map_of (hm_insert k v m) = (map_of m)(k \<mapsto> v)"
  by (simp add: hm_insert_def update_conv')

lemma map_of_hm_remove [simp]: "map_of (hm_remove k m) = (map_of m)(k := None)"
  by (simp add: hm_remove_def delete_conv')

lemma map_of_hm_entry:
  "map_of (hm_entry k d f m) = (map_of m)(k \<mapsto> f (case map_of m k of None \<Rightarrow> d | Some v \<Rightarrow> v))"
  by (simp add: hm_entry_def)

lemma hm_wf_Nil [simp]: "hm_wf []"
  by (simp add: hm_wf_def)

lemma hm_wf_insert [wf_intros, simp]: "hm_wf m \<Longrightarrow> hm_wf (hm_insert k v m)"
  by (simp add: hm_wf_def hm_insert_def distinct_update)

lemma hm_wf_remove [wf_intros, simp]: "hm_wf m \<Longrightarrow> hm_wf (hm_remove k m)"
  by (simp add: hm_wf_def hm_remove_def distinct_delete)

lemma hm_wf_entry [wf_intros, simp]: "hm_wf m \<Longrightarrow> hm_wf (hm_entry k d f m)"
  by (simp add: hm_entry_def)

lemma hm_mem_iff: "hm_wf m \<Longrightarrow> (k, v) \<in> set m \<longleftrightarrow> map_of m k = Some v"
  by (simp add: hm_wf_def)

lemma bt_mem_iff: "bt_wf m \<Longrightarrow> (k, v) \<in> set m \<longleftrightarrow> map_of m k = Some v"
  by (simp add: bt_wf_distinct)

section \<open>Strings\<close>

definition str_bytes :: "string \<Rightarrow> bytes" where
  "str_bytes s = map (\<lambda>c. of_nat (of_char c)) s"

text \<open>Decimal \<open>Display\<close> of an unsigned integer.\<close>

fun display_nat :: "nat \<Rightarrow> string" where
  "display_nat n =
     (if n < 10 then [char_of (48 + n)] else display_nat (n div 10) @ [char_of (48 + n mod 10)])"

declare display_nat.simps [simp del]

definition display_u64 :: "u64 \<Rightarrow> string" where
  "display_u64 x = display_nat (unat x)"

lemma length_str_bytes [simp]: "length (str_bytes s) = length s"
  by (simp add: str_bytes_def)

lemma inj_of_char_word: "inj (\<lambda>c :: char. (of_nat (of_char c) :: u8))"
proof (rule injI)
  fix x y :: char
  assume eq: "(of_nat (of_char x) :: u8) = of_nat (of_char y)"
  have "unat (of_nat (of_char c) :: u8) = of_char c" for c :: char
    by (simp add: unat_of_nat of_char_mod_256)
  with eq have "(of_char x :: nat) = of_char y" by metis
  then show "x = y" by simp
qed

lemma str_bytes_eq_iff [simp]: "str_bytes s = str_bytes t \<longleftrightarrow> s = t"
  by (simp add: str_bytes_def inj_map_eq_map[OF inj_of_char_word])

lemma display_nat_nonempty: "display_nat n \<noteq> []"
  by (subst display_nat.simps) simp

lemma display_nat_digits: "c \<in> set (display_nat n) \<Longrightarrow> 48 \<le> (of_char c :: nat) \<and> (of_char c :: nat) < 58"
proof (induction n rule: display_nat.induct)
  case (1 n)
  show ?case
  proof (cases "n < 10")
    case True
    then show ?thesis using 1(2) by (subst (asm) display_nat.simps) simp
  next
    case False
    moreover have "n mod 10 < 10" by simp
    ultimately show ?thesis
      using 1 by (subst (asm) display_nat.simps) (auto simp: of_char_of)
  qed
qed

text \<open>A separator that occurs in neither left part splits a text in one way.\<close>

lemma split_at_separator:
  "c \<notin> set a \<Longrightarrow> c \<notin> set b \<Longrightarrow> a @ c # x = b @ c # y \<longleftrightarrow> a = b \<and> x = y"
proof (induction a arbitrary: b)
  case Nil
  then show ?case by (cases b) auto
next
  case (Cons d a)
  then show ?case by (cases b) auto
qed

lemma split_at_last_separator:
  assumes "c \<notin> set x" "c \<notin> set y"
  shows "a @ c # x = b @ c # y \<longleftrightarrow> a = b \<and> x = y"
proof -
  have "a @ c # x = b @ c # y \<longleftrightarrow> rev x @ c # rev a = rev y @ c # rev b"
    by (metis append.assoc append_Cons append_Nil rev_append rev_rev_ident rev.simps(2))
  then show ?thesis using assms split_at_separator[of c "rev x" "rev y" "rev a" "rev b"] by auto
qed

lemma display_no_colon: "CHR '':'' \<notin> set (display_u64 x)"
  using display_nat_digits[of "CHR '':''" "unat x"] by (auto simp: display_u64_def)

text \<open>Reading the digits back.\<close>

definition read_nat :: "string \<Rightarrow> nat" where
  "read_nat s = foldl (\<lambda>acc c. acc * 10 + (of_char c - 48)) 0 s"

lemma read_display_nat: "read_nat (display_nat n) = n"
proof (induction n rule: display_nat.induct)
  case (1 n)
  show ?case
  proof (cases "n < 10")
    case True
    then show ?thesis by (subst display_nat.simps) (simp add: read_nat_def)
  next
    case False
    have "n mod 10 < 10" by simp
    then have "read_nat (display_nat n) = read_nat (display_nat (n div 10)) * 10 + n mod 10"
      using False by (subst display_nat.simps) (simp add: read_nat_def)
    with 1 False show ?thesis by simp
  qed
qed

lemma display_u64_eq_iff [simp]: "display_u64 x = display_u64 y \<longleftrightarrow> x = y"
  by (metis display_u64_def read_display_nat word_unat_eq_iff)

end
