(* ===== verification/Floating.thy ===== *)
theory Floating
  imports Prelude "HOL-Library.Log_Nat"
begin

text \<open>
  The type \<open>f64\<close> and the operations on it that the crates use: conversion from and to \<open>u64\<close>, product,
  quotient and comparison. A finite value is the rational it stands for, and every operation rounds
  to the nearest value with 53 significant bits, ties to even, with gradual underflow and overflow to an
  infinity. The sign of a zero is not represented: no operation used here shows it, because the only
  divisors are conversions of integers.
\<close>

section \<open>Values and rounding\<close>

datatype f64 = NaN | Infinity bool | Finite rat

definition round_half_even :: "rat \<Rightarrow> int" where
  "round_half_even x =
     (let n = \<lfloor>x\<rfloor>; r = x - of_int n in if r < 1 / 2 \<or> (r = 1 / 2 \<and> even n) then n else n + 1)"

text \<open>The exponent of the leading binary digit, from the sizes of numerator and denominator.\<close>

definition f64_exponent :: "rat \<Rightarrow> int" where
  "f64_exponent x =
     (let (a, b) = quotient_of x; e = int (floorlog 2 (nat a)) - int (floorlog 2 (nat b))
      in if 2 powi e \<le> x then e else e - 1)"

definition f64_ulp :: "rat \<Rightarrow> rat" where
  "f64_ulp x = 2 powi (max (f64_exponent \<bar>x\<bar> - 52) (- 1074))"

definition f64_nearest :: "rat \<Rightarrow> rat" where
  "f64_nearest x = (if x = 0 then 0 else of_int (round_half_even (x / f64_ulp x)) * f64_ulp x)"

definition f64_round :: "rat \<Rightarrow> f64" where
  "f64_round x = (let y = f64_nearest x in if 2 ^ 1024 \<le> \<bar>y\<bar> then Infinity (y < 0) else Finite y)"

section \<open>Operations\<close>

text \<open>\<open>n as f64\<close>.\<close>

definition f64_of_u64 :: "u64 \<Rightarrow> f64" where
  "f64_of_u64 n = f64_round (of_nat (unat n))"

text \<open>\<open>x as u64\<close>: towards zero, saturating, and zero for a NaN.\<close>

fun u64_of_f64 :: "f64 \<Rightarrow> u64" where
  "u64_of_f64 NaN = 0"
| "u64_of_f64 (Infinity negative) = (if negative then 0 else - 1)"
| "u64_of_f64 (Finite x) = (if x < 0 then 0 else if 2 ^ 64 \<le> x then - 1 else of_int \<lfloor>x\<rfloor>)"

fun f64_mul :: "f64 \<Rightarrow> f64 \<Rightarrow> f64" where
  "f64_mul (Finite x) (Finite y) = f64_round (x * y)"
| "f64_mul (Infinity m) (Infinity n) = Infinity (m \<noteq> n)"
| "f64_mul (Infinity m) (Finite y) = (if y = 0 then NaN else Infinity (m \<noteq> (y < 0)))"
| "f64_mul (Finite x) (Infinity n) = (if x = 0 then NaN else Infinity (n \<noteq> (x < 0)))"
| "f64_mul NaN _ = NaN"
| "f64_mul _ NaN = NaN"

fun f64_div :: "f64 \<Rightarrow> f64 \<Rightarrow> f64" where
  "f64_div (Finite x) (Finite y) =
     (if y = 0 then (if x = 0 then NaN else Infinity (x < 0)) else f64_round (x / y))"
| "f64_div (Infinity m) (Infinity n) = NaN"
| "f64_div (Infinity m) (Finite y) = Infinity (m \<noteq> (y < 0))"
| "f64_div (Finite x) (Infinity n) = Finite 0"
| "f64_div NaN _ = NaN"
| "f64_div _ NaN = NaN"

fun f64_le :: "f64 \<Rightarrow> f64 \<Rightarrow> bool" where
  "f64_le (Finite x) (Finite y) \<longleftrightarrow> x \<le> y"
| "f64_le (Infinity m) (Infinity n) \<longleftrightarrow> m \<or> \<not> n"
| "f64_le (Infinity m) (Finite y) \<longleftrightarrow> m"
| "f64_le (Finite x) (Infinity n) \<longleftrightarrow> \<not> n"
| "f64_le NaN _ \<longleftrightarrow> False"
| "f64_le _ NaN \<longleftrightarrow> False"

section \<open>Rounding to an integer\<close>

lemma round_half_even_bounds: "\<lfloor>x\<rfloor> \<le> round_half_even x" "round_half_even x \<le> \<lfloor>x\<rfloor> + 1"
  by (simp_all add: round_half_even_def Let_def)

lemma round_half_even_of_int [simp]: "round_half_even (of_int n) = n"
  by (simp add: round_half_even_def)

lemma round_half_even_mono:
  assumes "x \<le> y" shows "round_half_even x \<le> round_half_even y"
proof (cases "\<lfloor>x\<rfloor> = \<lfloor>y\<rfloor>")
  case True
  then show ?thesis using assms by (auto simp: round_half_even_def Let_def)
next
  case False
  then have "\<lfloor>x\<rfloor> + 1 \<le> \<lfloor>y\<rfloor>" using floor_mono[OF assms] by simp
  then show ?thesis using round_half_even_bounds[of x] round_half_even_bounds[of y] by linarith
qed

lemma round_half_even_error: "\<bar>of_int (round_half_even x) - x\<bar> \<le> 1 / 2"
proof -
  have "of_int \<lfloor>x\<rfloor> \<le> x" "x < of_int \<lfloor>x\<rfloor> + 1" using floor_correct[of x] by simp_all
  then show ?thesis by (auto simp: round_half_even_def Let_def abs_le_iff)
qed

section \<open>The leading digit\<close>

lemma f64_exponent_bounds:
  assumes "0 < x"
  shows "2 powi f64_exponent x \<le> x" "x < 2 powi (f64_exponent x + 1)"
proof -
  obtain a b where ab: "quotient_of x = (a, b)" by (cases "quotient_of x")
  then have b: "0 < b" and x: "x = of_int a / of_int b" using quotient_of_denom_pos quotient_of_div by auto
  then have a: "0 < a" using assms by (simp add: zero_less_divide_iff)
  let ?m = "floorlog 2 (nat a)" and ?n = "floorlog 2 (nat b)"
  let ?e = "int ?m - int ?n"
  have bits: "2 ^ (floorlog 2 k - 1) \<le> k \<and> k < 2 ^ floorlog 2 k \<and> 0 < floorlog 2 k" if "0 < k" for k
    using floorlog_bounds[of k 2] that by (simp add: floorlog_def)
  have size: "(2 :: rat) powi (int (floorlog 2 (nat c)) - 1) \<le> of_int c"
    "of_int c < (2 :: rat) powi int (floorlog 2 (nat c))" if "0 < c" for c
  proof -
    have k: "0 < nat c" "(of_int c :: rat) = of_nat (nat c)" using that by simp_all
    note kb = bits[OF k(1)]
    have "int (floorlog 2 (nat c)) - 1 = int (floorlog 2 (nat c) - 1)" using kb by linarith
    then have "(2 :: rat) powi (int (floorlog 2 (nat c)) - 1) = of_nat (2 ^ (floorlog 2 (nat c) - 1))"
      by (simp only: power_int_of_nat of_nat_power of_nat_numeral)
    also have "\<dots> \<le> of_nat (nat c)" using kb of_nat_le_iff by blast
    finally show "(2 :: rat) powi (int (floorlog 2 (nat c)) - 1) \<le> of_int c" unfolding k(2) .
    have "(of_nat (nat c) :: rat) < of_nat (2 ^ floorlog 2 (nat c))" using kb of_nat_less_iff by blast
    then show "of_int c < (2 :: rat) powi int (floorlog 2 (nat c))"
      unfolding k(2) by (simp only: power_int_of_nat of_nat_power of_nat_numeral)
  qed
  have low: "2 powi (?e - 1) < x"
  proof -
    have "2 powi (?e - 1) = 2 powi (int ?m - 1) / (2 powi int ?n :: rat)"
      by (subst power_int_diff[symmetric]) (simp_all add: algebra_simps)
    also have "\<dots> \<le> of_int a / 2 powi int ?n" using size(1)[OF a] by (intro divide_right_mono) simp_all
    also have "\<dots> < of_int a / of_int b" using size(2)[OF b] a b by (intro divide_strict_left_mono) simp_all
    finally show ?thesis using x by simp
  qed
  have high: "x < 2 powi (?e + 1)"
  proof -
    have "x \<le> of_int a / 2 powi (int ?n - 1)" unfolding x using size(1)[OF b] a b by (intro divide_left_mono) simp_all
    also have "\<dots> < 2 powi int ?m / 2 powi (int ?n - 1)" using size(2)[OF a] by (intro divide_strict_right_mono) simp_all
    also have "\<dots> = 2 powi (?e + 1)" by (subst power_int_diff[symmetric]) (simp_all add: algebra_simps)
    finally show ?thesis .
  qed
  show "2 powi f64_exponent x \<le> x" "x < 2 powi (f64_exponent x + 1)"
    using low high by (auto simp: f64_exponent_def ab Let_def)
qed

lemma powi_less_D: "(2 :: rat) powi m < 2 powi n \<Longrightarrow> m < n"
  by (rule ccontr) (use power_int_increasing[of n m "2 :: rat"] in auto)

lemma f64_exponent_eq:
  assumes "2 powi e \<le> x" "x < 2 powi (e + 1)" shows "f64_exponent x = e"
proof -
  have "0 < (2 :: rat) powi e" by simp
  then have "0 < x" using assms(1) by linarith
  note f64_exponent_bounds[OF this]
  then have "(2 :: rat) powi e < 2 powi (f64_exponent x + 1)" "(2 :: rat) powi f64_exponent x < 2 powi (e + 1)"
    using assms by linarith+
  from this[THEN powi_less_D] show ?thesis by linarith
qed

lemma f64_exponent_mono:
  assumes "0 < x" "x \<le> y" shows "f64_exponent x \<le> f64_exponent y"
proof -
  have "(2 :: rat) powi f64_exponent x < 2 powi (f64_exponent y + 1)"
    using f64_exponent_bounds[of x] f64_exponent_bounds[of y] assms by linarith
  from powi_less_D[OF this] show ?thesis by linarith
qed

section \<open>Rounding is monotone, close, and keeps representable values\<close>

lemma f64_ulp_pos [simp]: "0 < f64_ulp x" "f64_ulp x \<noteq> 0" "0 \<le> f64_ulp x"
  by (simp_all add: f64_ulp_def)

lemma f64_nearest_error: "\<bar>f64_nearest x - x\<bar> \<le> f64_ulp x / 2"
proof (cases "x = 0")
  case False
  have "f64_nearest x - x = (of_int (round_half_even (x / f64_ulp x)) - x / f64_ulp x) * f64_ulp x"
    using False f64_ulp_pos(1)[of x] by (simp add: f64_nearest_def left_diff_distrib)
  then have "\<bar>f64_nearest x - x\<bar> = \<bar>of_int (round_half_even (x / f64_ulp x)) - x / f64_ulp x\<bar> * f64_ulp x"
    using f64_ulp_pos(1)[of x] by (simp add: abs_mult less_imp_le)
  also have "\<dots> \<le> 1 / 2 * f64_ulp x"
    using round_half_even_error f64_ulp_pos(1)[of x] by (intro mult_right_mono) (auto intro: less_imp_le)
  finally show ?thesis by simp
qed (simp add: f64_nearest_def less_imp_le)

lemma f64_nearest_zero [simp]: "f64_nearest 0 = 0"
  by (simp add: f64_nearest_def)

text \<open>A multiple of the unit in the last place is representable, and bounds what rounds below or above it.\<close>

lemma f64_nearest_le:
  assumes "x \<noteq> 0" "x \<le> of_int k * f64_ulp x" shows "f64_nearest x \<le> of_int k * f64_ulp x"
proof -
  have "x / f64_ulp x \<le> of_int k" using assms(2) f64_ulp_pos(1)[of x] by (simp add: divide_le_eq)
  then have "round_half_even (x / f64_ulp x) \<le> k" using round_half_even_mono[of "x / f64_ulp x" "of_int k"] by simp
  then show ?thesis using assms(1) f64_ulp_pos(1)[of x] by (simp add: f64_nearest_def)
qed

lemma f64_nearest_ge:
  assumes "x \<noteq> 0" "of_int k * f64_ulp x \<le> x" shows "of_int k * f64_ulp x \<le> f64_nearest x"
proof -
  have "of_int k \<le> x / f64_ulp x" using assms(2) f64_ulp_pos(1)[of x] by (simp add: le_divide_eq)
  then have "k \<le> round_half_even (x / f64_ulp x)" using round_half_even_mono[of "of_int k" "x / f64_ulp x"] by simp
  then show ?thesis using assms(1) f64_ulp_pos(1)[of x] by (simp add: f64_nearest_def)
qed

lemma f64_nearest_exact: "x = of_int k * f64_ulp x \<Longrightarrow> f64_nearest x = x"
  using f64_nearest_le[of x k] f64_nearest_ge[of x k] by (cases "x = 0") auto

lemma powi_nat: "n \<le> m \<Longrightarrow> (2 :: rat) powi m = of_int (2 ^ nat (m - n)) * 2 powi n"
  by (simp flip: power_int_of_nat power_int_add)

lemma f64_nearest_mono:
  assumes "0 \<le> x" "x \<le> y" shows "f64_nearest x \<le> f64_nearest y"
proof (cases "x = 0")
  case True
  then show ?thesis using f64_nearest_ge[of y 0] assms by (cases "y = 0") auto
next
  case False
  then have pos: "0 < x" "0 < y" "y \<noteq> 0" using assms by auto
  let ?p = "max (f64_exponent x - 52) (- 1074)" and ?q = "max (f64_exponent y - 52) (- 1074)"
  have ulps: "f64_ulp x = 2 powi ?p" "f64_ulp y = 2 powi ?q" using pos by (simp_all add: f64_ulp_def)
  show ?thesis
  proof (cases "?p = ?q")
    case True
    have "round_half_even (x / f64_ulp x) \<le> round_half_even (y / f64_ulp x)"
      using assms(2) f64_ulp_pos(1)[of x] by (intro round_half_even_mono divide_right_mono) (auto intro: less_imp_le)
    then show ?thesis using pos True ulps f64_ulp_pos(1)[of x] by (simp add: f64_nearest_def)
  next
    case False
    then have exps: "f64_exponent x < f64_exponent y" "?q = f64_exponent y - 52"
      using f64_exponent_mono[OF pos(1) assms(2)] by auto
    let ?B = "2 powi f64_exponent y :: rat"
    have "(2 :: rat) powi (f64_exponent x + 1) \<le> ?B" using exps(1) by (intro power_int_increasing) auto
    then have B: "x \<le> ?B" "?B \<le> y" using f64_exponent_bounds[OF pos(1)] f64_exponent_bounds[OF pos(2)] by auto
    have "?p \<le> f64_exponent y" "?q \<le> f64_exponent y" using exps by auto
    from this[THEN powi_nat] have mult: "?B = of_int (2 ^ nat (f64_exponent y - ?p)) * f64_ulp x"
      "?B = of_int (2 ^ nat (f64_exponent y - ?q)) * f64_ulp y" unfolding ulps .
    have "f64_nearest x \<le> ?B" using f64_nearest_le[of x] B(1) pos(1) mult(1) by (metis less_irrefl)
    also have "?B \<le> f64_nearest y" using f64_nearest_ge[of y] B(2) pos(3) mult(2) by metis
    finally show ?thesis .
  qed
qed

section \<open>Representable values\<close>

definition f64_value :: "rat \<Rightarrow> bool" where
  "f64_value x \<longleftrightarrow> f64_nearest x = x \<and> \<bar>x\<bar> < 2 ^ 1024"

lemma f64_round_Finite: "\<bar>f64_nearest x\<bar> < 2 ^ 1024 \<Longrightarrow> f64_round x = Finite (f64_nearest x)"
  by (simp only: f64_round_def Let_def not_le[symmetric] if_False)

lemma f64_round_value: "f64_value x \<Longrightarrow> f64_round x = Finite x"
  unfolding f64_value_def by (metis f64_round_Finite)

lemma f64_nearest_of_nat:
  assumes "n < 2 ^ 53" shows "f64_nearest (of_nat n) = of_nat n"
proof (cases "n = 0")
  case False
  let ?x = "of_nat n :: rat"
  have x: "0 < ?x" using False by simp
  have "?x < of_nat (2 ^ 53)" using assms of_nat_less_iff by blast
  then have "(2 :: rat) powi f64_exponent ?x < 2 powi 53"
    using f64_exponent_bounds(1)[OF x] by (simp only: power_int_numeral of_nat_power of_nat_numeral)
  then have "max (f64_exponent ?x - 52) (- 1074) \<le> 0" using powi_less_D by fastforce
  from powi_nat[OF this] obtain j :: nat where one: "of_int (2 ^ j) * f64_ulp ?x = 1"
    by (auto simp: f64_ulp_def)
  have "?x = of_int (int n) * (of_int (2 ^ j) * f64_ulp ?x)" by (simp only: one mult_1_right of_int_of_nat_eq)
  also have "\<dots> = of_int (int n * 2 ^ j) * f64_ulp ?x" by (simp only: of_int_mult mult.assoc)
  finally show ?thesis by (rule f64_nearest_exact)
qed simp

lemma f64_value_of_nat: "n < 2 ^ 53 \<Longrightarrow> f64_value (of_nat n)"
proof -
  assume n: "n < 2 ^ 53"
  have "(of_nat n :: rat) < of_nat (2 ^ 53)" using n of_nat_less_iff by blast
  also have "(of_nat (2 ^ 53) :: rat) \<le> 2 ^ 1024" by simp
  finally show ?thesis by (simp only: f64_value_def f64_nearest_of_nat[OF n] abs_of_nat simp_thms)
qed

lemma f64_of_u64_small: "unat n < 2 ^ 53 \<Longrightarrow> f64_of_u64 n = Finite (of_nat (unat n))"
  unfolding f64_of_u64_def by (rule f64_round_value[OF f64_value_of_nat])

lemma f64_nearest_one [simp]: "f64_nearest 1 = 1"
  using f64_nearest_of_nat[of 1] by simp

lemma f64_nearest_unit:
  assumes "0 \<le> x" "x \<le> 1"
  shows "0 \<le> f64_nearest x" "f64_nearest x \<le> 1" "f64_round x = Finite (f64_nearest x)"
    "\<bar>f64_nearest x - x\<bar> \<le> 1 / 2 ^ 53"
proof -
  show bounds: "0 \<le> f64_nearest x" "f64_nearest x \<le> 1"
    using f64_nearest_mono[of 0 x] f64_nearest_mono[of x 1] assms by simp_all
  have "(1 :: rat) < 2 ^ 1024" by simp
  then show "f64_round x = Finite (f64_nearest x)" using bounds by (intro f64_round_Finite) linarith
  show "\<bar>f64_nearest x - x\<bar> \<le> 1 / 2 ^ 53"
  proof (cases "x = 0")
    case False
    then have "0 < x" using assms by simp
    then have "(2 :: rat) powi f64_exponent x < 2 powi 1" using f64_exponent_bounds(1)[of x] assms(2) by simp
    then have "max (f64_exponent x - 52) (- 1074) \<le> - 52" using powi_less_D by fastforce
    then have "f64_ulp x \<le> 2 powi (- 52)"
      unfolding f64_ulp_def using \<open>0 < x\<close> by (intro power_int_increasing) simp_all
    then have "f64_ulp x / 2 \<le> 1 / 2 ^ 53" by (simp add: power_int_minus)
    then show ?thesis using f64_nearest_error[of x] by linarith
  qed simp
qed

text \<open>The quotient of two small integers, at most one, is the rounded exact quotient.\<close>

lemma f64_rate:
  assumes "unat s \<le> unat t" "0 < unat t" "unat t < 2 ^ 53"
  shows "f64_div (f64_of_u64 s) (f64_of_u64 t) = Finite (f64_nearest (of_nat (unat s) / of_nat (unat t)))"
proof -
  have "0 \<le> (of_nat (unat s) / of_nat (unat t) :: rat)" "of_nat (unat s) / of_nat (unat t) \<le> (1 :: rat)"
    using assms(1,2) by (simp_all only: zero_le_divide_iff of_nat_0_le_iff divide_le_eq_1 of_nat_0_less_iff of_nat_le_iff simp_thms)
  note unit = f64_nearest_unit(3)[OF this]
  have "unat s < 2 ^ 53" using assms(1,3) by linarith
  then show ?thesis
    using assms(2,3) by (simp only: f64_of_u64_small f64_div.simps of_nat_eq_0_iff unit) simp
qed

text \<open>
  Comparing a rounded rate with a representable threshold accepts every exact rate up to the threshold
  and none above it by more than \<open>2 ^ -53\<close>.
\<close>

lemma f64_rate_le:
  assumes x: "0 \<le> x" "x \<le> 1" and q: "f64_value q"
  shows "x \<le> q \<Longrightarrow> f64_nearest x \<le> q" "f64_nearest x \<le> q \<Longrightarrow> x \<le> q + 1 / 2 ^ 53"
proof -
  have "f64_nearest q = q" using q by (simp only: f64_value_def)
  then show "x \<le> q \<Longrightarrow> f64_nearest x \<le> q" using f64_nearest_mono[OF x(1), of q] by simp
  show "f64_nearest x \<le> q \<Longrightarrow> x \<le> q + 1 / 2 ^ 53" using f64_nearest_unit(4)[OF x] unfolding abs_le_iff by linarith
qed

text \<open>Scaling a representable value by a power of two is exact.\<close>

lemma f64_nearest_scale:
  assumes "f64_nearest x = x" "0 \<le> x" shows "f64_nearest (x * 2 ^ k) = x * 2 ^ k"
proof (cases "x = 0")
  case False
  then have x: "0 < x" "0 < x * 2 ^ k" using assms by simp_all
  let ?e = "f64_exponent x"
  have pow: "(2 :: rat) ^ k = 2 powi int k" by simp
  have "f64_exponent (x * 2 ^ k) = ?e + int k"
    using f64_exponent_bounds[OF x(1)] unfolding pow
    by (intro f64_exponent_eq) (simp_all only: power_int_add add.assoc add.commute[of "int k"], simp_all add: power_int_add)
  then have ulp: "f64_ulp (x * 2 ^ k) = 2 powi (max (?e + int k - 52) (- 1074))"
    using x(2) by (simp add: f64_ulp_def)
  have "max (?e + int k - 52) (- 1074) \<le> max (?e - 52) (- 1074) + int k" by auto
  from powi_nat[OF this] obtain j :: nat where j: "f64_ulp x * 2 ^ k = of_int (2 ^ j) * f64_ulp (x * 2 ^ k)"
    unfolding ulp using x(1) by (auto simp: f64_ulp_def power_int_add)
  have "x = of_int (round_half_even (x / f64_ulp x)) * f64_ulp x"
    using assms(1) False by (simp add: f64_nearest_def)
  then have "x * 2 ^ k = of_int (round_half_even (x / f64_ulp x)) * (f64_ulp x * 2 ^ k)" by (metis mult.assoc)
  also have "\<dots> = of_int (round_half_even (x / f64_ulp x) * 2 ^ j) * f64_ulp (x * 2 ^ k)"
    unfolding j by (simp only: of_int_mult mult.assoc)
  finally show ?thesis by (rule f64_nearest_exact)
qed simp

end
