(* ===== verification/Core.thy ===== *)
theory Core
  imports Containers Floating
begin

text \<open>
  Crate \<open>arxia-core\<close>: the protocol constants (\<open>constants.rs\<close>), the unified error type
  (\<open>error.rs\<close>, one constructor per variant, in the source's order) and the fundamental types
  (\<open>types.rs\<close>).
\<close>

section \<open>Constants\<close>

definition MAX_VECTOR_CLOCK_ENTRIES :: nat where
  "MAX_VECTOR_CLOCK_ENTRIES = 256"

definition L0_CAP_MICRO_ARX :: u64 where
  "L0_CAP_MICRO_ARX = 10000000"

definition L1_CAP_USD :: f64 where
  "L1_CAP_USD = f64_round 50"

definition COMPACT_BLOCK_SIZE :: nat where
  "COMPACT_BLOCK_SIZE = 193"

definition LORA_MTU :: nat where
  "LORA_MTU = 256"

definition MIN_DELEGATION_FRACTION :: f64 where
  "MIN_DELEGATION_FRACTION = f64_round (1 / 1000)"

definition QUORUM_FRACTION :: f64 where
  "QUORUM_FRACTION = f64_div (f64_round 2) (f64_round 3)"

definition MIN_STAKE_FRACTION :: f64 where
  "MIN_STAKE_FRACTION = f64_round (20 / 100)"

definition RELAY_SCORING_WINDOW_DAYS :: u64 where
  "RELAY_SCORING_WINDOW_DAYS = 30"

definition RELAY_PENALTY_THRESHOLD :: f64 where
  "RELAY_PENALTY_THRESHOLD = f64_round (85 / 100)"

definition RELAY_EXCLUSION_THRESHOLD :: f64 where
  "RELAY_EXCLUSION_THRESHOLD = f64_round (60 / 100)"

definition VC_PRUNING_AGE_DAYS :: u64 where
  "VC_PRUNING_AGE_DAYS = 7"

definition ONE_ARX :: u64 where
  "ONE_ARX = 1000000"

definition TOTAL_SUPPLY_MICRO_ARX :: u64 where
  "TOTAL_SUPPLY_MICRO_ARX = 1000000000 * ONE_ARX"

definition MAX_INITIAL_BALANCE_PER_ACCOUNT :: u64 where
  "MAX_INITIAL_BALANCE_PER_ACCOUNT = 100000000 * ONE_ARX"

lemma unat_TOTAL_SUPPLY: "unat TOTAL_SUPPLY_MICRO_ARX = 10 ^ 15"
  by (simp add: TOTAL_SUPPLY_MICRO_ARX_def ONE_ARX_def)

lemma unat_MAX_INITIAL_BALANCE: "unat MAX_INITIAL_BALANCE_PER_ACCOUNT = 10 ^ 14"
  by (simp add: MAX_INITIAL_BALANCE_PER_ACCOUNT_def ONE_ARX_def)

section \<open>Errors\<close>

datatype arxia_error =
    InvalidBlockType u8
  | DataTooShort nat nat
  | HashMismatch
  | SignatureInvalid string
  | InsufficientBalance u64 u64
  | ZeroAmount
  | NonceGap nat u64 u64
  | HashChainBroken nat
  | InvalidGenesis string
  | WrongDestination
  | NotSendBlock
  | DoubleSpend u64
  | Transport string
  | SyncTimeout
  | NoNeighbors
  | HexDecode string
  | Serialization string
  | InvalidKey string
  | AccountAlreadyOpen
  | SupplyCapExceeded u64 u64
  | DuplicateReceive string
  | NonceConflict string u64 nat
  | NegativeBalance string int
  | BalanceOverflow u64 u64
  | SelfSendNotAllowed
  | UnknownVoteTarget string
  | IneligibleConflictBlockType string string
  | UnknownSourceSend string

section \<open>Types\<close>

datatype block_type_tag = TagOpen | TagSend | TagReceive | TagRevoke

definition from_byte :: "u8 \<Rightarrow> (block_type_tag, arxia_error) result" where
  "from_byte b =
     (if b = 0 then Ok TagOpen
      else if b = 1 then Ok TagSend
      else if b = 2 then Ok TagReceive
      else if b = 3 then Ok TagRevoke
      else Err (InvalidBlockType b))"

text \<open>The discriminants of the enumeration (\<open>#[repr(u8)]\<close>).\<close>

fun tag_byte :: "block_type_tag \<Rightarrow> u8" where
  "tag_byte TagOpen = 0"
| "tag_byte TagSend = 1"
| "tag_byte TagReceive = 2"
| "tag_byte TagRevoke = 3"

text \<open>
  A \<open>SystemTime\<close> is read as nanoseconds relative to the epoch; \<open>as_millis\<close> truncates to
  whole milliseconds and \<open>as u64\<close> keeps the low 64 bits.
\<close>

definition millis_since_epoch_or_zero :: "int \<Rightarrow> u64" where
  "millis_since_epoch_or_zero t = (if t < 0 then 0 else of_int (t div 1000000))"

lemma from_byte_Ok_iff: "from_byte b = Ok t \<longleftrightarrow> b = tag_byte t"
  by (cases t) (auto simp: from_byte_def)

end
