(* ===== verification/Crypto.thy ===== *)
theory Crypto
  imports Core
begin

text \<open>
  Crate \<open>arxia-crypto\<close>. The primitives come from third-party crates (\<open>hex\<close>, \<open>blake3\<close>,
  \<open>ed25519_dalek\<close>, \<open>bs58\<close>): they are the fields of the record \<open>crypto\<close>, an argument of
  every definition that uses them. What the code relies on is stated by \<open>hex_laws\<close>,
  \<open>blake3_laws\<close> and \<open>ed25519_laws\<close>; theory \<open>Demo\<close> has an instance that satisfies them.
\<close>

section \<open>The external primitives\<close>

record ('sk, 'vk) crypto =
  hex_decode :: "string \<Rightarrow> (bytes, string) result"
  hex_encode :: "bytes \<Rightarrow> string"
  blake3 :: "bytes \<Rightarrow> bytes"
  blake3_to_hex :: "bytes \<Rightarrow> string"
  vk_from_bytes :: "bytes \<Rightarrow> ('vk, string) result"
  vk_to_bytes :: "'vk \<Rightarrow> bytes"
  vk_is_weak :: "'vk \<Rightarrow> bool"
  vk_verify_strict :: "'vk \<Rightarrow> bytes \<Rightarrow> bytes \<Rightarrow> (unit, string) result"
  vk_verify :: "'vk \<Rightarrow> bytes \<Rightarrow> bytes \<Rightarrow> (unit, string) result"
  sk_verifying_key :: "'sk \<Rightarrow> 'vk"
  sk_sign :: "'sk \<Rightarrow> bytes \<Rightarrow> bytes"
  bs58_encode :: "bytes \<Rightarrow> string"
  bs58_decode :: "string \<Rightarrow> (bytes, string) result"

definition lower_hex :: "string \<Rightarrow> bool" where
  "lower_hex s \<longleftrightarrow> set s \<subseteq> set ''0123456789abcdef''"

text \<open>\<open>hex::encode\<close> writes two lower-case digits per byte; \<open>hex::decode\<close> inverts it.\<close>

definition hex_laws :: "('sk, 'vk, 'z) crypto_scheme \<Rightarrow> bool" where
  "hex_laws E \<longleftrightarrow>
     (\<forall>bs. hex_decode E (hex_encode E bs) = Ok bs) \<and>
     (\<forall>bs. length (hex_encode E bs) = 2 * length bs \<and> lower_hex (hex_encode E bs)) \<and>
     (\<forall>s. hex_decode E s \<noteq> Panic) \<and>
     (\<forall>s bs. hex_decode E s = Ok bs \<longrightarrow> length s = 2 * length bs) \<and>
     (\<forall>s bs. hex_decode E s = Ok bs \<longrightarrow> set s \<subseteq> set ''0123456789abcdefABCDEF'') \<and>
     (\<forall>s bs. hex_decode E s = Ok bs \<and> lower_hex s \<longrightarrow> hex_encode E bs = s)"

text \<open>Digests have 32 bytes and \<open>Hash::to_hex\<close> is their lower-case hex form.\<close>

definition blake3_laws :: "('sk, 'vk, 'z) crypto_scheme \<Rightarrow> bool" where
  "blake3_laws E \<longleftrightarrow>
     (\<forall>m. length (blake3 E m) = 32) \<and> (\<forall>h. blake3_to_hex E h = hex_encode E h)"

text \<open>
  Keys serialise to 32 bytes and parse back, a key derived from a signing key is not weak,
  signatures have 64 bytes, and what a key signs verifies under it.
\<close>

definition ed25519_laws :: "('sk, 'vk, 'z) crypto_scheme \<Rightarrow> bool" where
  "ed25519_laws E \<longleftrightarrow>
     (\<forall>v. length (vk_to_bytes E v) = 32 \<and> vk_from_bytes E (vk_to_bytes E v) = Ok v) \<and>
     (\<forall>b. vk_from_bytes E b \<noteq> Panic) \<and>
     (\<forall>k. \<not> vk_is_weak E (sk_verifying_key E k)) \<and>
     (\<forall>k m. length (sk_sign E k m) = 64) \<and>
     (\<forall>v m s. vk_verify_strict E v m s \<noteq> Panic \<and> vk_verify E v m s \<noteq> Panic) \<and>
     (\<forall>k m. vk_verify_strict E (sk_verifying_key E k) m (sk_sign E k m) = Ok ())"

lemmas hex_lawsD =
  hex_laws_def [THEN iffD1, THEN conjunct1, rule_format]
  hex_laws_def [THEN iffD1, THEN conjunct2, THEN conjunct1, rule_format, THEN conjunct1]
  hex_laws_def [THEN iffD1, THEN conjunct2, THEN conjunct1, rule_format, THEN conjunct2]
  hex_laws_def [THEN iffD1, THEN conjunct2, THEN conjunct2, THEN conjunct1, rule_format]
  hex_laws_def [THEN iffD1, THEN conjunct2, THEN conjunct2, THEN conjunct2, THEN conjunct1, rule_format]
  hex_laws_def [THEN iffD1, THEN conjunct2, THEN conjunct2, THEN conjunct2, THEN conjunct2,
    THEN conjunct1, rule_format]

lemma hex_decode_lower:
  "hex_laws E \<Longrightarrow> hex_decode E s = Ok bs \<Longrightarrow> lower_hex s \<Longrightarrow> hex_encode E bs = s"
  by (auto simp: hex_laws_def)

lemma hex_encode_eq_iff: "hex_laws E \<Longrightarrow> hex_encode E a = hex_encode E b \<longleftrightarrow> a = b"
  by (metis hex_lawsD(1) result.inject(1))

lemmas ed25519_lawsD =
  ed25519_laws_def [THEN iffD1, THEN conjunct1, rule_format, THEN conjunct1]
  ed25519_laws_def [THEN iffD1, THEN conjunct1, rule_format, THEN conjunct2]
  ed25519_laws_def [THEN iffD1, THEN conjunct2, THEN conjunct1, rule_format]
  ed25519_laws_def [THEN iffD1, THEN conjunct2, THEN conjunct2, THEN conjunct1, rule_format]
  ed25519_laws_def [THEN iffD1, THEN conjunct2, THEN conjunct2, THEN conjunct2, THEN conjunct1, rule_format]
  ed25519_laws_def [THEN iffD1, THEN conjunct2, THEN conjunct2, THEN conjunct2, THEN conjunct2,
    THEN conjunct1, rule_format, THEN conjunct1]
  ed25519_laws_def [THEN iffD1, THEN conjunct2, THEN conjunct2, THEN conjunct2, THEN conjunct2,
    THEN conjunct2, rule_format]

section \<open>Operations of the crate\<close>

text \<open>\<open>try_into\<close> from a vector to an array of \<open>n\<close> bytes.\<close>

definition to_array :: "nat \<Rightarrow> bytes \<Rightarrow> bytes option" where
  "to_array n bs = (if length bs = n then Some bs else None)"

lemma to_array_Some [simp]: "to_array n bs = Some a \<longleftrightarrow> length bs = n \<and> a = bs"
  by (auto simp: to_array_def)

lemma to_array_None [simp]: "to_array n bs = None \<longleftrightarrow> length bs \<noteq> n"
  by (auto simp: to_array_def)

definition hash_blake3 :: "('sk, 'vk, 'z) crypto_scheme \<Rightarrow> bytes \<Rightarrow> string" where
  "hash_blake3 E data = blake3_to_hex E (blake3 E data)"

definition hash_blake3_bytes :: "('sk, 'vk, 'z) crypto_scheme \<Rightarrow> bytes \<Rightarrow> bytes" where
  "hash_blake3_bytes E data = blake3 E data"

definition crypto_sign :: "('sk, 'vk, 'z) crypto_scheme \<Rightarrow> 'sk \<Rightarrow> bytes \<Rightarrow> bytes" where
  "crypto_sign E signing_key data = sk_sign E signing_key data"

definition crypto_verify ::
    "('sk, 'vk, 'z) crypto_scheme \<Rightarrow> bytes \<Rightarrow> bytes \<Rightarrow> bytes \<Rightarrow> (unit, arxia_error) result" where
  "crypto_verify E pubkey data signature =
     and_then (map_err InvalidKey (vk_from_bytes E pubkey))
       (\<lambda>vk. map_err SignatureInvalid (vk_verify_strict E vk data signature))"

definition validate_pubkey_strict ::
    "('sk, 'vk, 'z) crypto_scheme \<Rightarrow> bytes \<Rightarrow> (unit, arxia_error) result" where
  "validate_pubkey_strict E pubkey =
     and_then
       (map_err (\<lambda>e. InvalidKey (''not a valid Ed25519 point: '' @ e)) (vk_from_bytes E pubkey))
       (\<lambda>vk. fail_if (vk_is_weak E vk)
          (InvalidKey ''low-order Ed25519 public key (weak / small-subgroup point)''))"

datatype unimplemented = Unimplemented

definition chacha20_encrypt :: "bytes \<Rightarrow> bytes \<Rightarrow> bytes \<Rightarrow> (bytes, unimplemented) result" where
  "chacha20_encrypt key nonce plaintext = Err Unimplemented"

definition chacha20_decrypt :: "bytes \<Rightarrow> bytes \<Rightarrow> bytes \<Rightarrow> (bytes, unimplemented) result" where
  "chacha20_decrypt key nonce ciphertext = Err Unimplemented"

definition slip39_split_seed :: "bytes \<Rightarrow> u8 \<Rightarrow> u8 \<Rightarrow> (bytes list, unimplemented) result" where
  "slip39_split_seed seed threshold shares = Err Unimplemented"

definition slip39_reconstruct_seed :: "bytes list \<Rightarrow> (bytes, unimplemented) result" where
  "slip39_reconstruct_seed shares = Err Unimplemented"

section \<open>Facts\<close>

definition pubkey_of :: "('sk, 'vk, 'z) crypto_scheme \<Rightarrow> 'sk \<Rightarrow> bytes" where
  "pubkey_of E k = vk_to_bytes E (sk_verifying_key E k)"

lemma length_pubkey_of [simp]: "ed25519_laws E \<Longrightarrow> length (pubkey_of E k) = 32"
  by (simp add: pubkey_of_def ed25519_lawsD)

lemma verify_signed:
  "ed25519_laws E \<Longrightarrow> crypto_verify E (pubkey_of E k) m (crypto_sign E k m) = Ok ()"
  by (simp add: crypto_verify_def crypto_sign_def pubkey_of_def ed25519_lawsD)

lemma validate_pubkey_of: "ed25519_laws E \<Longrightarrow> validate_pubkey_strict E (pubkey_of E k) = Ok ()"
  by (simp add: validate_pubkey_strict_def pubkey_of_def ed25519_lawsD)

lemma crypto_verify_no_panic: "ed25519_laws E \<Longrightarrow> crypto_verify E pk m s \<noteq> Panic"
  by (simp add: crypto_verify_def outcome_simps ed25519_lawsD)

lemma validate_no_panic: "ed25519_laws E \<Longrightarrow> validate_pubkey_strict E pk \<noteq> Panic"
  by (simp add: validate_pubkey_strict_def outcome_simps ed25519_lawsD)

end
