(* ===== verification/Block.thy ===== *)
theory Block
  imports Crypto
begin

text \<open>
  Crate \<open>arxia-lattice\<close>, files \<open>block.rs\<close> and \<open>validation.rs\<close>: the block, its content
  hash, and the verification of one block and of a whole account chain. The JSON text of a
  block type is produced by \<open>serde_json\<close>, a third-party crate: it is the field
  \<open>block_type_json\<close> of the environment.
\<close>

section \<open>Blocks\<close>

datatype block_type =
    Open u64
  | Send string u64
  | Receive string
  | Revoke string

record block =
  b_account :: string
  b_previous :: string
  b_type :: block_type
  b_balance :: u64
  b_nonce :: u64
  b_timestamp :: u64
  b_hash :: string
  b_signature :: bytes

record ('sk, 'vk) arxia_env = "('sk, 'vk) crypto" +
  block_type_json :: "block_type \<Rightarrow> (string, string) result"

text \<open>Serialising one of the four flat variants succeeds, with a different text for each value.\<close>

definition json_laws :: "('sk, 'vk, 'z) arxia_env_scheme \<Rightarrow> bool" where
  "json_laws E \<longleftrightarrow>
     (\<forall>t. \<exists>j. block_type_json E t = Ok j) \<and>
     (\<forall>t u. block_type_json E t = block_type_json E u \<longrightarrow> t = u)"

definition env_laws :: "('sk, 'vk, 'z) arxia_env_scheme \<Rightarrow> bool" where
  "env_laws E \<longleftrightarrow> hex_laws E \<and> blake3_laws E \<and> ed25519_laws E \<and> json_laws E"

lemma env_lawsD:
  "env_laws E \<Longrightarrow> hex_laws E" "env_laws E \<Longrightarrow> blake3_laws E"
  "env_laws E \<Longrightarrow> ed25519_laws E" "env_laws E \<Longrightarrow> json_laws E"
  by (simp_all add: env_laws_def)

section \<open>The content hash\<close>

definition block_content :: "string \<Rightarrow> string \<Rightarrow> string \<Rightarrow> u64 \<Rightarrow> u64 \<Rightarrow> u64 \<Rightarrow> string" where
  "block_content account previous bt_json balance nonce timestamp =
     account @ '':'' @ previous @ '':'' @ bt_json @ '':'' @ display_u64 balance @ '':''
       @ display_u64 nonce @ '':'' @ display_u64 timestamp"

text \<open>Decoding a hexadecimal account into a 32-byte public key.\<close>

definition account_pubkey ::
    "('sk, 'vk, 'z) crypto_scheme \<Rightarrow> string \<Rightarrow> (bytes, arxia_error) result" where
  "account_pubkey E account =
     and_then (map_err InvalidKey (hex_decode E account))
       (\<lambda>v. ok_or (to_array 32 v) (InvalidKey ''bad key length''))"

definition compute_hash ::
    "('sk, 'vk, 'z) arxia_env_scheme \<Rightarrow> string \<Rightarrow> string \<Rightarrow> block_type \<Rightarrow> u64 \<Rightarrow> u64 \<Rightarrow> u64
      \<Rightarrow> (string, arxia_error) result" where
  "compute_hash E account previous bt balance nonce timestamp =
     and_then (account_pubkey E account) (\<lambda>pubkey_bytes.
     and_then (validate_pubkey_strict E pubkey_bytes) (\<lambda>_.
     and_then (map_err (\<lambda>e. Serialization (''BlockType: '' @ e)) (block_type_json E bt)) (\<lambda>bt_json.
       Ok (blake3_to_hex E (blake3 E
         (str_bytes (block_content account previous bt_json balance nonce timestamp)))))))"

definition block_hash_of :: "('sk, 'vk, 'z) arxia_env_scheme \<Rightarrow> block \<Rightarrow> (string, arxia_error) result" where
  "block_hash_of E b =
     compute_hash E (b_account b) (b_previous b) (b_type b) (b_balance b) (b_nonce b) (b_timestamp b)"

section \<open>Verification of one block\<close>

definition verify_block :: "('sk, 'vk, 'z) arxia_env_scheme \<Rightarrow> block \<Rightarrow> (unit, arxia_error) result" where
  "verify_block E b =
     and_then (block_hash_of E b) (\<lambda>expected_hash.
     and_then (fail_if (expected_hash \<noteq> b_hash b) HashMismatch) (\<lambda>_.
     and_then (account_pubkey E (b_account b)) (\<lambda>pubkey_bytes.
     and_then (validate_pubkey_strict E pubkey_bytes) (\<lambda>_.
     and_then (ok_or (to_array 64 (b_signature b)) (SignatureInvalid ''bad sig length'')) (\<lambda>sig_bytes.
     and_then (map_err SignatureInvalid (hex_decode E (b_hash b))) (\<lambda>hash_bytes.
       crypto_verify E pubkey_bytes hash_bytes sig_bytes))))))"

section \<open>Verification of an account chain\<close>

definition is_open :: "block \<Rightarrow> bool" where
  "is_open b = (case b_type b of Open _ \<Rightarrow> True | _ \<Rightarrow> False)"

text \<open>The loop over \<open>i in 1..chain.len()\<close>, with the previous block carried along.\<close>

fun verify_links ::
    "('sk, 'vk, 'z) arxia_env_scheme \<Rightarrow> nat \<Rightarrow> block \<Rightarrow> block list \<Rightarrow> (unit, arxia_error) result" where
  "verify_links E i prev [] = Ok ()"
| "verify_links E i prev (b # bs) =
     and_then (plain_add (b_nonce prev) 1) (\<lambda>expected.
     and_then (fail_if (b_nonce b \<noteq> expected) (NonceGap i expected (b_nonce b))) (\<lambda>_.
     and_then (fail_if (b_previous b \<noteq> b_hash prev) (HashChainBroken i)) (\<lambda>_.
     and_then (verify_block E b) (\<lambda>_.
       verify_links E (Suc i) b bs))))"

fun verify_chain_integrity ::
    "('sk, 'vk, 'z) arxia_env_scheme \<Rightarrow> block list \<Rightarrow> (unit, arxia_error) result" where
  "verify_chain_integrity E [] = Ok ()"
| "verify_chain_integrity E (b # bs) =
     and_then (fail_if (b_nonce b \<noteq> 1)
       (InvalidGenesis (''nonce must be 1, got '' @ display_u64 (b_nonce b)))) (\<lambda>_.
     and_then (fail_if (\<not> is_open b) (InvalidGenesis ''first block must be OPEN'')) (\<lambda>_.
     and_then (fail_if (b_previous b \<noteq> []) (InvalidGenesis ''genesis must have empty previous'')) (\<lambda>_.
     and_then (verify_block E b) (\<lambda>_.
       verify_links E 1 b bs))))"

section \<open>The text of a block type\<close>

text \<open>
  What \<open>serde_json\<close> documents of the text: a variant is an object with the variant's name as its
  only key and the object of its fields as the value, in the order of their declaration and
  without white space; a number is its digits; a string stands between quotation marks, and a
  quotation mark inside it has a backslash before it. How else a string is escaped is left open.
\<close>

definition quoted :: "string \<Rightarrow> string" where
  "quoted s = CHR 0x22 # s @ [CHR 0x22]"

definition json_member :: "string \<Rightarrow> string \<Rightarrow> string" where
  "json_member name v = quoted name @ CHR '':'' # v"

definition json_variant :: "string \<Rightarrow> string \<Rightarrow> string" where
  "json_variant name body = CHR ''{'' # quoted name @ '':{'' @ body @ ''}}''"

text \<open>The first argument is the character before the text.\<close>

fun quotes_escaped :: "char \<Rightarrow> string \<Rightarrow> bool" where
  "quotes_escaped p [] = True"
| "quotes_escaped p (c # s) = ((c = CHR 0x22 \<longrightarrow> p = CHR 0x5C) \<and> quotes_escaped c s)"

definition json_text_laws :: "('sk, 'vk, 'z) arxia_env_scheme \<Rightarrow> bool" where
  "json_text_laws E \<longleftrightarrow>
     (\<exists>esc. (\<forall>s. quotes_escaped (CHR 0x22) (esc s)) \<and>
       (\<forall>x. block_type_json E (Open x) =
         Ok (json_variant ''Open'' (json_member ''initial_balance'' (display_u64 x)))) \<and>
       (\<forall>d x. block_type_json E (Send d x) =
         Ok (json_variant ''Send'' (json_member ''destination'' (quoted (esc d)) @ '','' @
           json_member ''amount'' (display_u64 x)))) \<and>
       (\<forall>h. block_type_json E (Receive h) =
         Ok (json_variant ''Receive'' (json_member ''source_hash'' (quoted (esc h))))) \<and>
       (\<forall>h. block_type_json E (Revoke h) =
         Ok (json_variant ''Revoke'' (json_member ''credential_hash'' (quoted (esc h))))))"

text \<open>A brace, a quotation mark and the first letter of a variant stand together only at the start.\<close>

fun opens_variant :: "string \<Rightarrow> bool" where
  "opens_variant (a # b # c # s) = (a = CHR ''{'' \<and> b = CHR 0x22 \<and> c \<in> set ''OSR'')"
| "opens_variant _ = False"

fun variant_inside :: "string \<Rightarrow> bool" where
  "variant_inside [] = False"
| "variant_inside (c # s) = (opens_variant (c # s) \<or> variant_inside s)"

lemma opens_variant_brace [simp]: "c \<noteq> CHR ''{'' \<Longrightarrow> \<not> opens_variant (c # s)"
  by (cases s; cases "tl s") auto

lemma variant_inside_append: "opens_variant s \<Longrightarrow> variant_inside (pre @ s)"
  by (induction pre) (cases s, simp_all)

lemma no_variant_inside: "CHR ''{'' \<notin> set s \<Longrightarrow> \<not> variant_inside s"
proof (induction s)
  case (Cons c s)
  moreover have "opens_variant (c # s) \<Longrightarrow> c = CHR ''{''" by (cases s; cases "tl s") auto
  ultimately show ?case by auto
qed simp

lemma no_variant_in_text:
  assumes "quotes_escaped p s" "c \<notin> set ''OSR''" "CHR ''{'' \<notin> set r" "c \<noteq> CHR ''{''"
  shows "\<not> variant_inside (p # s @ CHR 0x22 # c # r)"
  using assms(1)
proof (induction s arbitrary: p)
  case Nil
  have "\<not> variant_inside (CHR 0x22 # c # r)" using assms(3,4) by (intro no_variant_inside) simp
  then show ?case using assms(2) by simp
next
  case (Cons x s)
  have "\<not> opens_variant (p # x # y)" for y using Cons.prems by (cases y) auto
  moreover have "\<not> variant_inside (x # s @ CHR 0x22 # c # r)" using Cons.IH[of x] Cons.prems by simp
  ultimately show ?case by simp
qed

lemma display_no_brace: "CHR ''{'' \<notin> set (display_u64 x)"
  using display_nat_digits[of "CHR ''{''" "unat x"] by (auto simp: display_u64_def)

lemma block_type_text:
  assumes "json_text_laws E" "block_type_json E t = Ok j"
  shows "opens_variant j" and "\<not> variant_inside (tl j)"
proof -
  obtain esc where esc: "\<And>s. quotes_escaped (CHR 0x22) (esc s)"
    and texts: "\<And>x. block_type_json E (Open x) =
        Ok (json_variant ''Open'' (json_member ''initial_balance'' (display_u64 x)))"
      "\<And>d x. block_type_json E (Send d x) =
        Ok (json_variant ''Send'' (json_member ''destination'' (quoted (esc d)) @ '','' @ json_member ''amount'' (display_u64 x)))"
      "\<And>h. block_type_json E (Receive h) = Ok (json_variant ''Receive'' (json_member ''source_hash'' (quoted (esc h))))"
      "\<And>h. block_type_json E (Revoke h) = Ok (json_variant ''Revoke'' (json_member ''credential_hash'' (quoted (esc h))))"
    using assms(1) unfolding json_text_laws_def by blast
  have string: "\<not> variant_inside (esc s @ CHR 0x22 # c # r)"
    if "c \<notin> set ''OSR''" "CHR ''{'' \<notin> set r" "c \<noteq> CHR ''{''" for s c r
    using no_variant_in_text[OF esc that] by simp
  have digits: "\<not> variant_inside (display_u64 x @ ''}}'')" for x
    using display_no_brace by (intro no_variant_inside) simp
  have "opens_variant j \<and> \<not> variant_inside (tl j)"
  proof (cases t)
    case (Open x)
    then show ?thesis using assms(2) digits[of x]
      by (auto simp: texts json_variant_def json_member_def quoted_def)
  next
    case (Send d x)
    then show ?thesis using assms(2) string[of "CHR '',''" _ d] display_no_brace[of x]
      by (auto simp: texts json_variant_def json_member_def quoted_def)
  next
    case (Receive h)
    then show ?thesis using assms(2) string[of "CHR ''}''" _ h]
      by (auto simp: texts json_variant_def json_member_def quoted_def)
  next
    case (Revoke h)
    then show ?thesis using assms(2) string[of "CHR ''}''" _ h]
      by (auto simp: texts json_variant_def json_member_def quoted_def)
  qed
  then show "opens_variant j" "\<not> variant_inside (tl j)" by simp_all
qed

section \<open>The content determines the fields\<close>

text \<open>A previous hash is any text, colons included: where it ends is where the last variant starts.\<close>

lemma split_at_block_type:
  assumes "p @ CHR '':'' # j = p' @ CHR '':'' # j'"
    and j: "opens_variant j" "\<not> variant_inside (tl j)" and j': "opens_variant j'" "\<not> variant_inside (tl j')"
  shows "p = p' \<and> j = j'"
proof -
  have later: False if cut: "CHR '':'' # x = us @ CHR '':'' # y" "us \<noteq> []"
      and x: "opens_variant x" "\<not> variant_inside (tl x)" and y: "opens_variant y" for us x y
  proof -
    obtain vs where vs: "x = vs @ CHR '':'' # y" using cut by (cases us) auto
    then have "vs \<noteq> []" using x(1) by auto
    then have "tl x = (tl vs @ '':'') @ y" using vs by (cases vs) auto
    then show False using variant_inside_append[OF y] x(2) by metis
  qed
  obtain us where "p = p' @ us \<and> us @ CHR '':'' # j = CHR '':'' # j' \<or> p @ us = p' \<and> CHR '':'' # j = us @ CHR '':'' # j'"
    using assms(1) by (auto simp: append_eq_append_conv2)
  then show ?thesis
  proof (elim disjE conjE)
    assume us: "p = p' @ us" "us @ CHR '':'' # j = CHR '':'' # j'"
    then have "us = []" using later[of j' us j] j j' by metis
    then show ?thesis using us by simp
  next
    assume us: "p @ us = p'" "CHR '':'' # j = us @ CHR '':'' # j'"
    then have "us = []" using later[of j us j'] j j' by blast
    then show ?thesis using us by simp
  qed
qed

lemma block_content_inj:
  assumes "CHR '':'' \<notin> set a" "CHR '':'' \<notin> set a'"
    and j: "opens_variant j" "\<not> variant_inside (tl j)" and j': "opens_variant j'" "\<not> variant_inside (tl j')"
    and "block_content a p j bal n ts = block_content a' p' j' bal' n' ts'"
  shows "a = a' \<and> p = p' \<and> j = j' \<and> bal = bal' \<and> n = n' \<and> ts = ts'"
proof -
  have "a @ CHR '':'' # (p @ CHR '':'' # (j @ CHR '':'' # display_u64 bal @ CHR '':'' # display_u64 n
        @ CHR '':'' # display_u64 ts))
      = a' @ CHR '':'' # (p' @ CHR '':'' # (j' @ CHR '':'' # display_u64 bal' @ CHR '':'' # display_u64 n'
        @ CHR '':'' # display_u64 ts'))"
    using assms(7) by (simp add: block_content_def)
  then have a: "a = a'" and
    rest: "(((p @ CHR '':'' # j) @ CHR '':'' # display_u64 bal) @ CHR '':'' # display_u64 n) @ CHR '':'' # display_u64 ts
      = (((p' @ CHR '':'' # j') @ CHR '':'' # display_u64 bal') @ CHR '':'' # display_u64 n') @ CHR '':'' # display_u64 ts'"
    using assms(1,2) by (simp_all add: split_at_separator)
  from rest have "p @ CHR '':'' # j = p' @ CHR '':'' # j' \<and> bal = bal' \<and> n = n' \<and> ts = ts'"
    by (simp only: split_at_last_separator display_no_colon not_False_eq_True display_u64_eq_iff)
  then show ?thesis using a split_at_block_type[OF _ j j'] by blast
qed

text \<open>The bytes a block's hash is taken of.\<close>

definition block_preimage :: "('sk, 'vk, 'z) arxia_env_scheme \<Rightarrow> block \<Rightarrow> (bytes, string) result" where
  "block_preimage E b =
     map_ok (\<lambda>j. str_bytes (block_content (b_account b) (b_previous b) j (b_balance b) (b_nonce b)
       (b_timestamp b))) (block_type_json E (b_type b))"

definition same_content :: "block \<Rightarrow> block \<Rightarrow> bool" where
  "same_content b c \<longleftrightarrow>
     b_account b = b_account c \<and> b_previous b = b_previous c \<and> b_type b = b_type c \<and>
     b_balance b = b_balance c \<and> b_nonce b = b_nonce c \<and> b_timestamp b = b_timestamp c"

lemma block_hash_of_Ok:
  "block_hash_of E b = Ok h \<longleftrightarrow>
     (\<exists>pk x. hex_decode E (b_account b) = Ok pk \<and> length pk = 32 \<and>
        validate_pubkey_strict E pk = Ok () \<and> block_preimage E b = Ok x \<and>
        h = blake3_to_hex E (blake3 E x))"
  by (auto simp: block_hash_of_def compute_hash_def account_pubkey_def block_preimage_def outcome_simps)

text \<open>
  A hash binds every field of a block: two blocks with the same hash agree on everything that is
  hashed, or their two preimages are a collision of the hash function. Nothing is asked of the
  \<open>previous\<close> field, which \<open>verify_block\<close> does not check.
\<close>

lemma block_hash_binding:
  assumes E: "hex_laws E" "blake3_laws E" "json_laws E" "json_text_laws E"
    and h: "block_hash_of E b = Ok h" "block_hash_of E c = Ok h"
  shows "same_content b c \<or>
    (\<exists>x y. block_preimage E b = Ok x \<and> block_preimage E c = Ok y \<and> x \<noteq> y \<and> blake3 E x = blake3 E y)"
proof -
  obtain pk x pk' y where
    a: "hex_decode E (b_account b) = Ok pk" "hex_decode E (b_account c) = Ok pk'" and
    x: "block_preimage E b = Ok x" "block_preimage E c = Ok y" and
    eq: "blake3_to_hex E (blake3 E x) = blake3_to_hex E (blake3 E y)"
    using h by (auto simp: block_hash_of_Ok)
  have coll: "blake3 E x = blake3 E y"
    using eq E(1,2) by (simp add: blake3_laws_def hex_encode_eq_iff)
  have acct: "CHR '':'' \<notin> set (b_account b)" "CHR '':'' \<notin> set (b_account c)"
    using hex_lawsD(6)[OF E(1)] a by auto
  have "same_content b c" if "x = y"
  proof -
    obtain j where j: "block_type_json E (b_type b) = Ok j"
      "x = str_bytes (block_content (b_account b) (b_previous b) j (b_balance b) (b_nonce b) (b_timestamp b))"
      using x(1) by (auto simp: block_preimage_def outcome_simps)
    obtain j' where j': "block_type_json E (b_type c) = Ok j'"
      "y = str_bytes (block_content (b_account c) (b_previous c) j' (b_balance c) (b_nonce c) (b_timestamp c))"
      using x(2) by (auto simp: block_preimage_def outcome_simps)
    have "block_content (b_account b) (b_previous b) j (b_balance b) (b_nonce b) (b_timestamp b)
        = block_content (b_account c) (b_previous c) j' (b_balance c) (b_nonce c) (b_timestamp c)"
      using j(2) j'(2) that by simp
    then have "b_account b = b_account c \<and> b_previous b = b_previous c \<and> j = j' \<and>
        b_balance b = b_balance c \<and> b_nonce b = b_nonce c \<and> b_timestamp b = b_timestamp c"
      using acct block_type_text[OF E(4) j(1)] block_type_text[OF E(4) j'(1)] by (intro block_content_inj)
    moreover have "b_type b = b_type c" if "j = j'"
      using j(1) j'(1) that E(3) by (simp add: json_laws_def)
    ultimately show ?thesis by (simp add: same_content_def)
  qed
  then show ?thesis using x coll by blast
qed

section \<open>What verification establishes\<close>

text \<open>A block that verifies carries its own hash, and a signature of that hash by its account.\<close>

lemma verify_block_Ok_iff:
  "verify_block E b = Ok () \<longleftrightarrow>
     block_hash_of E b = Ok (b_hash b) \<and>
     (\<exists>pk h. account_pubkey E (b_account b) = Ok pk \<and> validate_pubkey_strict E pk = Ok () \<and>
        length (b_signature b) = 64 \<and> hex_decode E (b_hash b) = Ok h \<and>
        crypto_verify E pk h (b_signature b) = Ok ())"
  by (auto simp: verify_block_def outcome_simps)

lemma account_pubkey_Ok:
  "account_pubkey E a = Ok pk \<longleftrightarrow> hex_decode E a = Ok pk \<and> length pk = 32"
  by (auto simp: account_pubkey_def outcome_simps)

lemma compute_hash_Ok:
  "compute_hash E a p t bal n ts = Ok h \<longleftrightarrow>
     (\<exists>pk j. account_pubkey E a = Ok pk \<and> validate_pubkey_strict E pk = Ok () \<and>
        block_type_json E t = Ok j \<and>
        h = blake3_to_hex E (blake3 E (str_bytes (block_content a p j bal n ts))))"
  by (auto simp: compute_hash_def outcome_simps)

lemma verify_block_no_panic: "env_laws E \<Longrightarrow> verify_block E b \<noteq> Panic"
  using env_lawsD[of E]
  by (auto simp: verify_block_def block_hash_of_def compute_hash_def account_pubkey_def outcome_simps
      hex_lawsD validate_no_panic crypto_verify_no_panic json_laws_def)
     (metis result.distinct(3))+

text \<open>
  The declarative reading of \<open>verify_links\<close>: nonces go up by one, each block names the hash of
  the one before it, and each block verifies.
\<close>

definition linked :: "block \<Rightarrow> block \<Rightarrow> bool" where
  "linked a b \<longleftrightarrow> unat (b_nonce b) = Suc (unat (b_nonce a)) \<and> b_previous b = b_hash a"

fun links_valid :: "('sk, 'vk, 'z) arxia_env_scheme \<Rightarrow> block \<Rightarrow> block list \<Rightarrow> bool" where
  "links_valid E a [] = True"
| "links_valid E a (b # bs) = (linked a b \<and> verify_block E b = Ok () \<and> links_valid E b bs)"

definition genesis_ok :: "block \<Rightarrow> bool" where
  "genesis_ok b \<longleftrightarrow> b_nonce b = 1 \<and> is_open b \<and> b_previous b = []"

definition chain_valid :: "('sk, 'vk, 'z) arxia_env_scheme \<Rightarrow> block list \<Rightarrow> bool" where
  "chain_valid E bs =
     (case bs of [] \<Rightarrow> True | b # bs' \<Rightarrow> genesis_ok b \<and> verify_block E b = Ok () \<and> links_valid E b bs')"

lemma linked_iff_plain_add:
  "plain_add (b_nonce a) 1 = Ok (b_nonce b) \<longleftrightarrow> unat (b_nonce b) = Suc (unat (b_nonce a))"
  using unat_u64_less[of "b_nonce b"] by (auto simp: outcome_simps)

lemma verify_links_Ok_iff: "verify_links E i a bs = Ok () \<longleftrightarrow> links_valid E a bs"
proof (induction E i a bs rule: verify_links.induct)
  case (1 E i prev)
  then show ?case by simp
next
  case (2 E i prev b bs)
  have "verify_links E i prev (b # bs) = Ok () \<longleftrightarrow>
      plain_add (b_nonce prev) 1 = (Ok (b_nonce b) :: (u64, arxia_error) result) \<and>
      b_previous b = b_hash prev \<and> verify_block E b = Ok () \<and> verify_links E (Suc i) b bs = Ok ()"
    by (auto simp: and_then_Ok_iff fail_if_iffs)
  then show ?case
    using 2 by (auto simp: linked_def linked_iff_plain_add)
qed

lemma verify_chain_integrity_Ok_iff: "verify_chain_integrity E bs = Ok () \<longleftrightarrow> chain_valid E bs"
  by (cases bs) (auto simp: chain_valid_def genesis_ok_def verify_links_Ok_iff outcome_simps)

lemma links_valid_append:
  "links_valid E a (bs @ cs) \<longleftrightarrow> links_valid E a bs \<and> links_valid E (last (a # bs)) cs"
  by (induction bs arbitrary: a) auto

lemma links_valid_snoc:
  "links_valid E a (bs @ [c]) \<longleftrightarrow>
     links_valid E a bs \<and> linked (last (a # bs)) c \<and> verify_block E c = Ok ()"
  by (simp add: links_valid_append)

lemma links_valid_nonces:
  "links_valid E a bs \<Longrightarrow> i < length bs \<Longrightarrow> unat (b_nonce (bs ! i)) = unat (b_nonce a) + Suc i"
proof (induction bs arbitrary: a i)
  case Nil
  then show ?case by simp
next
  case (Cons b bs)
  then show ?case by (cases i) (auto simp: linked_def)
qed

lemma chain_valid_nonces:
  "chain_valid E bs \<Longrightarrow> i < length bs \<Longrightarrow> unat (b_nonce (bs ! i)) = Suc i"
  by (cases bs; cases i) (auto simp: chain_valid_def genesis_ok_def links_valid_nonces)

lemma chain_valid_snoc:
  "chain_valid E (bs @ [b]) \<longleftrightarrow>
     chain_valid E bs \<and> verify_block E b = Ok () \<and> (if bs = [] then genesis_ok b else linked (last bs) b)"
  by (cases bs) (auto simp: chain_valid_def links_valid_snoc)

lemma chain_valid_verified: "chain_valid E bs \<Longrightarrow> b \<in> set bs \<Longrightarrow> verify_block E b = Ok ()"
proof -
  have "links_valid E a cs \<Longrightarrow> c \<in> set cs \<Longrightarrow> verify_block E c = Ok ()" for a c cs
    by (induction cs arbitrary: a) auto
  then show "chain_valid E bs \<Longrightarrow> b \<in> set bs \<Longrightarrow> verify_block E b = Ok ()"
    by (cases bs) (auto simp: chain_valid_def)
qed

end
