(* ===== verification/Interfaces.thy ===== *)
theory Interfaces
  imports Containers
begin

text \<open>
  The contracts several components share, as locales. Each is interpreted on the model's own
  definitions in the theory of the component that provides the operations.
  \<^item> \<open>state_inv\<close>: an operation that keeps an invariant, hence every run of it does.
  \<^item> \<open>replica_merge\<close>: a merge that is a join (CRDT); replicas converge whatever the delivery order.
  \<^item> \<open>drop_oldest_queue\<close>: a bounded queue with drop-oldest; it holds the most recent items.
  \<^item> \<open>key_value_store\<close>: the storage trait; batches and overlays.
  \<^item> \<open>signed_envelope\<close>: canonical bytes and a signature check in front of a state change.
\<close>

section \<open>Runs keep invariants\<close>

locale state_inv =
  fixes inv :: "'s \<Rightarrow> bool" and step :: "'op \<Rightarrow> 's \<Rightarrow> 's"
  assumes step_inv: "inv s \<Longrightarrow> inv (step x s)"
begin

lemma run_inv: "inv s \<Longrightarrow> inv (fold step xs s)"
  by (induction xs arbitrary: s) (simp_all add: step_inv)

end

section \<open>Merging replicas\<close>

locale replica_merge =
  fixes ok :: "'s \<Rightarrow> bool" and merge :: "'s \<Rightarrow> 's \<Rightarrow> 's"
  assumes ok_merge: "ok a \<Longrightarrow> ok b \<Longrightarrow> ok (merge a b)"
    and merge_commute: "ok a \<Longrightarrow> ok b \<Longrightarrow> merge a b = merge b a"
    and merge_assoc: "ok a \<Longrightarrow> ok b \<Longrightarrow> ok c \<Longrightarrow> merge (merge a b) c = merge a (merge b c)"
    and merge_idem: "ok a \<Longrightarrow> merge a a = a"
begin

text \<open>The order of replicas: \<open>b\<close> has seen what \<open>a\<close> has.\<close>

definition absorbed :: "'s \<Rightarrow> 's \<Rightarrow> bool" where
  "absorbed a b \<longleftrightarrow> merge a b = b"

lemma ok_fold: "ok s \<Longrightarrow> \<forall>x \<in> set xs. ok x \<Longrightarrow> ok (foldl merge s xs)"
  by (induction xs arbitrary: s) (simp_all add: ok_merge)

lemma merge_left_commute:
  "ok a \<Longrightarrow> ok b \<Longrightarrow> ok c \<Longrightarrow> merge a (merge b c) = merge b (merge a c)"
  by (metis merge_assoc merge_commute)

lemma fold_merge_out:
  "ok s \<Longrightarrow> ok x \<Longrightarrow> \<forall>y \<in> set xs. ok y \<Longrightarrow> foldl merge (merge s x) xs = merge x (foldl merge s xs)"
proof (induction xs arbitrary: s)
  case Nil
  then show ?case by (simp add: merge_commute)
next
  case (Cons y xs)
  then have y: "ok y" by simp
  have "merge (merge s x) y = merge (merge s y) x"
    using Cons.prems y by (metis merge_assoc merge_commute)
  then show ?case using Cons.IH[of "merge s y"] Cons.prems y by (simp add: ok_merge)
qed

lemma fold_merge_absorbs:
  "ok s \<Longrightarrow> \<forall>y \<in> set xs. ok y \<Longrightarrow> x \<in> set xs \<Longrightarrow> absorbed x (foldl merge s xs)"
proof (induction xs arbitrary: s)
  case Nil
  then show ?case by simp
next
  case (Cons y xs)
  show ?case
  proof (cases "x = y")
    case True
    have ok: "ok y" "ok (foldl merge s xs)" using Cons.prems by (simp_all add: ok_fold)
    have "foldl merge s (y # xs) = merge y (foldl merge s xs)"
      using fold_merge_out[of s y xs] Cons.prems by simp
    then show ?thesis
      using ok True by (simp add: absorbed_def merge_assoc[symmetric] merge_idem)
  next
    case False
    then show ?thesis using Cons.IH[of "merge s y"] Cons.prems by (simp add: ok_merge)
  qed
qed

lemma absorbed_start: "ok s \<Longrightarrow> \<forall>y \<in> set xs. ok y \<Longrightarrow> absorbed s (foldl merge s xs)"
proof (induction xs arbitrary: s)
  case Nil
  then show ?case by (simp add: absorbed_def merge_idem)
next
  case (Cons y xs)
  then have y: "ok y" and "absorbed (merge s y) (foldl merge s (y # xs))" by (simp_all add: ok_merge)
  moreover have "ok (foldl merge s (y # xs))" using Cons.prems by (intro ok_fold) simp_all
  ultimately show ?case
    using Cons.prems(1) unfolding absorbed_def by (metis merge_assoc merge_idem ok_merge)
qed

lemma absorbed_antisym: "ok a \<Longrightarrow> ok b \<Longrightarrow> absorbed a b \<Longrightarrow> absorbed b a \<Longrightarrow> a = b"
  by (metis absorbed_def merge_commute)

lemma fold_least:
  "ok s \<Longrightarrow> ok t \<Longrightarrow> \<forall>y \<in> set xs. ok y \<Longrightarrow> absorbed s t \<Longrightarrow> \<forall>y \<in> set xs. absorbed y t
    \<Longrightarrow> absorbed (foldl merge s xs) t"
proof (induction xs arbitrary: s)
  case Nil
  then show ?case by simp
next
  case (Cons y xs)
  then have "absorbed (merge s y) t" by (simp add: absorbed_def merge_assoc)
  then show ?case using Cons by (simp add: ok_merge)
qed

text \<open>Strong convergence: replicas that absorbed the same states agree, in any order, with repeats.\<close>

lemma convergence:
  assumes "ok s" "\<forall>x \<in> set xs. ok x" "set xs = set ys"
  shows "foldl merge s xs = foldl merge s ys"
proof (rule absorbed_antisym)
  have ys: "\<forall>x \<in> set ys. ok x" using assms by simp
  show "ok (foldl merge s xs)" "ok (foldl merge s ys)"
    using assms ys by (simp_all add: ok_fold)
  then show "absorbed (foldl merge s xs) (foldl merge s ys)" "absorbed (foldl merge s ys) (foldl merge s xs)"
    using assms ys by (auto intro!: fold_least ok_fold absorbed_start intro: fold_merge_absorbs)
qed

end

section \<open>Bounded queues that drop the oldest item\<close>

locale drop_oldest_queue =
  fixes items :: "'q \<Rightarrow> 'a list" and cap :: "'q \<Rightarrow> nat" and push :: "'a \<Rightarrow> 'q \<Rightarrow> 'q"
  assumes items_push:
      "items (push x q) = (if cap q \<le> length (items q) then drop 1 (items q) else items q) @ [x]"
    and cap_push: "cap (push x q) = cap q"
begin

lemma length_push: "0 < cap q \<Longrightarrow> length (items q) \<le> cap q \<Longrightarrow> length (items (push x q)) \<le> cap (push x q)"
  by (auto simp: items_push cap_push)

lemma cap_pushes: "cap (fold push xs q) = cap q"
  by (induction xs arbitrary: q) (simp_all add: cap_push)

text \<open>After any number of pushes the queue holds the last \<open>cap\<close> items of all that went in.\<close>

lemma items_pushes:
  "0 < cap q \<Longrightarrow> length (items q) \<le> cap q \<Longrightarrow>
    items (fold push xs q) = drop (length (items q @ xs) - cap q) (items q @ xs)"
proof (induction xs arbitrary: q)
  case Nil
  then show ?case by simp
next
  case (Cons x xs)
  let ?q = "push x q"
  have "items (fold push xs ?q) = drop (length (items ?q @ xs) - cap q) (items ?q @ xs)"
    using Cons length_push[of q x] by (simp add: cap_push)
  also have "\<dots> = drop (length (items q @ x # xs) - cap q) (items q @ x # xs)"
  proof (cases "length (items q) < cap q")
    case True
    then show ?thesis by (simp add: items_push)
  next
    case False
    then have len: "length (items q) = cap q" "0 < length (items q)" using Cons.prems by simp_all
    then obtain y ys where y: "items q = y # ys" by (cases "items q") auto
    then have "cap q = Suc (length ys)" using len by simp
    then show ?thesis using y by (simp add: items_push)
  qed
  finally show ?case by simp
qed

end

section \<open>Key-value stores\<close>

locale key_value_store =
  fixes ok :: "'s \<Rightarrow> bool" and get :: "'s \<Rightarrow> 'k \<Rightarrow> 'v option"
    and put :: "'k \<Rightarrow> 'v \<Rightarrow> 's \<Rightarrow> 's"
    and delete :: "'k \<Rightarrow> 's \<Rightarrow> bool \<times> 's" and contains :: "'s \<Rightarrow> 'k \<Rightarrow> bool"
  assumes ok_put: "ok s \<Longrightarrow> ok (put k v s)"
    and ok_delete: "ok s \<Longrightarrow> ok (snd (delete k s))"
    and get_put: "ok s \<Longrightarrow> get (put k v s) = (get s)(k \<mapsto> v)"
    and get_delete: "ok s \<Longrightarrow> get (snd (delete k s)) = (get s)(k := None)"
    and delete_signal: "ok s \<Longrightarrow> fst (delete k s) \<longleftrightarrow> get s k \<noteq> None"
    and contains_get: "ok s \<Longrightarrow> contains s k \<longleftrightarrow> get s k \<noteq> None"
begin

lemma ok_puts: "ok s \<Longrightarrow> ok (fold (\<lambda>(k, v). put k v) kvs s)"
  by (induction kvs arbitrary: s) (auto simp: ok_put)

lemma get_puts: "ok s \<Longrightarrow> get (fold (\<lambda>(k, v). put k v) kvs s) = get s ++ map_of (rev kvs)"
proof (induction kvs arbitrary: s)
  case Nil
  then show ?case by simp
next
  case (Cons kv kvs)
  obtain k v where kv: "kv = (k, v)" by force
  have "get (fold (\<lambda>(k, v). put k v) kvs (put k v s)) = get (put k v s) ++ map_of (rev kvs)"
    using Cons by (simp add: ok_put)
  also have "get (put k v s) = get s ++ [k \<mapsto> v]"
    using Cons.prems by (simp add: get_put)
  finally have "get (fold (\<lambda>(k, v). put k v) kvs (put k v s)) = (get s ++ [k \<mapsto> v]) ++ map_of (rev kvs)" .
  moreover have "map_of (rev (kv # kvs)) = [k \<mapsto> v] ++ map_of (rev kvs)"
    by (simp add: kv map_of_append)
  ultimately show ?case by (simp only: kv fold.simps comp_def prod.case map_add_assoc)
qed

lemma delete_twice: "ok s \<Longrightarrow> \<not> fst (delete k (snd (delete k s)))"
  by (simp add: delete_signal ok_delete get_delete)

lemma contains_put: "ok s \<Longrightarrow> contains (put k v s) k"
  by (simp add: contains_get ok_put get_put)

end

section \<open>Signed envelopes\<close>

text \<open>
  An envelope type has the bytes its sender signs (or an error when they cannot be built), the
  signer's key, a signature, and a \<open>verify\<close> that the consumers call before any state change.
\<close>

locale signed_envelope =
  fixes canonical :: "'m \<Rightarrow> bytes option" and signer :: "'m \<Rightarrow> bytes option"
    and signature :: "'m \<Rightarrow> bytes" and accepts :: "'m \<Rightarrow> bool"
    and check :: "bytes \<Rightarrow> bytes \<Rightarrow> bytes \<Rightarrow> bool"
  assumes accepts_checked:
    "accepts m \<Longrightarrow> \<exists>c pk. canonical m = Some c \<and> signer m = Some pk \<and> check pk c (signature m)"
begin

text \<open>
  With a signature scheme under which a valid signature for a key exists only for bytes that the
  key's owner signed, an accepted envelope was signed by its sender.
\<close>

lemma accepted_was_signed:
  assumes "\<And>pk c s. check pk c s \<Longrightarrow> (pk, c) \<in> issued" and "accepts m"
  shows "\<exists>c pk. canonical m = Some c \<and> signer m = Some pk \<and> (pk, c) \<in> issued"
  using accepts_checked[OF assms(2)] assms(1) by blast

lemma not_signed_rejected:
  assumes "\<And>pk c s. check pk c s \<Longrightarrow> (pk, c) \<in> issued"
    and "canonical m = Some c" "signer m = Some pk" "(pk, c) \<notin> issued"
  shows "\<not> accepts m"
proof
  assume "accepts m"
  then have "\<exists>c pk. canonical m = Some c \<and> signer m = Some pk \<and> (pk, c) \<in> issued"
    using assms(1) by (rule accepted_was_signed[rotated])
  then show False using assms(2-4) by auto
qed

end

end
