(* ===== verification/Clocks.thy ===== *)
theory Clocks
  imports Core Interfaces
begin

text \<open>
  The two vector clocks: \<open>VectorClock\<close> of \<open>arxia-lattice\<close> (\<open>chain.rs\<close>), whose number of
  entries is capped, and \<open>CrdtVectorClock\<close> of \<open>arxia-crdt\<close> (\<open>vector_clock.rs\<close>), which has no
  cap. The two types have the same comparison loops, shared here. The lemmas characterise the
  causal order pointwise, show that it is a strict partial order, that the cap is an invariant,
  and that the uncapped merge converges.
\<close>

type_synonym clock_map = "(string, u64) btree"

section \<open>The causal order\<close>

definition clock_at :: "clock_map \<Rightarrow> string \<Rightarrow> u64" where
  "clock_at m k = (case map_of m k of None \<Rightarrow> 0 | Some v \<Rightarrow> v)"

text \<open>
  The first loop of \<open>happened_before\<close>, over the entries of \<open>self\<close>: \<open>None\<close> is the early
  \<open>return false\<close>, the flag is \<open>at_least_one_less\<close>.
\<close>

fun scan_self :: "clock_map \<Rightarrow> clock_map \<Rightarrow> bool \<Rightarrow> bool option" where
  "scan_self [] other some_less = Some some_less"
| "scan_self ((node, self_val) # es) other some_less =
     (let other_val = clock_at other node in
      if self_val > other_val then None
      else scan_self es other (some_less \<or> self_val < other_val))"

text \<open>The second loop, over the entries of \<open>other\<close>.\<close>

fun scan_other :: "clock_map \<Rightarrow> clock_map \<Rightarrow> bool \<Rightarrow> bool" where
  "scan_other [] self some_less = some_less"
| "scan_other ((node, other_val) # es) self some_less =
     scan_other es self (some_less \<or> (map_of self node = None \<and> other_val > 0))"

definition clock_before :: "clock_map \<Rightarrow> clock_map \<Rightarrow> bool" where
  "clock_before self other =
     (case scan_self self other False of None \<Rightarrow> False | Some some_less \<Rightarrow> scan_other other self some_less)"

lemma scan_self_Some:
  "scan_self es other some_less = Some r \<longleftrightarrow>
     (\<forall>(k, v) \<in> set es. v \<le> clock_at other k) \<and> (r \<longleftrightarrow> some_less \<or> (\<exists>(k, v) \<in> set es. v < clock_at other k))"
proof (induction es other some_less rule: scan_self.induct)
  case (1 other some_less)
  then show ?case by auto
next
  case (2 node self_val es other some_less)
  show ?case
  proof (cases "self_val > clock_at other node")
    case True
    then show ?thesis by auto
  next
    case False
    then show ?thesis using 2[OF refl False] by auto
  qed
qed

lemma scan_other_iff:
  "scan_other es self some_less \<longleftrightarrow> some_less \<or> (\<exists>(k, v) \<in> set es. map_of self k = None \<and> v > 0)"
  by (induction es self some_less rule: scan_other.induct) auto

lemma clock_at_mem: "bt_wf m \<Longrightarrow> (k, v) \<in> set m \<Longrightarrow> clock_at m k = v"
  by (simp add: clock_at_def bt_mem_iff)

lemma clock_at_absent: "map_of m k = None \<Longrightarrow> clock_at m k = 0"
  by (simp add: clock_at_def)

text \<open>The loops compute: at most everywhere, and less somewhere.\<close>

lemma clock_before_iff:
  assumes "bt_wf a" "bt_wf b"
  shows "clock_before a b \<longleftrightarrow> (\<forall>k. clock_at a k \<le> clock_at b k) \<and> (\<exists>k. clock_at a k < clock_at b k)"
proof
  assume before: "clock_before a b"
  then obtain some_less where scan: "scan_self a b False = Some some_less" and other: "scan_other b a some_less"
    by (auto simp: clock_before_def split: option.splits)
  have le: "clock_at a k \<le> clock_at b k" for k
  proof (cases "map_of a k")
    case None
    then show ?thesis by (simp add: clock_at_absent)
  next
    case (Some v)
    then show ?thesis
      using scan assms(1) by (auto simp: scan_self_Some clock_at_def bt_mem_iff dest!: map_of_SomeD)
  qed
  have "\<exists>k. clock_at a k < clock_at b k"
  proof (cases some_less)
    case True
    then obtain k v where "(k, v) \<in> set a" "v < clock_at b k"
      using scan by (auto simp: scan_self_Some)
    then show ?thesis using assms(1) by (metis clock_at_mem)
  next
    case False
    then obtain k v where "(k, v) \<in> set b" "map_of a k = None" "v > 0"
      using other by (auto simp: scan_other_iff)
    then show ?thesis using assms(2) by (metis clock_at_mem clock_at_absent)
  qed
  with le show "(\<forall>k. clock_at a k \<le> clock_at b k) \<and> (\<exists>k. clock_at a k < clock_at b k)" by blast
next
  assume rhs: "(\<forall>k. clock_at a k \<le> clock_at b k) \<and> (\<exists>k. clock_at a k < clock_at b k)"
  then obtain k where k: "clock_at a k < clock_at b k" by blast
  have all: "\<forall>(k, v) \<in> set a. v \<le> clock_at b k"
    using rhs clock_at_mem[OF assms(1)] by (auto; metis)
  define some_less where "some_less \<longleftrightarrow> (\<exists>(k, v) \<in> set a. v < clock_at b k)"
  have scan: "scan_self a b False = Some some_less"
    using all by (simp add: scan_self_Some some_less_def)
  have "scan_other b a some_less"
  proof (cases "map_of a k")
    case None
    then have "map_of b k = Some (clock_at b k)" "clock_at b k > 0"
      using k by (auto simp: clock_at_def split: option.splits)
    then show ?thesis using None by (auto simp: scan_other_iff dest!: map_of_SomeD)
  next
    case (Some v)
    then have "(k, v) \<in> set a" "v < clock_at b k" using k by (auto simp: clock_at_def dest: map_of_SomeD)
    then show ?thesis by (auto simp: scan_other_iff some_less_def)
  qed
  then show "clock_before a b" by (simp add: clock_before_def scan)
qed

lemma clock_before_irrefl: "bt_wf a \<Longrightarrow> \<not> clock_before a a"
  by (simp add: clock_before_iff)

lemma clock_before_trans:
  assumes "bt_wf a" "bt_wf b" "bt_wf c" "clock_before a b" "clock_before b c"
  shows "clock_before a c"
  using assms unfolding clock_before_iff[OF assms(1,2)] clock_before_iff[OF assms(2,3)]
    clock_before_iff[OF assms(1,3)]
  by (meson order_trans order_less_le_trans)

lemma clock_before_asym: "bt_wf a \<Longrightarrow> bt_wf b \<Longrightarrow> clock_before a b \<Longrightarrow> \<not> clock_before b a"
  using clock_before_trans clock_before_irrefl by blast

section \<open>The lattice clock\<close>

record vector_clock =
  clocks :: clock_map

definition vc_new :: vector_clock where
  "vc_new = \<lparr>clocks = []\<rparr>"

definition vc_full :: "clock_map \<Rightarrow> string \<Rightarrow> bool" where
  "vc_full m key \<longleftrightarrow> map_of m key = None \<and> MAX_VECTOR_CLOCK_ENTRIES \<le> length m"

definition vc_tick :: "string \<Rightarrow> vector_clock \<Rightarrow> vector_clock" where
  "vc_tick node_id self =
     (if vc_full (clocks self) node_id then self
      else self\<lparr>clocks := bt_entry node_id 0 (\<lambda>c. saturating_add c 1) (clocks self)\<rparr>)"

fun vc_merge_entries :: "clock_map \<Rightarrow> clock_map \<Rightarrow> clock_map" where
  "vc_merge_entries m [] = m"
| "vc_merge_entries m ((node_id, other_val) # es) =
     (if vc_full m node_id then vc_merge_entries m es
      else vc_merge_entries (bt_entry node_id 0 (\<lambda>v. max v other_val) m) es)"

definition vc_merge :: "vector_clock \<Rightarrow> vector_clock \<Rightarrow> vector_clock" where
  "vc_merge self other = self\<lparr>clocks := vc_merge_entries (clocks self) (clocks other)\<rparr>"

definition vc_happened_before :: "vector_clock \<Rightarrow> vector_clock \<Rightarrow> bool" where
  "vc_happened_before self other = clock_before (clocks self) (clocks other)"

definition vc_is_concurrent :: "vector_clock \<Rightarrow> vector_clock \<Rightarrow> bool" where
  "vc_is_concurrent self other \<longleftrightarrow>
     \<not> vc_happened_before self other \<and> \<not> vc_happened_before other self \<and> self \<noteq> other"

definition vc_ok :: "vector_clock \<Rightarrow> bool" where
  "vc_ok c \<longleftrightarrow> bt_wf (clocks c) \<and> length (clocks c) \<le> MAX_VECTOR_CLOCK_ENTRIES"

lemma vc_entry_ok:
  "bt_wf m \<Longrightarrow> length m \<le> MAX_VECTOR_CLOCK_ENTRIES \<Longrightarrow> \<not> vc_full m k \<Longrightarrow>
    bt_wf (bt_entry k d f m) \<and> length (bt_entry k d f m) \<le> MAX_VECTOR_CLOCK_ENTRIES"
  by (auto simp: bt_entry_def length_bt_insert vc_full_def)

lemma vc_tick_ok: "vc_ok c \<Longrightarrow> vc_ok (vc_tick k c)"
  using vc_entry_ok by (auto simp: vc_ok_def vc_tick_def)

lemma vc_merge_entries_ok:
  "bt_wf m \<Longrightarrow> length m \<le> MAX_VECTOR_CLOCK_ENTRIES \<Longrightarrow>
    bt_wf (vc_merge_entries m es) \<and> length (vc_merge_entries m es) \<le> MAX_VECTOR_CLOCK_ENTRIES"
  by (induction m es rule: vc_merge_entries.induct) (simp_all add: vc_entry_ok)

lemma vc_merge_ok: "vc_ok a \<Longrightarrow> vc_ok (vc_merge a b)"
  using vc_merge_entries_ok by (auto simp: vc_ok_def vc_merge_def)

interpretation lattice_clock: state_inv vc_ok vc_tick
  by unfold_locales (rule vc_tick_ok)

text \<open>A tick moves forward in causal order, unless the entry is refused or already at its maximum.\<close>

lemma vc_tick_advances:
  assumes "vc_ok c" "\<not> vc_full (clocks c) k" "clock_at (clocks c) k \<noteq> - 1"
  shows "vc_happened_before c (vc_tick k c)"
proof -
  let ?m = "clocks c" and ?m' = "clocks (vc_tick k c)"
  have wf: "bt_wf ?m" "bt_wf ?m'" using assms(1) vc_tick_ok[OF assms(1)] by (simp_all add: vc_ok_def)
  have at: "clock_at ?m' x = (if x = k then saturating_add (clock_at ?m k) 1 else clock_at ?m x)" for x
    using assms(2) by (simp add: vc_tick_def clock_at_def map_of_bt_entry split: option.split)
  have "unat (clock_at ?m k) \<noteq> 2 ^ 64 - 1"
    using assms(3) by (simp add: word_unat_eq_iff unat_max_word)
  moreover have "unat (clock_at ?m k) < 2 ^ 64" using unat_u64_less[of "clock_at ?m k"] by simp
  ultimately have "clock_at ?m k < saturating_add (clock_at ?m k) 1"
    by (simp add: word_less_nat_alt unat_saturating_add)
  then show ?thesis
    unfolding vc_happened_before_def clock_before_iff[OF wf] by (auto simp: at intro: exI[of _ k])
qed

section \<open>The CRDT clock\<close>

record crdt_vector_clock =
  crdt_clocks :: clock_map

definition cvc_new :: crdt_vector_clock where
  "cvc_new = \<lparr>crdt_clocks = []\<rparr>"

text \<open>\<open>*c += 1\<close> panics when the entry is at its maximum.\<close>

definition cvc_tick :: "string \<Rightarrow> crdt_vector_clock \<Rightarrow> (crdt_vector_clock, unit) result" where
  "cvc_tick node_id self =
     and_then (plain_add (clock_at (crdt_clocks self) node_id) 1) (\<lambda>c.
       Ok (self\<lparr>crdt_clocks := bt_insert node_id c (crdt_clocks self)\<rparr>))"

text \<open>Element-wise maximum, over the entries of \<open>other\<close>; also the merge of a PN-counter's halves.\<close>

fun max_entries :: "clock_map \<Rightarrow> clock_map \<Rightarrow> clock_map" where
  "max_entries m [] = m"
| "max_entries m ((k, v) # es) = max_entries (bt_entry k 0 (\<lambda>e. max e v) m) es"

definition cvc_merge :: "crdt_vector_clock \<Rightarrow> crdt_vector_clock \<Rightarrow> crdt_vector_clock" where
  "cvc_merge self other = self\<lparr>crdt_clocks := max_entries (crdt_clocks self) (crdt_clocks other)\<rparr>"

definition cvc_happened_before :: "crdt_vector_clock \<Rightarrow> crdt_vector_clock \<Rightarrow> bool" where
  "cvc_happened_before self other =
     (case scan_self (crdt_clocks self) (crdt_clocks other) False of
        None \<Rightarrow> False
      | Some some_less \<Rightarrow> scan_other (crdt_clocks other) (crdt_clocks self) some_less)"

definition cvc_is_concurrent :: "crdt_vector_clock \<Rightarrow> crdt_vector_clock \<Rightarrow> bool" where
  "cvc_is_concurrent self other \<longleftrightarrow>
     \<not> cvc_happened_before self other \<and> \<not> cvc_happened_before other self \<and> self \<noteq> other"

definition cvc_len :: "crdt_vector_clock \<Rightarrow> nat" where
  "cvc_len self = length (crdt_clocks self)"

definition cvc_is_empty :: "crdt_vector_clock \<Rightarrow> bool" where
  "cvc_is_empty self \<longleftrightarrow> crdt_clocks self = []"

subsection \<open>Element-wise maximum is a join\<close>

lemma max_entries_wf: "bt_wf m \<Longrightarrow> bt_wf (max_entries m es)"
  by (induction m es rule: max_entries.induct) simp_all

text \<open>The join of two optional entries: absent is below every value.\<close>

fun join_entry :: "u64 option \<Rightarrow> u64 option \<Rightarrow> u64 option" where
  "join_entry None y = y"
| "join_entry x None = x"
| "join_entry (Some x) (Some y) = Some (max x y)"

lemma join_entry_None [simp]: "join_entry x None = x"
  by (cases x) simp_all

lemma max_zero_word [simp]: "max 0 (v :: u64) = v"
  by (simp add: max_def)

lemma map_of_max_entries:
  "bt_wf es \<Longrightarrow> map_of (max_entries m es) k = join_entry (map_of m k) (map_of es k)"
proof (induction m es rule: max_entries.induct)
  case (1 m)
  then show ?case by simp
next
  case (2 m k' v es)
  then have fresh: "map_of es k' = None" by (auto simp: bt_wf_Cons map_of_eq_None_iff)
  show ?case
  proof (cases "k = k'")
    case True
    then show ?thesis
      using 2 fresh by (cases "map_of m k'") (simp_all add: bt_wf_Cons map_of_bt_entry)
  next
    case False
    then show ?thesis using 2 by (simp add: bt_wf_Cons map_of_bt_entry)
  qed
qed

lemma join_entry_commute: "join_entry x y = join_entry y x"
  by (cases x; cases y) (simp_all add: max.commute)

lemma join_entry_assoc: "join_entry (join_entry x y) z = join_entry x (join_entry y z)"
  by (cases x; cases y; cases z) (simp_all add: max.assoc)

lemma join_entry_idem: "join_entry x x = x"
  by (cases x) simp_all

interpretation max_map: replica_merge bt_wf max_entries
proof unfold_locales
  fix a b c :: clock_map
  assume ok: "bt_wf a" "bt_wf b"
  then show ok': "bt_wf (max_entries a b)" by (simp add: max_entries_wf)
  show "max_entries a b = max_entries b a"
    using ok by (intro bt_ext) (simp_all add: max_entries_wf map_of_max_entries fun_eq_iff join_entry_commute)
  show "max_entries (max_entries a b) c = max_entries a (max_entries b c)" if "bt_wf c"
    using ok that
    by (intro bt_ext) (simp_all add: max_entries_wf map_of_max_entries fun_eq_iff join_entry_assoc)
  show "max_entries a a = a"
    using ok by (intro bt_ext) (simp_all add: max_entries_wf map_of_max_entries fun_eq_iff join_entry_idem)
qed

definition cvc_ok :: "crdt_vector_clock \<Rightarrow> bool" where
  "cvc_ok c \<longleftrightarrow> bt_wf (crdt_clocks c)"

lemma cvc_merge_simp: "cvc_merge a b = \<lparr>crdt_clocks = max_entries (crdt_clocks a) (crdt_clocks b)\<rparr>"
  by (cases a) (simp add: cvc_merge_def)

interpretation crdt_clock: replica_merge cvc_ok cvc_merge
proof unfold_locales
  fix a b c :: crdt_vector_clock
  assume ok: "cvc_ok a" "cvc_ok b"
  then show "cvc_ok (cvc_merge a b)"
    by (simp add: cvc_ok_def cvc_merge_simp max_map.ok_merge)
  show "cvc_merge a b = cvc_merge b a"
    using ok max_map.merge_commute by (simp add: cvc_ok_def cvc_merge_simp)
  show "cvc_merge (cvc_merge a b) c = cvc_merge a (cvc_merge b c)" if "cvc_ok c"
    using ok that by (simp add: cvc_ok_def cvc_merge_simp max_map.merge_assoc)
  show "cvc_merge a a = a"
    using ok by (simp add: cvc_ok_def cvc_merge_simp max_map.merge_idem)
qed

lemma clock_at_max_entries:
  "bt_wf b \<Longrightarrow> clock_at (max_entries a b) k = max (clock_at a k) (clock_at b k)"
  by (cases "map_of a k"; cases "map_of b k") (simp_all add: clock_at_def map_of_max_entries max.commute)

end
