(* ===== verification/Chain.thy ===== *)
theory Chain
  imports Block Clocks
begin

text \<open>
  Crate \<open>arxia-lattice\<close>, file \<open>chain.rs\<close>: \<open>AccountChain\<close>, the owner's side of an account. Its
  operations return a result together with the new account and the new vector clock, because the
  Rust methods take both by mutable reference and some of the errors come after a mutation. The
  time and a fresh signing key are arguments. After the definitions: every operation keeps the
  account well formed, whatever it returns, and an opened account only ever writes a chain that
  \<open>verify_chain_integrity\<close> accepts.
\<close>

section \<open>String prefixes\<close>

text \<open>\<open>s.get(..n)\<close>: absent when \<open>n\<close> is past the end or inside a character.\<close>

definition str_prefix :: "nat \<Rightarrow> string \<Rightarrow> string option" where
  "str_prefix n s =
     (if length s < n then None
      else if n < length s \<and> (128 :: nat) \<le> of_char (s ! n) \<and> of_char (s ! n) < (192 :: nat) then None
      else Some (take n s))"

text \<open>\<open>&s[..8]\<close>, which panics where \<open>get\<close> is absent.\<close>

definition first8 :: "string \<Rightarrow> (string, 'e) result" where
  "first8 s = (case str_prefix 8 s of None \<Rightarrow> Panic | Some p \<Rightarrow> Ok p)"

lemma lower_hex_ascii: "lower_hex s \<Longrightarrow> i < length s \<Longrightarrow> (of_char (s ! i) :: nat) < 128"
proof -
  assume "lower_hex s" "i < length s"
  then have "s ! i \<in> set ''0123456789abcdef''"
    using nth_mem[of i s] unfolding lower_hex_def by blast
  moreover have "\<forall>c \<in> set ''0123456789abcdef''. (of_char c :: nat) < 128" by simp
  ultimately show ?thesis by blast
qed

lemma first8_hex: "lower_hex s \<Longrightarrow> 8 \<le> length s \<Longrightarrow> first8 s = Ok (take 8 s)"
  using lower_hex_ascii[of s 8] by (auto simp: first8_def str_prefix_def split: if_splits)

section \<open>Accounts\<close>

record ('sk, 'vk) account_chain =
  ac_signing_key :: 'sk
  ac_verifying_key :: 'vk
  ac_public_key_hex :: string
  ac_chain :: "block list"
  ac_balance :: u64
  ac_nonce :: u64
  ac_consumed_sources :: "string set"

definition ac_new :: "('sk, 'vk, 'z) crypto_scheme \<Rightarrow> 'sk \<Rightarrow> ('sk, 'vk) account_chain" where
  "ac_new E signing_key =
     (let verifying_key = sk_verifying_key E signing_key in
      \<lparr>ac_signing_key = signing_key, ac_verifying_key = verifying_key,
       ac_public_key_hex = hex_encode E (vk_to_bytes E verifying_key), ac_chain = [],
       ac_balance = 0, ac_nonce = 0, ac_consumed_sources = {}\<rparr>)"

definition ac_id :: "('sk, 'vk) account_chain \<Rightarrow> string" where
  "ac_id self = ac_public_key_hex self"

definition ac_short_id :: "('sk, 'vk) account_chain \<Rightarrow> string" where
  "ac_short_id self =
     (case str_prefix 8 (ac_public_key_hex self) of None \<Rightarrow> ac_public_key_hex self | Some s \<Rightarrow> s)"

text \<open>The hash of the last block, or the empty string.\<close>

definition last_hash :: "block list \<Rightarrow> string" where
  "last_hash bs = (if bs = [] then [] else b_hash (last bs))"

text \<open>
  The common end of \<open>open\<close>, \<open>send\<close> and \<open>receive\<close>: hash the content, sign the raw hash bytes and
  build the block from the account's balance and nonce.
\<close>

definition seal_block ::
    "('sk, 'vk, 'z) arxia_env_scheme \<Rightarrow> ('sk, 'vk) account_chain \<Rightarrow> string \<Rightarrow> block_type \<Rightarrow> u64
      \<Rightarrow> (block, arxia_error) result" where
  "seal_block E self previous bt timestamp =
     and_then (compute_hash E (ac_public_key_hex self) previous bt (ac_balance self) (ac_nonce self) timestamp)
       (\<lambda>hash. and_then (map_err HexDecode (hex_decode E hash)) (\<lambda>hash_bytes.
          Ok \<lparr>b_account = ac_public_key_hex self, b_previous = previous, b_type = bt,
              b_balance = ac_balance self, b_nonce = ac_nonce self, b_timestamp = timestamp,
              b_hash = hash, b_signature = sk_sign E (ac_signing_key self) hash_bytes\<rparr>))"

type_synonym ('sk, 'vk) ac_outcome =
  "(block, arxia_error) result \<times> ('sk, 'vk) account_chain \<times> vector_clock"

text \<open>\<open>self.chain.push(block.clone()); Ok(block)\<close> when the block was built.\<close>

definition push_sealed ::
    "(block, arxia_error) result \<Rightarrow> ('sk, 'vk) account_chain \<Rightarrow> vector_clock \<Rightarrow> ('sk, 'vk) ac_outcome" where
  "push_sealed r self vclock =
     (case r of
        Ok b \<Rightarrow> (Ok b, self\<lparr>ac_chain := ac_chain self @ [b]\<rparr>, vclock)
      | Err e \<Rightarrow> (Err e, self, vclock)
      | Panic \<Rightarrow> (Panic, self, vclock))"

definition ac_open ::
    "('sk, 'vk, 'z) arxia_env_scheme \<Rightarrow> u64 \<Rightarrow> u64 \<Rightarrow> ('sk, 'vk) account_chain \<Rightarrow> vector_clock
      \<Rightarrow> ('sk, 'vk) ac_outcome" where
  "ac_open E initial_balance now self vclock =
     (if ac_chain self \<noteq> [] then (Err AccountAlreadyOpen, self, vclock)
      else if initial_balance > MAX_INITIAL_BALANCE_PER_ACCOUNT
      then (Err (SupplyCapExceeded initial_balance MAX_INITIAL_BALANCE_PER_ACCOUNT), self, vclock)
      else case and_then (validate_pubkey_strict E (vk_to_bytes E (ac_verifying_key self)))
                  (\<lambda>_. first8 (ac_public_key_hex self)) of
          Err e \<Rightarrow> (Err e, self, vclock)
        | Panic \<Rightarrow> (Panic, self, vclock)
        | Ok sid \<Rightarrow>
            let self' = self\<lparr>ac_balance := initial_balance, ac_nonce := 1\<rparr>
            in push_sealed (seal_block E self' [] (Open initial_balance) now) self' (vc_tick sid vclock))"

definition ac_send ::
    "('sk, 'vk, 'z) arxia_env_scheme \<Rightarrow> string \<Rightarrow> u64 \<Rightarrow> u64 \<Rightarrow> ('sk, 'vk) account_chain
      \<Rightarrow> vector_clock \<Rightarrow> ('sk, 'vk) ac_outcome" where
  "ac_send E destination amount now self vclock =
     (if amount = 0 then (Err ZeroAmount, self, vclock)
      else if destination = ac_public_key_hex self then (Err SelfSendNotAllowed, self, vclock)
      else if ac_balance self < amount
      then (Err (InsufficientBalance (ac_balance self) amount), self, vclock)
      else case first8 (ac_public_key_hex self) of
          Err e \<Rightarrow> (Err e, self, vclock)
        | Panic \<Rightarrow> (Panic, self, vclock)
        | Ok sid \<Rightarrow>
            let vclock' = vc_tick sid vclock;
                self' = self\<lparr>ac_balance := ac_balance self - amount\<rparr>
            in case checked_add (ac_nonce self) 1 of
                 None \<Rightarrow> (Panic, self', vclock')
               | Some nonce \<Rightarrow>
                   let self'' = self'\<lparr>ac_nonce := nonce\<rparr>
                   in push_sealed (seal_block E self'' (last_hash (ac_chain self)) (Send destination amount) now)
                        self'' vclock')"

definition ac_receive ::
    "('sk, 'vk, 'z) arxia_env_scheme \<Rightarrow> block \<Rightarrow> u64 \<Rightarrow> ('sk, 'vk) account_chain \<Rightarrow> vector_clock
      \<Rightarrow> ('sk, 'vk) ac_outcome" where
  "ac_receive E send_block now self vclock =
     (case b_type send_block of
        Send destination amount \<Rightarrow>
          if destination \<noteq> ac_public_key_hex self then (Err WrongDestination, self, vclock)
          else if b_hash send_block \<in> ac_consumed_sources self
          then (Err (DuplicateReceive (b_hash send_block)), self, vclock)
          else (case checked_add (ac_balance self) amount of
             None \<Rightarrow> (Err (BalanceOverflow (ac_balance self) amount), self, vclock)
           | Some new_balance \<Rightarrow>
               if new_balance > MAX_INITIAL_BALANCE_PER_ACCOUNT
               then (Err (SupplyCapExceeded new_balance MAX_INITIAL_BALANCE_PER_ACCOUNT), self, vclock)
               else case first8 (ac_public_key_hex self) of
                   Err e \<Rightarrow> (Err e, self, vclock)
                 | Panic \<Rightarrow> (Panic, self, vclock)
                 | Ok sid \<Rightarrow>
                     let vclock' = vc_tick sid vclock;
                         self' = self\<lparr>ac_balance := new_balance\<rparr>
                     in case checked_add (ac_nonce self) 1 of
                          None \<Rightarrow> (Panic, self', vclock')
                        | Some nonce \<Rightarrow>
                            let self'' = self'\<lparr>ac_nonce := nonce\<rparr>
                            in (case push_sealed (seal_block E self'' (last_hash (ac_chain self))
                                       (Receive (b_hash send_block)) now) self'' vclock' of
                                  (Ok b, self3, vclock3) \<Rightarrow>
                                    (Ok b, self3\<lparr>ac_consumed_sources :=
                                       insert (b_hash send_block) (ac_consumed_sources self3)\<rparr>, vclock3)
                                | other \<Rightarrow> other))
      | _ \<Rightarrow> (Err NotSendBlock, self, vclock))"

section \<open>Well-formed accounts\<close>

text \<open>The keypair invariant: the three key fields belong together.\<close>

definition keys_ok :: "('sk, 'vk, 'z) crypto_scheme \<Rightarrow> ('sk, 'vk) account_chain \<Rightarrow> bool" where
  "keys_ok E self \<longleftrightarrow>
     ac_verifying_key self = sk_verifying_key E (ac_signing_key self) \<and>
     ac_public_key_hex self = hex_encode E (pubkey_of E (ac_signing_key self))"

definition received_sources :: "block list \<Rightarrow> string list" where
  "received_sources bs = concat (map (\<lambda>b. case b_type b of Receive s \<Rightarrow> [s] | _ \<Rightarrow> []) bs)"

definition ac_ok :: "('sk, 'vk, 'z) arxia_env_scheme \<Rightarrow> ('sk, 'vk) account_chain \<Rightarrow> bool" where
  "ac_ok E self \<longleftrightarrow>
     keys_ok E self \<and> chain_valid E (ac_chain self) \<and>
     (\<forall>b \<in> set (ac_chain self). b_account b = ac_public_key_hex self) \<and>
     (ac_chain self = [] \<longrightarrow> ac_balance self = 0 \<and> ac_nonce self = 0) \<and>
     (ac_chain self \<noteq> [] \<longrightarrow> b_balance (last (ac_chain self)) = ac_balance self \<and>
        b_nonce (last (ac_chain self)) = ac_nonce self) \<and>
     ac_balance self \<le> MAX_INITIAL_BALANCE_PER_ACCOUNT \<and>
     distinct (received_sources (ac_chain self)) \<and>
     ac_consumed_sources self = set (received_sources (ac_chain self))"

lemma ac_new_ok: "ac_ok E (ac_new E k)"
  by (simp add: ac_ok_def ac_new_def Let_def keys_ok_def pubkey_of_def chain_valid_def received_sources_def)

lemma keys_first8:
  assumes "env_laws E" "keys_ok E self"
  shows "first8 (ac_public_key_hex self) = (Ok (take 8 (ac_public_key_hex self)) :: (string, arxia_error) result)"
proof -
  note hex = hex_lawsD[OF env_lawsD(1)[OF assms(1)]]
  have "length (pubkey_of E (ac_signing_key self)) = 32"
    using env_lawsD(3)[OF assms(1)] by simp
  then show ?thesis
    using assms(2) hex(2,3) by (intro first8_hex) (simp_all add: keys_ok_def)
qed

text \<open>Building a block always succeeds, and the block verifies.\<close>

lemma seal_block_Ok:
  assumes E: "env_laws E" and keys: "keys_ok E self"
  shows "\<exists>b. seal_block E self prev bt now = Ok b \<and> verify_block E b = Ok () \<and>
    b_account b = ac_public_key_hex self \<and> b_previous b = prev \<and> b_type b = bt \<and>
    b_balance b = ac_balance self \<and> b_nonce b = ac_nonce self \<and> b_timestamp b = now"
proof -
  let ?pk = "pubkey_of E (ac_signing_key self)"
  note hex = hex_lawsD[OF env_lawsD(1)[OF E]] and ed = env_lawsD(3)[OF E]
  have acct: "account_pubkey E (ac_public_key_hex self) = Ok ?pk"
    using keys ed hex(1) by (simp add: keys_ok_def account_pubkey_Ok)
  have valid: "validate_pubkey_strict E ?pk = Ok ()" by (rule validate_pubkey_of[OF ed])
  obtain j where j: "block_type_json E bt = Ok j"
    using env_lawsD(4)[OF E] unfolding json_laws_def by blast
  let ?d = "blake3 E (str_bytes (block_content (ac_public_key_hex self) prev j (ac_balance self)
    (ac_nonce self) now))"
  have hash: "compute_hash E (ac_public_key_hex self) prev bt (ac_balance self) (ac_nonce self) now
      = Ok (hex_encode E ?d)"
    using acct valid j env_lawsD(2)[OF E] by (simp add: compute_hash_Ok blake3_laws_def)
  let ?b = "\<lparr>b_account = ac_public_key_hex self, b_previous = prev, b_type = bt,
    b_balance = ac_balance self, b_nonce = ac_nonce self, b_timestamp = now,
    b_hash = hex_encode E ?d, b_signature = sk_sign E (ac_signing_key self) ?d\<rparr>"
  have "seal_block E self prev bt now = Ok ?b"
    by (simp add: seal_block_def hash hex(1))
  moreover have "verify_block E ?b = Ok ()"
    using acct valid hash hex(1) ed verify_signed[OF ed, of "ac_signing_key self" ?d]
    by (simp add: verify_block_Ok_iff block_hash_of_def ed25519_lawsD crypto_sign_def)
  ultimately show ?thesis by auto
qed

lemma received_sources_snoc [simp]:
  "received_sources (bs @ [b]) = received_sources bs @ (case b_type b of Receive s \<Rightarrow> [s] | _ \<Rightarrow> [])"
  by (simp add: received_sources_def)

section \<open>What each operation does\<close>

text \<open>\<open>open\<close> on a fresh account: it succeeds exactly below the cap, with a genesis block.\<close>

lemma ac_open_result:
  assumes E: "env_laws E" and ok: "ac_ok E self" and r: "ac_open E x now self vc = (r, self', vc')"
  shows "r \<noteq> Panic \<and> ac_ok E self' \<and>
    (is_ok r \<longleftrightarrow> ac_chain self = [] \<and> x \<le> MAX_INITIAL_BALANCE_PER_ACCOUNT) \<and>
    (case r of
       Ok b \<Rightarrow> ac_chain self = [] \<and> x \<le> MAX_INITIAL_BALANCE_PER_ACCOUNT \<and> ac_chain self' = [b] \<and>
         genesis_ok b \<and> b_type b = Open x \<and> ac_balance self' = x
     | _ \<Rightarrow> self' = self \<and> vc' = vc)"
proof -
  have keys: "keys_ok E self" using ok by (simp add: ac_ok_def)
  have valid: "validate_pubkey_strict E (vk_to_bytes E (ac_verifying_key self)) = Ok ()"
    using keys validate_pubkey_of[OF env_lawsD(3)[OF E]] by (simp add: keys_ok_def pubkey_of_def)
  show ?thesis
  proof (cases "ac_chain self \<noteq> [] \<or> x > MAX_INITIAL_BALANCE_PER_ACCOUNT")
    case True
    then show ?thesis using r ok by (auto simp: ac_open_def split: if_splits)
  next
    case False
    let ?s = "self\<lparr>ac_balance := x, ac_nonce := 1\<rparr>"
    have "keys_ok E ?s" using keys by (simp add: keys_ok_def)
    then obtain b where b: "seal_block E ?s [] (Open x) now = Ok b" "verify_block E b = Ok ()"
      "b_account b = ac_public_key_hex self" "b_previous b = []" "b_type b = Open x"
      "b_balance b = x" "b_nonce b = 1"
      using seal_block_Ok[OF E, of ?s "[]" "Open x" now] by auto
    have "genesis_ok b" using b by (simp add: genesis_ok_def is_open_def)
    moreover have "r = Ok b" "self' = ?s\<lparr>ac_chain := [b]\<rparr>"
      using r False b(1) valid keys_first8[OF E keys]
      by (simp_all add: ac_open_def push_sealed_def)
    moreover have "ac_consumed_sources self = {}"
      using ok False by (simp add: ac_ok_def received_sources_def)
    ultimately show ?thesis
      using False b keys by (simp add: ac_ok_def keys_ok_def chain_valid_def received_sources_def not_less)
  qed
qed

text \<open>
  A block appended to an opened account: \<open>send\<close> and \<open>receive\<close> both end here. \<open>bal\<close> is the new
  balance, \<open>bt\<close> the block type.
\<close>

lemma append_sealed:
  assumes E: "env_laws E" and ok: "ac_ok E self" and opened: "ac_chain self \<noteq> []"
    and nonce: "checked_add (ac_nonce self) 1 = Some n"
    and self2: "self2 = self\<lparr>ac_balance := bal, ac_nonce := n\<rparr>"
    and bal: "bal \<le> MAX_INITIAL_BALANCE_PER_ACCOUNT"
  obtains b where "seal_block E self2 (last_hash (ac_chain self)) bt now = Ok b"
    "verify_block E b = Ok ()" "b_type b = bt" "b_account b = ac_public_key_hex self" "b_balance b = bal"
    "linked (last (ac_chain self)) b" "chain_valid E (ac_chain self @ [b])" "b_nonce b = n"
proof -
  have "keys_ok E self2" using ok self2 by (simp add: ac_ok_def keys_ok_def)
  then obtain b where b: "seal_block E self2 (last_hash (ac_chain self)) bt now = Ok b"
    "verify_block E b = Ok ()" "b_account b = ac_public_key_hex self"
    "b_previous b = last_hash (ac_chain self)" "b_type b = bt" "b_balance b = bal" "b_nonce b = n"
    using seal_block_Ok[OF E, of self2 "last_hash (ac_chain self)" bt now] self2 by auto
  have "linked (last (ac_chain self)) b"
    using b ok opened nonce by (simp add: linked_def last_hash_def ac_ok_def checked_add_Some)
  moreover from this have "chain_valid E (ac_chain self @ [b])"
    using b ok opened by (simp add: chain_valid_snoc ac_ok_def)
  ultimately show thesis using b that by blast
qed

lemma checked_add_one:
  assumes "x \<noteq> - 1"
  obtains n :: u64 where "checked_add x 1 = Some n"
proof (cases "checked_add x 1")
  case None
  then have "unat x = 2 ^ 64 - 1"
    using unat_u64_less[of x] by (simp add: checked_add_None)
  then have "unat x = unat (- 1 :: u64)" by (simp add: unat_max_word)
  with assms show ?thesis by (simp only: word_unat_eq_iff)
qed (use that in blast)

lemma ac_send_result:
  assumes E: "env_laws E" and ok: "ac_ok E self" and r: "ac_send E dest amount now self vc = (r, self', vc')"
    and no_overflow: "ac_nonce self \<noteq> - 1"
  shows "r \<noteq> Panic \<and> ac_ok E self' \<and>
    (is_ok r \<longleftrightarrow> amount \<noteq> 0 \<and> dest \<noteq> ac_public_key_hex self \<and> amount \<le> ac_balance self) \<and>
    (case r of
       Ok b \<Rightarrow> amount \<noteq> 0 \<and> dest \<noteq> ac_public_key_hex self \<and> amount \<le> ac_balance self \<and>
         b_type b = Send dest amount \<and> ac_chain self' = ac_chain self @ [b] \<and>
         unat (ac_balance self') + unat amount = unat (ac_balance self) \<and>
         ac_consumed_sources self' = ac_consumed_sources self
     | _ \<Rightarrow> self' = self \<and> vc' = vc)"
proof (cases "amount = 0 \<or> dest = ac_public_key_hex self \<or> ac_balance self < amount")
  case True
  then show ?thesis using r ok by (auto simp: ac_send_def split: if_splits)
next
  case False
  then have le: "amount \<le> ac_balance self" by (simp add: linorder_not_less)
  have opened: "ac_chain self \<noteq> []" using False ok by (auto simp: ac_ok_def word_gt_0)
  have keys: "keys_ok E self" using ok by (simp add: ac_ok_def)
  have bal: "ac_balance self - amount \<le> MAX_INITIAL_BALANCE_PER_ACCOUNT"
  proof -
    have "ac_balance self \<le> MAX_INITIAL_BALANCE_PER_ACCOUNT" using ok by (simp add: ac_ok_def)
    then show ?thesis using le by (simp add: word_le_nat_alt unat_sub)
  qed
  obtain n where n: "checked_add (ac_nonce self) 1 = Some n"
    using no_overflow by (rule checked_add_one)
  let ?s = "self\<lparr>ac_balance := ac_balance self - amount, ac_nonce := n\<rparr>"
  obtain b where b: "seal_block E ?s (last_hash (ac_chain self)) (Send dest amount) now = Ok b"
    "verify_block E b = Ok ()" "b_type b = Send dest amount" "b_account b = ac_public_key_hex self"
    "b_balance b = ac_balance self - amount" "linked (last (ac_chain self)) b"
    "chain_valid E (ac_chain self @ [b])" "b_nonce b = n"
    using append_sealed[OF E ok opened n refl bal] by blast
  have "r = Ok b" "self' = ?s\<lparr>ac_chain := ac_chain self @ [b]\<rparr>"
    using r False b(1) n keys_first8[OF E keys] by (simp_all add: ac_send_def Let_def push_sealed_def)
  then show ?thesis
    using False ok b le bal by (auto simp: ac_ok_def keys_ok_def unat_sub word_le_nat_alt)
qed

text \<open>
  A receive on an opened account: it succeeds exactly when the block is a send to this account, not
  consumed before, that stays within the cap; it credits the amount once and remembers the source.
\<close>

lemma cap_add:
  "(\<exists>new. checked_add a b = Some new \<and> new \<le> MAX_INITIAL_BALANCE_PER_ACCOUNT) \<longleftrightarrow>
    unat a + unat b \<le> unat MAX_INITIAL_BALANCE_PER_ACCOUNT"
proof
  assume "unat a + unat b \<le> unat MAX_INITIAL_BALANCE_PER_ACCOUNT"
  then have "unat a + unat b < 2 ^ LENGTH(64)" by (simp add: unat_MAX_INITIAL_BALANCE)
  then have "checked_add a b = Some (a + b) \<and> unat (a + b) = unat a + unat b"
    by (simp add: checked_add_def unat_word_ariths)
  then show "\<exists>new. checked_add a b = Some new \<and> new \<le> MAX_INITIAL_BALANCE_PER_ACCOUNT"
    using \<open>unat a + unat b \<le> _\<close> by (simp add: word_le_nat_alt)
qed (auto simp: checked_add_Some word_le_nat_alt)

lemma ac_receive_result:
  assumes E: "env_laws E" and ok: "ac_ok E self"
    and r: "ac_receive E sb now self vc = (r, self', vc')"
    and no_overflow: "ac_nonce self \<noteq> - 1" and opened: "ac_chain self \<noteq> []"
  shows "r \<noteq> Panic \<and> ac_ok E self' \<and>
    (is_ok r \<longleftrightarrow> (\<exists>amount. b_type sb = Send (ac_public_key_hex self) amount \<and>
       b_hash sb \<notin> ac_consumed_sources self \<and>
       unat (ac_balance self) + unat amount \<le> unat MAX_INITIAL_BALANCE_PER_ACCOUNT)) \<and>
    (case r of
       Ok b \<Rightarrow> \<exists>amount. b_type sb = Send (ac_public_key_hex self) amount \<and>
         b_hash sb \<notin> ac_consumed_sources self \<and>
         b_type b = Receive (b_hash sb) \<and> ac_chain self' = ac_chain self @ [b] \<and>
         unat (ac_balance self') = unat (ac_balance self) + unat amount \<and>
         ac_consumed_sources self' = insert (b_hash sb) (ac_consumed_sources self)
     | _ \<Rightarrow> self' = self \<and> vc' = vc)"
proof (cases "\<exists>amount new. b_type sb = Send (ac_public_key_hex self) amount \<and>
    b_hash sb \<notin> ac_consumed_sources self \<and> checked_add (ac_balance self) amount = Some new \<and>
    new \<le> MAX_INITIAL_BALANCE_PER_ACCOUNT")
  case False
  have "\<exists>e. r = Err e" "self' = self" "vc' = vc"
    using False r by (auto simp: ac_receive_def not_less split: block_type.splits if_splits option.splits)
  moreover have "\<not> (\<exists>amount. b_type sb = Send (ac_public_key_hex self) amount \<and>
      b_hash sb \<notin> ac_consumed_sources self \<and>
      unat (ac_balance self) + unat amount \<le> unat MAX_INITIAL_BALANCE_PER_ACCOUNT)"
    using False cap_add by blast
  ultimately show ?thesis using ok by auto
next
  case True
  then obtain amount new where sb: "b_type sb = Send (ac_public_key_hex self) amount"
    "b_hash sb \<notin> ac_consumed_sources self" and new: "checked_add (ac_balance self) amount = Some new"
    and bal: "new \<le> MAX_INITIAL_BALANCE_PER_ACCOUNT" by blast
  have keys: "keys_ok E self" using ok by (simp add: ac_ok_def)
  obtain n where n: "checked_add (ac_nonce self) 1 = Some n"
    using no_overflow by (rule checked_add_one)
  let ?s = "self\<lparr>ac_balance := new, ac_nonce := n\<rparr>"
  obtain b where b: "seal_block E ?s (last_hash (ac_chain self)) (Receive (b_hash sb)) now = Ok b"
    "verify_block E b = Ok ()" "b_type b = Receive (b_hash sb)" "b_account b = ac_public_key_hex self"
    "b_balance b = new" "linked (last (ac_chain self)) b"
    "chain_valid E (ac_chain self @ [b])" "b_nonce b = n"
    using append_sealed[OF E ok opened n refl bal] by blast
  have "r = Ok b" "self' = ?s\<lparr>ac_chain := ac_chain self @ [b],
      ac_consumed_sources := insert (b_hash sb) (ac_consumed_sources self)\<rparr>"
    using r sb new bal b(1) n keys_first8[OF E keys]
    by (simp_all add: ac_receive_def Let_def push_sealed_def linorder_not_less[symmetric])
  moreover have "unat (ac_balance self) + unat amount \<le> unat MAX_INITIAL_BALANCE_PER_ACCOUNT"
    using new bal cap_add by blast
  ultimately show ?thesis
    using sb ok b new bal by (auto simp: ac_ok_def keys_ok_def checked_add_Some)
qed

text \<open>The keys never change, and a block carries the time of the call.\<close>

lemma ac_calls_key:
  "ac_open E x now self vc = (r, self', vc') \<Longrightarrow> ac_public_key_hex self' = ac_public_key_hex self"
  "ac_send E dest x now self vc = (r, self', vc') \<Longrightarrow> ac_public_key_hex self' = ac_public_key_hex self"
  "ac_receive E sb now self vc = (r, self', vc') \<Longrightarrow> ac_public_key_hex self' = ac_public_key_hex self"
  by (auto simp: ac_open_def ac_send_def ac_receive_def push_sealed_def Let_def
      split: if_splits result.splits option.splits block_type.splits)

lemma ac_calls_time:
  "ac_open E x now self vc = (Ok b, self', vc') \<Longrightarrow> b_timestamp b = now"
  "ac_send E dest x now self vc = (Ok b, self', vc') \<Longrightarrow> b_timestamp b = now"
  "ac_receive E sb now self vc = (Ok b, self', vc') \<Longrightarrow> b_timestamp b = now"
  by (auto simp: ac_open_def ac_send_def ac_receive_def push_sealed_def seal_block_def Let_def outcome_simps
      split: if_splits result.splits option.splits block_type.splits)

section \<open>A payment between two accounts\<close>

text \<open>A fresh account opens below the cap, and a first payment between two opened accounts succeeds on both
  sides; both keep the account invariant.\<close>

lemma opened_fresh:
  assumes E: "env_laws E" and x: "x \<le> MAX_INITIAL_BALANCE_PER_ACCOUNT"
  obtains b a vc' where "ac_open E x now (ac_new E k) vc = (Ok b, a, vc')" "ac_ok E a" "ac_chain a = [b]"
    "ac_balance a = x" "b_type b = Open x" "ac_nonce a = 1" "ac_consumed_sources a = {}"
    "ac_public_key_hex a = ac_public_key_hex (ac_new E k)"
proof -
  obtain r a vc' where r: "ac_open E x now (ac_new E k) vc = (r, a, vc')" by (metis prod_cases3)
  have fresh: "ac_chain (ac_new E k) = []" by (simp add: ac_new_def Let_def)
  note res = ac_open_result[OF E ac_new_ok r]
  have "is_ok r" using res fresh x by simp
  then obtain b where b: "r = Ok b" by (auto simp: outcome_simps)
  then have a: "ac_ok E a" "ac_chain a = [b]" "ac_balance a = x" "b_type b = Open x" "genesis_ok b" using res by auto
  moreover from this have "ac_nonce a = 1" "ac_consumed_sources a = {}"
    by (simp_all add: ac_ok_def genesis_ok_def received_sources_def)
  ultimately show thesis using b r ac_calls_key(1)[OF r] that by auto
qed

lemma first_payment:
  assumes E: "env_laws E" and a: "ac_ok E a" "ac_nonce a \<noteq> - 1"
    and b: "ac_ok E b" "ac_nonce b \<noteq> - 1" "ac_chain b \<noteq> []" "ac_consumed_sources b = {}"
    and ids: "ac_public_key_hex b \<noteq> ac_public_key_hex a" and y: "y \<noteq> 0" "y \<le> ac_balance a"
    and room: "unat (ac_balance b) + unat y \<le> unat MAX_INITIAL_BALANCE_PER_ACCOUNT"
  obtains s a' vc1 v b' vc2 where
    "ac_send E (ac_public_key_hex b) y t a vc = (Ok s, a', vc1)" "ac_receive E s t' b vc1 = (Ok v, b', vc2)"
    "ac_ok E a'" "ac_ok E b'" "b_type s = Send (ac_public_key_hex b) y" "b_type v = Receive (b_hash s)"
    "ac_chain a' = ac_chain a @ [s]" "ac_chain b' = ac_chain b @ [v]"
    "unat (ac_balance a') + unat y = unat (ac_balance a)" "unat (ac_balance b') = unat (ac_balance b) + unat y"
    "ac_public_key_hex b' = ac_public_key_hex b"
proof -
  obtain r a' vc1 where r: "ac_send E (ac_public_key_hex b) y t a vc = (r, a', vc1)" by (metis prod_cases3)
  note sent = ac_send_result[OF E a(1) r a(2)]
  have "is_ok r" using sent ids y by simp
  then obtain s where s: "r = Ok s" by (auto simp: outcome_simps)
  have type: "b_type s = Send (ac_public_key_hex b) y" using sent s by simp
  obtain q b' vc2 where q: "ac_receive E s t' b vc1 = (q, b', vc2)" by (metis prod_cases3)
  note received = ac_receive_result[OF E b(1) q b(2,3)]
  have "is_ok q" using received type room b(4) by simp
  then obtain v where v: "q = Ok v" by (auto simp: outcome_simps)
  show thesis
    by (rule that[OF r[unfolded s] q[unfolded v]])
      (use sent received s v type ac_calls_key(3)[OF q] in auto)
qed

section \<open>An account over its whole life\<close>

datatype ac_op = OpOpen u64 u64 | OpSend string u64 u64 | OpReceive block u64

fun ac_step :: "('sk, 'vk, 'z) arxia_env_scheme \<Rightarrow> ac_op
    \<Rightarrow> ('sk, 'vk) account_chain \<times> vector_clock \<Rightarrow> ('sk, 'vk) account_chain \<times> vector_clock" where
  "ac_step E (OpOpen x now) (self, vc) = snd (ac_open E x now self vc)"
| "ac_step E (OpSend dest amount now) (self, vc) = snd (ac_send E dest amount now self vc)"
| "ac_step E (OpReceive sb now) (self, vc) = snd (ac_receive E sb now self vc)"

text \<open>
  Once opened, an account stays opened and well formed under any sequence of operations with any
  arguments. The nonce counts the blocks, so it cannot overflow before \<open>2 ^ 64\<close> of them; the step
  below leaves the account alone there, where the checked build panics.
\<close>

definition ac_opened :: "('sk, 'vk, 'z) arxia_env_scheme \<Rightarrow> ('sk, 'vk) account_chain \<times> vector_clock \<Rightarrow> bool" where
  "ac_opened E s \<longleftrightarrow> env_laws E \<longrightarrow> ac_ok E (fst s) \<and> ac_chain (fst s) \<noteq> []"

definition ac_guarded_step ::
    "('sk, 'vk, 'z) arxia_env_scheme \<Rightarrow> ac_op \<Rightarrow> ('sk, 'vk) account_chain \<times> vector_clock
      \<Rightarrow> ('sk, 'vk) account_chain \<times> vector_clock" where
  "ac_guarded_step E x s = (if ac_nonce (fst s) = - 1 then s else ac_step E x s)"

lemma ac_opened_step: "ac_opened E s \<Longrightarrow> ac_opened E (ac_guarded_step E x s)"
proof -
  assume opened: "ac_opened E s"
  obtain self vc where s: "s = (self, vc)" by (cases s)
  have "ac_ok E (fst (ac_step E x s)) \<and> ac_chain (fst (ac_step E x s)) \<noteq> []"
    if E: "env_laws E" and n: "ac_nonce self \<noteq> - 1"
  proof -
    have ok: "ac_ok E self" "ac_chain self \<noteq> []" using opened E by (simp_all add: s ac_opened_def)
    show ?thesis
    proof (cases x)
      case (OpOpen y now)
      obtain r self' vc' where r: "ac_open E y now self vc = (r, self', vc')" by (metis prod_cases3)
      then show ?thesis using ac_open_result[OF E ok(1) r] ok OpOpen s by (cases r) auto
    next
      case (OpSend d a now)
      obtain r self' vc' where r: "ac_send E d a now self vc = (r, self', vc')" by (metis prod_cases3)
      then show ?thesis using ac_send_result[OF E ok(1) r n] ok OpSend s by (cases r) auto
    next
      case (OpReceive sb now)
      obtain r self' vc' where r: "ac_receive E sb now self vc = (r, self', vc')" by (metis prod_cases3)
      then show ?thesis using ac_receive_result[OF E ok(1) r n ok(2)] ok OpReceive s by (cases r) auto
    qed
  qed
  then show ?thesis using opened s by (auto simp: ac_opened_def ac_guarded_step_def)
qed

interpretation account: state_inv "ac_opened E" "ac_guarded_step E" for E
  by unfold_locales (rule ac_opened_step)

text \<open>On an account that was never opened a receive succeeds, and the account is stuck from then on.\<close>

lemma ac_receive_unopened:
  assumes E: "env_laws E" and sb: "b_type sb = Send (ac_public_key_hex self) amount"
    and self: "self = ac_new E k" and cap: "amount \<le> MAX_INITIAL_BALANCE_PER_ACCOUNT"
  shows "\<exists>b self' vc'. ac_receive E sb now self vc = (Ok b, self', vc') \<and>
    ac_chain self' = [b] \<and> \<not> is_open b \<and>
    ac_open E x t self' vc' = (Err AccountAlreadyOpen, self', vc')"
proof -
  have keys: "keys_ok E self" and new: "ac_nonce self = 0" "ac_balance self = 0"
    "ac_consumed_sources self = {}" "ac_chain self = []"
    using ac_new_ok[of E k] by (simp_all add: self ac_ok_def ac_new_def Let_def)
  have n: "checked_add (0 :: u64) 1 = Some 1" by (simp add: checked_add_def)
  have a: "checked_add (0 :: u64) amount = Some amount"
    using unat_u64_less[of amount] by (simp add: checked_add_Some)
  have "keys_ok E (self\<lparr>ac_balance := amount, ac_nonce := 1\<rparr>)" using keys by (simp add: keys_ok_def)
  then obtain b where b: "seal_block E (self\<lparr>ac_balance := amount, ac_nonce := 1\<rparr>)
      (last_hash (ac_chain self)) (Receive (b_hash sb)) now = Ok b" "b_type b = Receive (b_hash sb)"
    using seal_block_Ok[OF E] by metis
  then show ?thesis
    using sb cap keys_first8[OF E keys] n a
    by (simp add: ac_receive_def new ac_open_def Let_def push_sealed_def is_open_def
        linorder_not_less[symmetric])
qed

end
