(* ===== verification/Ledger.thy ===== *)
theory Ledger
  imports Chain
begin

text \<open>
  Crate \<open>arxia-lattice\<close>, file \<open>ledger.rs\<close>: the index of all account chains. \<open>add_block\<close> returns
  the result and the ledger it leaves; a rejection after the \<open>entry(..).or_default()\<close> leaves an
  empty chain behind. The history of a ledger is the multiset of the blocks in its chains; the
  invariant says what the running total and the two indices have to do with that history.
\<close>

section \<open>The ledger\<close>

record send_info =
  si_destination :: string
  si_amount :: u64

record ledger =
  lg_chains :: "(string, block list) hmap"
  lg_send_index :: "(string, send_info) hmap"
  lg_consumed_sends :: "string set"
  lg_total_supply :: u64

definition ledger_new :: ledger where
  "ledger_new = \<lparr>lg_chains = [], lg_send_index = [], lg_consumed_sends = {}, lg_total_supply = 0\<rparr>"

definition get_chain :: "ledger \<Rightarrow> string \<Rightarrow> block list option" where
  "get_chain self account = map_of (lg_chains self) account"

definition lg_supply :: "ledger \<Rightarrow> u64" where
  "lg_supply self = lg_total_supply self"

text \<open>The supply check in front of an Open.\<close>

definition check_supply :: "ledger \<Rightarrow> block \<Rightarrow> (unit, arxia_error) result" where
  "check_supply self b =
     (case b_type b of
        Open initial_balance \<Rightarrow>
          and_then (ok_or (checked_add (lg_total_supply self) initial_balance)
            (SupplyCapExceeded (- 1) TOTAL_SUPPLY_MICRO_ARX)) (\<lambda>projected.
          fail_if (projected > TOTAL_SUPPLY_MICRO_ARX) (SupplyCapExceeded projected TOTAL_SUPPLY_MICRO_ARX))
      | _ \<Rightarrow> Ok ())"

text \<open>The referential check in front of a Receive.\<close>

definition check_source :: "ledger \<Rightarrow> block \<Rightarrow> (unit, arxia_error) result" where
  "check_source self b =
     (case b_type b of
        Receive source_hash \<Rightarrow>
          and_then (ok_or (map_of (lg_send_index self) source_hash) (UnknownSourceSend source_hash)) (\<lambda>send.
          and_then (fail_if (si_destination send \<noteq> b_account b) WrongDestination) (\<lambda>_.
          fail_if (source_hash \<in> lg_consumed_sends self) (DuplicateReceive source_hash)))
      | _ \<Rightarrow> Ok ())"

text \<open>Chain continuity against the account's chain so far.\<close>

definition check_continuity :: "block list \<Rightarrow> block \<Rightarrow> (unit, arxia_error) result" where
  "check_continuity chain b =
     (if chain \<noteq> [] then
        and_then (plain_add (b_nonce (last chain)) 1) (\<lambda>expected_nonce.
        and_then (fail_if (b_nonce b \<noteq> expected_nonce) (NonceGap (length chain) expected_nonce (b_nonce b))) (\<lambda>_.
        fail_if (b_previous b \<noteq> b_hash (last chain)) (HashChainBroken (length chain))))
      else
        and_then (fail_if (b_nonce b \<noteq> 1) (NonceGap 0 1 (b_nonce b))) (\<lambda>_.
        and_then (fail_if (\<not> is_open b) (InvalidGenesis ''first block must be OPEN'')) (\<lambda>_.
        fail_if (b_previous b \<noteq> []) (InvalidGenesis ''genesis must have empty previous''))))"

text \<open>The indices, once every check has passed; \<open>expect\<close> panics on an overflow.\<close>

definition update_indices :: "ledger \<Rightarrow> block \<Rightarrow> (ledger, arxia_error) result" where
  "update_indices self b =
     (case b_type b of
        Send destination amount \<Rightarrow>
          Ok (self\<lparr>lg_send_index := hm_insert (b_hash b)
            \<lparr>si_destination = destination, si_amount = amount\<rparr> (lg_send_index self)\<rparr>)
      | Receive source_hash \<Rightarrow>
          Ok (self\<lparr>lg_consumed_sends := insert source_hash (lg_consumed_sends self)\<rparr>)
      | Open initial_balance \<Rightarrow>
          (case checked_add (lg_total_supply self) initial_balance of
             None \<Rightarrow> Panic
           | Some supply \<Rightarrow> Ok (self\<lparr>lg_total_supply := supply\<rparr>))
      | Revoke _ \<Rightarrow> Ok self)"

definition add_block ::
    "('sk, 'vk, 'z) arxia_env_scheme \<Rightarrow> block \<Rightarrow> ledger \<Rightarrow> (unit, arxia_error) result \<times> ledger" where
  "add_block E b self =
     (case and_then (verify_block E b) (\<lambda>_. and_then (check_supply self b) (\<lambda>_. check_source self b)) of
        Err e \<Rightarrow> (Err e, self)
      | Panic \<Rightarrow> (Panic, self)
      | Ok _ \<Rightarrow>
          let self' = self\<lparr>lg_chains := hm_entry (b_account b) [] id (lg_chains self)\<rparr>;
              chain = (case map_of (lg_chains self') (b_account b) of None \<Rightarrow> [] | Some bs \<Rightarrow> bs)
          in (case and_then (check_continuity chain b) (\<lambda>_. update_indices self' b) of
                Err e \<Rightarrow> (Err e, self')
              | Panic \<Rightarrow> (Panic, self')
              | Ok self'' \<Rightarrow>
                  (Ok (), self''\<lparr>lg_chains := hm_insert (b_account b) (chain @ [b]) (lg_chains self'')\<rparr>)))"

section \<open>What is accepted\<close>

definition chain_of :: "ledger \<Rightarrow> string \<Rightarrow> block list" where
  "chain_of self a = (case get_chain self a of None \<Rightarrow> [] | Some bs \<Rightarrow> bs)"

text \<open>The conditions, in declarative form.\<close>

definition supply_fits :: "ledger \<Rightarrow> block \<Rightarrow> bool" where
  "supply_fits self b \<longleftrightarrow>
     (\<forall>x. b_type b = Open x \<longrightarrow>
        unat (lg_total_supply self) + unat x \<le> unat TOTAL_SUPPLY_MICRO_ARX)"

definition source_fits :: "ledger \<Rightarrow> block \<Rightarrow> bool" where
  "source_fits self b \<longleftrightarrow>
     (\<forall>s. b_type b = Receive s \<longrightarrow>
        (\<exists>send. map_of (lg_send_index self) s = Some send \<and> si_destination send = b_account b) \<and>
        s \<notin> lg_consumed_sends self)"

definition extends_chain :: "block list \<Rightarrow> block \<Rightarrow> bool" where
  "extends_chain bs b \<longleftrightarrow> (if bs = [] then genesis_ok b else linked (last bs) b)"

lemma check_supply_Ok: "check_supply self b = Ok () \<longleftrightarrow> supply_fits self b"
proof -
  have "checked_add (lg_total_supply self) x = Some p \<and> \<not> p > TOTAL_SUPPLY_MICRO_ARX \<longleftrightarrow>
      unat p = unat (lg_total_supply self) + unat x \<and> unat p \<le> unat TOTAL_SUPPLY_MICRO_ARX" for x p
    using unat_u64_less[of p] by (auto simp: checked_add_Some word_less_nat_alt)
  moreover have "\<exists>p :: u64. unat p = unat (lg_total_supply self) + unat x"
    if "unat (lg_total_supply self) + unat x \<le> unat TOTAL_SUPPLY_MICRO_ARX" for x :: u64
    using that by (intro exI[of _ "lg_total_supply self + x"])
      (simp add: unat_TOTAL_SUPPLY unat_word_ariths)
  ultimately show ?thesis
    by (auto simp: check_supply_def supply_fits_def outcome_simps split: block_type.splits) metis
qed

lemma check_source_Ok: "check_source self b = Ok () \<longleftrightarrow> source_fits self b"
  by (auto simp: check_source_def source_fits_def outcome_simps split: block_type.splits)

lemma check_continuity_Ok: "check_continuity bs b = Ok () \<longleftrightarrow> extends_chain bs b"
proof (cases "bs = []")
  case True
  then show ?thesis by (auto simp: check_continuity_def extends_chain_def genesis_ok_def outcome_simps)
next
  case False
  have "check_continuity bs b = Ok () \<longleftrightarrow>
      plain_add (b_nonce (last bs)) 1 = (Ok (b_nonce b) :: (u64, arxia_error) result) \<and>
      b_previous b = b_hash (last bs)"
    using False by (auto simp: check_continuity_def and_then_Ok_iff fail_if_iffs)
  then show ?thesis
    using False by (simp add: extends_chain_def linked_def linked_iff_plain_add)
qed

text \<open>The ledger after an accepted block.\<close>

definition accepted :: "ledger \<Rightarrow> block \<Rightarrow> ledger" where
  "accepted self b =
     self\<lparr>lg_chains := hm_insert (b_account b) (chain_of self (b_account b) @ [b])
            (hm_entry (b_account b) [] id (lg_chains self)),
          lg_send_index := (case b_type b of
             Send d x \<Rightarrow> hm_insert (b_hash b) \<lparr>si_destination = d, si_amount = x\<rparr> (lg_send_index self)
           | _ \<Rightarrow> lg_send_index self),
          lg_consumed_sends := (case b_type b of
             Receive s \<Rightarrow> insert s (lg_consumed_sends self) | _ \<Rightarrow> lg_consumed_sends self),
          lg_total_supply := (case b_type b of
             Open x \<Rightarrow> lg_total_supply self + x | _ \<Rightarrow> lg_total_supply self)\<rparr>"

lemma update_indices_accepted:
  assumes "supply_fits self b"
  shows "update_indices (self\<lparr>lg_chains := c\<rparr>) b =
    Ok (accepted self b\<lparr>lg_chains := c\<rparr>)"
proof -
  have "checked_add (lg_total_supply self) x = Some (lg_total_supply self + x)" if "b_type b = Open x" for x
    using assms that by (simp add: supply_fits_def checked_add_def unat_TOTAL_SUPPLY)
  then show ?thesis
    by (simp add: update_indices_def accepted_def split: block_type.split)
qed

lemma entry_chain:
  "(case map_of (lg_chains (self\<lparr>lg_chains := hm_entry a [] id (lg_chains self)\<rparr>)) a of
      None \<Rightarrow> [] | Some bs \<Rightarrow> bs) = chain_of self a"
  by (simp add: map_of_hm_entry chain_of_def get_chain_def)

lemma add_block_accepts:
  assumes "verify_block E b = Ok ()" "supply_fits self b" "source_fits self b"
    "extends_chain (chain_of self (b_account b)) b"
  shows "add_block E b self = (Ok (), accepted self b)"
proof -
  have checks: "check_supply self b = Ok ()" "check_source self b = Ok ()"
    "check_continuity (chain_of self (b_account b)) b = Ok ()"
    using assms by (simp_all add: check_supply_Ok check_source_Ok check_continuity_Ok)
  show ?thesis
    unfolding add_block_def Let_def entry_chain
    by (simp add: assms(1) checks update_indices_accepted[OF assms(2)]) (simp add: accepted_def)
qed

text \<open>
  Only the first block of a chain is required to be an Open; a later one that links to the last block is
  accepted as well and mints again, within the cap on the supply.
\<close>

lemma reopen_accepted:
  assumes "chain_of self (b_account b) \<noteq> []" "linked (last (chain_of self (b_account b))) b"
    and "verify_block E b = Ok ()" "b_type b = Open x"
    and "unat (lg_total_supply self) + unat x \<le> unat TOTAL_SUPPLY_MICRO_ARX"
  shows "\<exists>self'. add_block E b self = (Ok (), self') \<and> lg_total_supply self' = lg_total_supply self + x"
proof -
  have "add_block E b self = (Ok (), accepted self b)"
    using assms by (intro add_block_accepts) (simp_all add: supply_fits_def source_fits_def extends_chain_def)
  then show ?thesis using assms(4) by (simp add: accepted_def)
qed

text \<open>
  Otherwise the block is refused, and the chains, read through \<open>chain_of\<close>, the indices and the
  total stay what they were; only an empty chain may have been recorded for the account.
\<close>

lemma add_block_rejects:
  assumes "\<not> (verify_block E b = Ok () \<and> supply_fits self b \<and> source_fits self b \<and>
    extends_chain (chain_of self (b_account b)) b)"
    and r: "add_block E b self = (r, self')"
  shows "\<not> is_ok r \<and> (self' = self \<or> self' = self\<lparr>lg_chains := hm_entry (b_account b) [] id (lg_chains self)\<rparr>)"
proof (cases "verify_block E b = Ok () \<and> supply_fits self b \<and> source_fits self b")
  case True
  then have "check_continuity (chain_of self (b_account b)) b \<noteq> Ok ()"
    using assms(1) check_continuity_Ok by blast
  moreover have "check_supply self b = Ok ()" "check_source self b = Ok ()"
    using True check_supply_Ok[of self b] check_source_Ok[of self b] by blast+
  ultimately show ?thesis
    using True r[symmetric] unfolding add_block_def Let_def entry_chain
    by (cases "check_continuity (chain_of self (b_account b)) b") simp_all
next
  case False
  then have "and_then (verify_block E b) (\<lambda>_. and_then (check_supply self b) (\<lambda>_. check_source self b)) \<noteq> Ok ()"
    using check_supply_Ok[of self b] check_source_Ok[of self b] by (auto simp: outcome_simps)
  then show ?thesis
    using r[symmetric] unfolding add_block_def
    by (cases "and_then (verify_block E b) (\<lambda>_. and_then (check_supply self b) (\<lambda>_. check_source self b))")
      simp_all
qed

lemma chain_of_entry [simp]:
  "chain_of (self\<lparr>lg_chains := hm_entry a [] id (lg_chains self)\<rparr>) c = chain_of self c"
  by (auto simp: chain_of_def get_chain_def map_of_hm_entry split: option.splits)

lemma chain_of_accepted:
  "chain_of (accepted self b) c =
     (if c = b_account b then chain_of self c @ [b] else chain_of self c)"
  by (auto simp: chain_of_def get_chain_def accepted_def map_of_hm_entry split: option.splits)

section \<open>The history of a ledger\<close>

definition ledger_blocks :: "ledger \<Rightarrow> block list" where
  "ledger_blocks self = concat (map snd (lg_chains self))"

definition minted :: "block list \<Rightarrow> nat" where
  "minted bs = sum_list (map (\<lambda>b. case b_type b of Open x \<Rightarrow> unat x | _ \<Rightarrow> 0) bs)"

text \<open>
  The invariant: every chain is one \<open>verify_chain_integrity\<close> accepts and holds only blocks of its
  account; the total is what the Opens minted, within the cap; the send index lists accepted Sends;
  every Receive cites an accepted Send to its account, and no Send is received twice.
\<close>

definition ledger_ok :: "('sk, 'vk, 'z) arxia_env_scheme \<Rightarrow> ledger \<Rightarrow> bool" where
  "ledger_ok E self \<longleftrightarrow>
     hm_wf (lg_chains self) \<and>
     (\<forall>a bs. get_chain self a = Some bs \<longrightarrow>
        verify_chain_integrity E bs = Ok () \<and> (\<forall>b \<in> set bs. b_account b = a)) \<and>
     unat (lg_total_supply self) = minted (ledger_blocks self) \<and>
     minted (ledger_blocks self) \<le> unat TOTAL_SUPPLY_MICRO_ARX \<and>
     (\<forall>h send. map_of (lg_send_index self) h = Some send \<longrightarrow>
        (\<exists>b \<in> set (ledger_blocks self). b_hash b = h \<and> b_type b = Send (si_destination send) (si_amount send))) \<and>
     (\<forall>r \<in> set (ledger_blocks self). \<forall>s. b_type r = Receive s \<longrightarrow>
        (\<exists>b \<in> set (ledger_blocks self). \<exists>x. b_hash b = s \<and> b_type b = Send (b_account r) x)) \<and>
     distinct (received_sources (ledger_blocks self)) \<and>
     lg_consumed_sends self = set (received_sources (ledger_blocks self))"

lemma ledger_new_ok: "ledger_ok E ledger_new"
  by (simp add: ledger_ok_def ledger_new_def ledger_blocks_def minted_def received_sources_def get_chain_def)

lemma blocks_insert:
  "hm_wf m \<Longrightarrow> mset (concat (map snd (hm_insert a ((case map_of m a of None \<Rightarrow> [] | Some bs \<Rightarrow> bs) @ [b]) m)))
    = add_mset b (mset (concat (map snd m)))"
proof (induction m)
  case Nil
  then show ?case by (simp add: hm_insert_def)
next
  case (Cons e m)
  then have "hm_wf m" by (simp add: hm_wf_def)
  with Cons show ?case by (cases e) (auto simp: hm_insert_def)
qed

lemma minted_mset: "mset bs = mset cs \<Longrightarrow> minted bs = minted cs"
  by (simp add: minted_def flip: sum_mset_sum_list)

lemma received_sources_mset: "mset bs = mset cs \<Longrightarrow> mset (received_sources bs) = mset (received_sources cs)"
  by (simp add: received_sources_def mset_concat flip: sum_mset_sum_list)

lemma minted_Cons [simp]: "minted (b # bs) = (case b_type b of Open x \<Rightarrow> unat x | _ \<Rightarrow> 0) + minted bs"
  by (simp add: minted_def)

lemma received_sources_Cons [simp]:
  "received_sources (b # bs) = (case b_type b of Receive s \<Rightarrow> [s] | _ \<Rightarrow> []) @ received_sources bs"
  by (simp add: received_sources_def)

lemma hm_insert_twice: "hm_insert k v (hm_insert k w m) = hm_insert k v m"
  by (induction m) (auto simp: hm_insert_def)

lemma accepted_chains:
  "lg_chains (accepted self b) = hm_insert (b_account b) (chain_of self (b_account b) @ [b]) (lg_chains self)"
  by (simp add: accepted_def hm_entry_def hm_insert_twice)

lemma accepted_blocks:
  "hm_wf (lg_chains self) \<Longrightarrow> mset (ledger_blocks (accepted self b)) = mset (b # ledger_blocks self)"
  using blocks_insert[of "lg_chains self" "b_account b" b]
  by (simp add: ledger_blocks_def accepted_chains chain_of_def get_chain_def)

text \<open>An accepted block keeps the invariant: first the chains, then the sources, then the supply.\<close>

lemma accepted_chains_verify:
  assumes ok: "ledger_ok E self" and v: "verify_block E b = Ok ()" and ext: "extends_chain (chain_of self (b_account b)) b"
    and bs: "get_chain (accepted self b) a = Some bs"
  shows "verify_chain_integrity E bs = Ok () \<and> (\<forall>c \<in> set bs. b_account c = a)"
proof (cases "a = b_account b")
  case True
  have "chain_valid E (chain_of self a) \<and> (\<forall>c \<in> set (chain_of self a). b_account c = a)"
    using ok by (cases "get_chain self a")
      (auto simp: ledger_ok_def chain_of_def verify_chain_integrity_Ok_iff chain_valid_def)
  moreover have "bs = chain_of self a @ [b]" using bs True by (simp add: get_chain_def accepted_chains)
  ultimately show ?thesis
    using v ext True by (auto simp: verify_chain_integrity_Ok_iff chain_valid_snoc extends_chain_def)
next
  case False
  then have "get_chain self a = Some bs" using bs by (simp add: get_chain_def accepted_chains)
  then show ?thesis using ok by (simp add: ledger_ok_def)
qed

lemma accepted_cites:
  assumes ok: "ledger_ok E self" and source: "source_fits self b"
    and r: "r \<in> insert b (set (ledger_blocks self))" "b_type r = Receive s"
  shows "\<exists>c \<in> insert b (set (ledger_blocks self)). \<exists>x. b_hash c = s \<and> b_type c = Send (b_account r) x"
proof (cases "r \<in> set (ledger_blocks self)")
  case True
  then show ?thesis using ok r(2) unfolding ledger_ok_def by blast
next
  case False
  then have r: "r = b" "b_type b = Receive s" using r by simp_all
  then obtain send where "map_of (lg_send_index self) s = Some send" "si_destination send = b_account r"
    using source by (auto simp: source_fits_def)
  moreover from this(1) obtain c where "c \<in> set (ledger_blocks self)" "b_hash c = s"
    "b_type c = Send (si_destination send) (si_amount send)"
    using ok unfolding ledger_ok_def by blast
  ultimately show ?thesis by auto
qed

lemma accepted_supply:
  assumes ok: "ledger_ok E self" and cap: "supply_fits self b"
  shows "unat (lg_total_supply (accepted self b)) = minted (b # ledger_blocks self)"
    "minted (b # ledger_blocks self) \<le> unat TOTAL_SUPPLY_MICRO_ARX"
proof -
  have fits: "unat (lg_total_supply self + x) = unat (lg_total_supply self) + unat x"
    if "unat (lg_total_supply self) + unat x \<le> 10 ^ 15" for x
    using that by (simp add: unat_word_ariths)
  show "unat (lg_total_supply (accepted self b)) = minted (b # ledger_blocks self)"
    "minted (b # ledger_blocks self) \<le> unat TOTAL_SUPPLY_MICRO_ARX"
    using ok cap fits by (auto simp: ledger_ok_def accepted_def supply_fits_def unat_TOTAL_SUPPLY
        split: block_type.splits)
qed

lemma accepted_ok:
  assumes ok: "ledger_ok E self" and v: "verify_block E b = Ok ()" and cap: "supply_fits self b"
    and source: "source_fits self b" and ext: "extends_chain (chain_of self (b_account b)) b"
  shows "ledger_ok E (accepted self b)"
proof -
  have wf: "hm_wf (lg_chains self)" using ok by (simp add: ledger_ok_def)
  note blocks = accepted_blocks[OF wf, of b]
  note sets = mset_eq_setD[OF blocks] and recv = received_sources_mset[OF blocks]
  note index_sets = sets minted_mset[OF blocks] mset_eq_setD[OF recv] mset_eq_imp_distinct_iff[OF recv]
  have index: "\<exists>c \<in> insert b (set (ledger_blocks self)).
      b_hash c = h \<and> b_type c = Send (si_destination send) (si_amount send)"
    if "map_of (lg_send_index (accepted self b)) h = Some send" for h send
    using that ok by (auto simp: ledger_ok_def accepted_def split: block_type.splits if_splits)
  have consumed: "lg_consumed_sends (accepted self b) = set (received_sources (b # ledger_blocks self))"
    using ok by (auto simp: ledger_ok_def accepted_def split: block_type.splits)
  have once: "distinct (received_sources (b # ledger_blocks self))"
    using ok source by (auto simp: ledger_ok_def source_fits_def split: block_type.splits)
  have "hm_wf (lg_chains (accepted self b))" using wf by (simp add: accepted_chains)
  then show ?thesis
    unfolding ledger_ok_def index_sets list.set
    using accepted_chains_verify[OF ok v ext] accepted_supply[OF ok cap] index accepted_cites[OF ok source] consumed once
    by blast
qed

lemma ledger_ok_entry:
  assumes ok: "ledger_ok E self"
  shows "ledger_ok E (self\<lparr>lg_chains := hm_entry a [] id (lg_chains self)\<rparr>)"
proof -
  let ?new = "self\<lparr>lg_chains := hm_entry a [] id (lg_chains self)\<rparr>"
  have blocks: "concat (map snd (hm_entry a [] id m)) = concat (map snd m)" for m :: "(string, block list) hmap"
  proof (induction m)
    case Nil
    then show ?case by (simp add: hm_entry_def hm_insert_def)
  next
    case (Cons e m)
    then show ?case by (cases e) (auto simp: hm_entry_def hm_insert_def)
  qed
  have "get_chain ?new c = Some bs \<Longrightarrow> get_chain self c = Some bs \<or> bs = []" for c bs
    by (auto simp: get_chain_def map_of_hm_entry split: if_splits option.splits)
  then have "\<forall>c bs. get_chain ?new c = Some bs \<longrightarrow>
      verify_chain_integrity E bs = Ok () \<and> (\<forall>b \<in> set bs. b_account b = c)"
    using ok by (fastforce simp: ledger_ok_def)
  then show ?thesis
    using ok by (simp add: ledger_ok_def ledger_blocks_def blocks)
qed

lemma add_block_ok: "ledger_ok E self \<Longrightarrow> ledger_ok E (snd (add_block E b self))"
proof -
  assume ok: "ledger_ok E self"
  obtain r self' where r: "add_block E b self = (r, self')" by force
  show ?thesis
  proof (cases "verify_block E b = Ok () \<and> supply_fits self b \<and> source_fits self b \<and>
      extends_chain (chain_of self (b_account b)) b")
    case True
    then show ?thesis using add_block_accepts[of E b self] accepted_ok[OF ok] by simp
  next
    case False
    then show ?thesis using add_block_rejects[OF False r] ok ledger_ok_entry[OF ok] r by auto
  qed
qed

interpretation ledger: state_inv "ledger_ok E" "\<lambda>b self. snd (add_block E b self)" for E
  by unfold_locales (rule add_block_ok)

end
