(* ===== verification/Crdt.thy ===== *)
theory Crdt
  imports Clocks "HOL-Library.Product_Lexorder"
begin

text \<open>
  Crate \<open>arxia-crdt\<close>: the PN-counter (\<open>pn_counter.rs\<close>), the OR-set (\<open>or_set.rs\<close>) and the pruning of
  vector clocks (\<open>pruning.rs\<close>). The two CRDTs interpret \<open>replica_merge\<close>, so replicas converge
  whatever the order in which they absorb each other; pruning keeps the entries with the highest
  counters. An \<open>i64\<close> is an \<open>int\<close> with its bounds written out.
\<close>

section \<open>PN-counter\<close>

record pn_counter =
  pn_p :: "(string, u64) btree"
  pn_n :: "(string, u64) btree"

definition pn_new :: pn_counter where
  "pn_new = \<lparr>pn_p = [], pn_n = []\<rparr>"

definition pn_increment :: "string \<Rightarrow> u64 \<Rightarrow> pn_counter \<Rightarrow> pn_counter" where
  "pn_increment node_id amount self =
     self\<lparr>pn_p := bt_entry node_id 0 (\<lambda>e. saturating_add e amount) (pn_p self)\<rparr>"

definition pn_decrement :: "string \<Rightarrow> u64 \<Rightarrow> pn_counter \<Rightarrow> pn_counter" where
  "pn_decrement node_id amount self =
     self\<lparr>pn_n := bt_entry node_id 0 (\<lambda>e. saturating_add e amount) (pn_n self)\<rparr>"

definition pn_value :: "pn_counter \<Rightarrow> int" where
  "pn_value self =
     (let tp = saturating_sum (map snd (pn_p self));
          tn = saturating_sum (map snd (pn_n self))
      in if tp \<ge> tn
         then (case i64_try_from (tp - tn) of Some m \<Rightarrow> m | None \<Rightarrow> i64_MAX)
         else (case i64_try_from (tn - tp) of Some m \<Rightarrow> - m | None \<Rightarrow> i64_MIN))"

definition pn_merge :: "pn_counter \<Rightarrow> pn_counter \<Rightarrow> pn_counter" where
  "pn_merge self other =
     self\<lparr>pn_p := max_entries (pn_p self) (pn_p other), pn_n := max_entries (pn_n self) (pn_n other)\<rparr>"

definition pn_ok :: "pn_counter \<Rightarrow> bool" where
  "pn_ok c \<longleftrightarrow> bt_wf (pn_p c) \<and> bt_wf (pn_n c)"

lemma pn_ops_ok:
  "pn_ok pn_new" "pn_ok c \<Longrightarrow> pn_ok (pn_increment k x c)" "pn_ok c \<Longrightarrow> pn_ok (pn_decrement k x c)"
  by (simp_all add: pn_ok_def pn_new_def pn_increment_def pn_decrement_def)

interpretation pn: replica_merge pn_ok pn_merge
proof unfold_locales
  fix a b c :: pn_counter
  show "pn_ok a \<Longrightarrow> pn_ok b \<Longrightarrow> pn_ok (pn_merge a b)"
    by (simp add: pn_ok_def pn_merge_def max_map.ok_merge)
  show "pn_ok a \<Longrightarrow> pn_ok b \<Longrightarrow> pn_merge a b = pn_merge b a"
    by (simp add: pn_ok_def pn_merge_def max_map.merge_commute)
  show "pn_ok a \<Longrightarrow> pn_ok b \<Longrightarrow> pn_ok c \<Longrightarrow> pn_merge (pn_merge a b) c = pn_merge a (pn_merge b c)"
    by (simp add: pn_ok_def pn_merge_def max_map.merge_assoc)
  show "pn_ok a \<Longrightarrow> pn_merge a a = a"
    by (simp add: pn_ok_def pn_merge_def max_map.merge_idem)
qed

definition entry_total :: "(string, u64) btree \<Rightarrow> int" where
  "entry_total m = (\<Sum>e\<leftarrow>m. uint (snd e))"

lemma uint_saturating_sum:
  "uint (saturating_sum (map snd m) :: u64) = min (entry_total m) (2 ^ 64 - 1)"
proof -
  have "int (\<Sum>e\<leftarrow>es. unat (snd e)) = entry_total es" for es :: "(string, u64) btree"
    by (induction es) (simp_all add: entry_total_def)
  moreover have "uint (saturating_sum (map snd m) :: u64) = int (unat (saturating_sum (map snd m) :: u64))"
    by simp
  ultimately show ?thesis
    by (simp only: unat_saturating_sum of_nat_min map_map comp_def) simp
qed

text \<open>The value: the difference of the two capped totals, clamped to an \<open>i64\<close>.\<close>

lemma pn_value_clamped:
  "pn_value c = max i64_MIN (min i64_MAX
     (min (entry_total (pn_p c)) (2 ^ 64 - 1) - min (entry_total (pn_n c)) (2 ^ 64 - 1)))"
proof -
  define tp tn :: u64 where t: "tp = saturating_sum (map snd (pn_p c))" "tn = saturating_sum (map snd (pn_n c))"
  have diff: "uint (x - y) = uint x - uint y" if "y \<le> x" for x y :: u64
    using that by (simp add: uint_sub_lem word_le_def)
  have "pn_value c = max i64_MIN (min i64_MAX (uint tp - uint tn))"
  proof (cases "tn \<le> tp")
    case True
    then show ?thesis
      using diff[OF True] by (auto simp: pn_value_def Let_def t[symmetric] i64_try_from_def i64_MAX_def i64_MIN_def word_le_def)
  next
    case False
    then have "tp \<le> tn" by simp
    then show ?thesis
      using diff[of tp tn] False
      by (auto simp: pn_value_def Let_def t[symmetric] i64_try_from_def i64_MAX_def i64_MIN_def word_le_def)
  qed
  then show ?thesis by (simp only: t uint_saturating_sum)
qed

lemma entry_total_bt_insert:
  assumes "bt_wf m"
  shows "entry_total (bt_insert k v m) =
    entry_total m - (case map_of m k of None \<Rightarrow> 0 | Some w \<Rightarrow> uint w) + uint v"
  using assms
proof (induction m)
  case Nil
  then show ?case by (simp add: entry_total_def)
next
  case (Cons e m)
  have "map_of m (fst e) = None"
    using Cons.prems by (auto simp: bt_wf_Cons map_of_eq_None_iff)
  moreover have "map_of m k = None" if "k < fst e"
    using Cons.prems that by (auto simp: bt_wf_Cons map_of_eq_None_iff)
  ultimately show ?case
    using Cons by (auto simp: entry_total_def bt_wf_Cons split: option.splits)
qed

section \<open>OR-set\<close>

record 'a or_set =
  or_elements :: "('a, string set) btree"
  or_tag_counter :: u64
  or_node_id :: string

definition or_new :: "string \<Rightarrow> 'a or_set" where
  "or_new node_id = \<lparr>or_elements = [], or_tag_counter = 0, or_node_id = node_id\<rparr>"

definition or_tag :: "string \<Rightarrow> u64 \<Rightarrow> string" where
  "or_tag node_id n = node_id @ '':'' @ display_u64 n"

definition or_add :: "'a::linorder \<Rightarrow> 'a or_set \<Rightarrow> 'a or_set" where
  "or_add element self =
     (let n = saturating_add (or_tag_counter self) 1
      in self\<lparr>or_tag_counter := n,
           or_elements := bt_entry element {} (insert (or_tag (or_node_id self) n)) (or_elements self)\<rparr>)"

definition or_remove :: "'a \<Rightarrow> 'a or_set \<Rightarrow> bool \<times> 'a or_set" where
  "or_remove element self =
     (map_of (or_elements self) element \<noteq> None, self\<lparr>or_elements := bt_remove element (or_elements self)\<rparr>)"

definition or_contains :: "'a or_set \<Rightarrow> 'a \<Rightarrow> bool" where
  "or_contains self element =
     (case map_of (or_elements self) element of None \<Rightarrow> False | Some tags \<Rightarrow> tags \<noteq> {})"

fun union_entries :: "('a::linorder, string set) btree \<Rightarrow> ('a, string set) btree \<Rightarrow> ('a, string set) btree" where
  "union_entries m [] = m"
| "union_entries m (e # es) = union_entries (bt_entry (fst e) {} (\<lambda>tags. tags \<union> snd e) m) es"

definition or_merge :: "'a::linorder or_set \<Rightarrow> 'a or_set \<Rightarrow> 'a or_set" where
  "or_merge self other = self\<lparr>or_elements := union_entries (or_elements self) (or_elements other)\<rparr>"

definition or_len :: "'a or_set \<Rightarrow> nat" where
  "or_len self = length (or_elements self)"

definition or_is_empty :: "'a or_set \<Rightarrow> bool" where
  "or_is_empty self \<longleftrightarrow> or_elements self = []"

fun join_tags :: "string set option \<Rightarrow> string set option \<Rightarrow> string set option" where
  "join_tags x None = x"
| "join_tags None (Some t) = Some t"
| "join_tags (Some s) (Some t) = Some (s \<union> t)"

lemma join_tags_None [simp]: "join_tags None y = y"
  by (cases y) simp_all

lemma join_tags_laws:
  "join_tags x y = join_tags y x" "join_tags (join_tags x y) z = join_tags x (join_tags y z)" "join_tags x x = x"
  by (cases x; cases y; cases z; auto)+

lemma union_entries_wf: "bt_wf m \<Longrightarrow> bt_wf (union_entries m es)"
  by (induction es arbitrary: m) simp_all

lemma map_of_union_entries:
  "bt_wf es \<Longrightarrow> map_of (union_entries m es) k = join_tags (map_of m k) (map_of es k)"
proof (induction es arbitrary: m)
  case Nil
  then show ?case by simp
next
  case (Cons e es)
  then have "map_of es (fst e) = None" "bt_wf es"
    by (auto simp: bt_wf_Cons map_of_eq_None_iff)
  then show ?case using Cons.IH[of "bt_entry (fst e) {} (\<lambda>tags. tags \<union> snd e) m"]
    by (cases e; cases "map_of m (fst e)") (auto simp: map_of_bt_entry Un_commute)
qed

interpretation tag_map: replica_merge "bt_wf :: ('a::linorder, string set) btree \<Rightarrow> bool" union_entries
proof unfold_locales
  fix a b c :: "('a, string set) btree"
  show "bt_wf a \<Longrightarrow> bt_wf b \<Longrightarrow> bt_wf (union_entries a b)" by (rule union_entries_wf)
  show "bt_wf a \<Longrightarrow> bt_wf b \<Longrightarrow> union_entries a b = union_entries b a"
    by (intro bt_ext union_entries_wf) (simp_all add: fun_eq_iff map_of_union_entries join_tags_laws(1))
  show "bt_wf a \<Longrightarrow> bt_wf b \<Longrightarrow> bt_wf c \<Longrightarrow>
      union_entries (union_entries a b) c = union_entries a (union_entries b c)"
    by (intro bt_ext union_entries_wf)
      (simp_all add: fun_eq_iff map_of_union_entries union_entries_wf join_tags_laws(2))
  show "bt_wf a \<Longrightarrow> union_entries a a = a"
    by (intro bt_ext union_entries_wf) (simp_all add: fun_eq_iff map_of_union_entries join_tags_laws(3))
qed

text \<open>A set in use: sorted, no element without tags.\<close>

definition or_ok :: "'a::linorder or_set \<Rightarrow> bool" where
  "or_ok s \<longleftrightarrow> bt_wf (or_elements s) \<and> {} \<notin> snd ` set (or_elements s)"

lemma or_ok_iff:
  "or_ok s \<longleftrightarrow> bt_wf (or_elements s) \<and> (\<forall>k t. map_of (or_elements s) k = Some t \<longrightarrow> t \<noteq> {})"
proof -
  have "{} \<in> snd ` set m \<longleftrightarrow> (\<exists>k. map_of m k = Some {})" if "bt_wf m" for m :: "('a, string set) btree"
    using bt_mem_iff[OF that] by (auto simp: image_iff) force+
  then show ?thesis unfolding or_ok_def by blast
qed

lemma or_ops_ok:
  "or_ok (or_new n)" "or_ok s \<Longrightarrow> or_ok (or_add x s)" "or_ok s \<Longrightarrow> or_ok (snd (or_remove x s))"
  by (auto simp: or_ok_iff or_new_def or_add_def Let_def or_remove_def map_of_bt_entry split: if_splits)

lemma or_merge_ok: "or_ok s \<Longrightarrow> or_ok t \<Longrightarrow> or_ok (or_merge s t)"
proof -
  have "u \<noteq> {}" if "join_tags x y = Some u" "\<forall>t. x = Some t \<longrightarrow> t \<noteq> {}" "\<forall>t. y = Some t \<longrightarrow> t \<noteq> {}" for x y u
    using that by (cases x; cases y) auto
  then show "or_ok s \<Longrightarrow> or_ok t \<Longrightarrow> or_ok (or_merge s t)"
    unfolding or_ok_iff or_merge_def by (simp add: union_entries_wf map_of_union_entries)
qed

lemma or_contains_merge:
  assumes "or_ok s" "or_ok t"
  shows "or_contains (or_merge s t) x \<longleftrightarrow> or_contains s x \<or> or_contains t x"
  using assms unfolding or_ok_iff or_contains_def or_merge_def
  by (cases "map_of (or_elements s) x"; cases "map_of (or_elements t) x")
    (auto simp: map_of_union_entries)

lemma or_contains_add: "or_contains (or_add x s) y \<longleftrightarrow> y = x \<or> or_contains s y"
  by (auto simp: or_contains_def or_add_def Let_def map_of_bt_entry split: option.splits)

lemma or_contains_remove: "or_contains (snd (or_remove x s)) y \<longleftrightarrow> y \<noteq> x \<and> or_contains s y"
  by (auto simp: or_contains_def or_remove_def)

lemma or_remove_signal: "or_ok s \<Longrightarrow> fst (or_remove x s) \<longleftrightarrow> or_contains s x"
  by (auto simp: or_ok_iff or_contains_def or_remove_def split: option.splits)

section \<open>Pruning\<close>

datatype pruning_result = Clean | ExpiredRemoved nat | ForcedPruning nat

record vector_clock_entry =
  vce_counter :: u64
  vce_last_seen_unix :: u64

type_synonym entry_map = "(bytes, vector_clock_entry) btree"

definition EXPIRY_DAYS :: u64 where "EXPIRY_DAYS = 7"
definition SECS_PER_DAY :: u64 where "SECS_PER_DAY = 86400"

definition prune_expired :: "entry_map \<Rightarrow> u64 \<Rightarrow> u64 \<Rightarrow> pruning_result \<times> entry_map" where
  "prune_expired clock expiry_days reference_time_unix =
     (let expiry_threshold_secs = saturating_mul expiry_days SECS_PER_DAY;
          clock' = filter (\<lambda>(node_id, entry).
            saturating_sub reference_time_unix (vce_last_seen_unix entry) < expiry_threshold_secs) clock;
          removed = length clock - length clock'
      in (if removed = 0 then Clean else ExpiredRemoved removed, clock'))"

definition prune_to_cap :: "entry_map \<Rightarrow> nat \<Rightarrow> pruning_result \<times> entry_map" where
  "prune_to_cap clock cap =
     (if length clock \<le> cap then (Clean, clock)
      else
        let to_evict = length clock - cap;
            entries = sort_key (\<lambda>(node_id, counter). (counter, node_id))
              (map (\<lambda>(node_id, entry). (node_id, vce_counter entry)) clock);
            evicted_ids = map fst (take to_evict entries)
        in (ForcedPruning (length evicted_ids), fold bt_remove evicted_ids clock))"

definition prune_all :: "entry_map \<Rightarrow> u64 \<Rightarrow> nat \<Rightarrow> u64 \<Rightarrow> pruning_result \<times> entry_map" where
  "prune_all clock expiry_days cap reference_time_unix =
     (let (expired_result, clock1) = prune_expired clock expiry_days reference_time_unix;
          (forced_result, clock2) = prune_to_cap clock1 cap
      in (case forced_result of ForcedPruning evicted \<Rightarrow> ForcedPruning evicted | _ \<Rightarrow> expired_result, clock2))"

definition prune_expired_default :: "entry_map \<Rightarrow> u64 \<Rightarrow> pruning_result \<times> entry_map" where
  "prune_expired_default clock now = prune_expired clock EXPIRY_DAYS now"

definition prune_all_default :: "entry_map \<Rightarrow> u64 \<Rightarrow> pruning_result \<times> entry_map" where
  "prune_all_default clock now = prune_all clock EXPIRY_DAYS MAX_VECTOR_CLOCK_ENTRIES now"

lemma fold_bt_remove: "fold bt_remove ks m = filter (\<lambda>e. fst e \<notin> set ks) m"
  by (induction ks arbitrary: m) (auto simp: bt_remove_def conj_commute intro: filter_cong)

lemma sorted_map_append: "sorted (map f (xs @ ys)) \<Longrightarrow> x \<in> set xs \<Longrightarrow> y \<in> set ys \<Longrightarrow> f x \<le> f y"
  by (auto simp: sorted_append)

lemma length_filter_keys:
  assumes "bt_wf m" "distinct ks" "set ks \<subseteq> fst ` set m"
  shows "length (filter (\<lambda>e. fst e \<notin> set ks) m) = length m - length ks"
proof -
  let ?f = "filter (\<lambda>e. fst e \<notin> set ks) m"
  have "bt_wf ?f" using assms(1) by (simp add: bt_wf_def sorted_wrt_map sorted_wrt_filter)
  then have "length ?f = card (fst ` set ?f)" using distinct_card[OF bt_wf_distinct] by force
  also have "fst ` set ?f = fst ` set m - set ks" by auto
  also have "card \<dots> = card (fst ` set m) - length ks"
    using assms(2,3) by (simp add: card_Diff_subset distinct_card)
  also have "card (fst ` set m) = length m" using distinct_card[OF bt_wf_distinct[OF assms(1)]] by simp
  finally show ?thesis .
qed

lemma take_sort_key_le:
  assumes "x \<in> set (take k (sort_key f xs))" "y \<in> set xs" "y \<notin> set (take k (sort_key f xs))"
  shows "f x \<le> f y"
proof -
  have "y \<in> set (drop k (sort_key f xs))"
    using assms(2,3) set_append[of "take k (sort_key f xs)" "drop k (sort_key f xs)"] by simp
  moreover have "sorted (map f (take k (sort_key f xs) @ drop k (sort_key f xs)))"
    by (simp only: append_take_drop_id sorted_sort_key)
  ultimately show ?thesis using assms(1) unfolding map_append sorted_append by simp
qed

text \<open>
  What forced pruning keeps: a part of the clock, of exactly the cap when anything is evicted, and
  every evicted entry is at or below every kept one, by counter and then by node.
\<close>

lemma prune_to_cap_spec:
  assumes wf: "bt_wf clock" and r: "prune_to_cap clock cap = (res, clock')"
  shows "bt_wf clock' \<and> set clock' \<subseteq> set clock \<and> length clock' = min cap (length clock) \<and>
    (\<forall>(i, e) \<in> set clock - set clock'. \<forall>(j, f) \<in> set clock'. (vce_counter e, i) \<le> (vce_counter f, j)) \<and>
    res = (if length clock \<le> cap then Clean else ForcedPruning (length clock - cap))"
proof (cases "length clock \<le> cap")
  case True
  then show ?thesis using r wf by (auto simp: prune_to_cap_def)
next
  case False
  let ?key = "\<lambda>(node_id, counter). (counter :: u64, node_id :: bytes)"
  let ?entries = "sort_key ?key (map (\<lambda>(i, e). (i, vce_counter e)) clock)"
  let ?k = "length clock - cap"
  let ?ids = "map fst (take ?k ?entries)"
  have fst_entries: "map fst (map (\<lambda>(i, e). (i, vce_counter e)) clock) = map fst clock"
    by (induction clock) auto
  have "mset (map fst ?entries) = mset (map fst (map (\<lambda>(i, e). (i, vce_counter e)) clock))"
    by (simp only: mset_map mset_sort)
  then have "distinct (map fst ?entries) \<longleftrightarrow> distinct (map fst clock)"
    unfolding fst_entries by (rule mset_eq_imp_distinct_iff)
  then have dist: "distinct (map fst ?entries)" using bt_wf_distinct[OF wf] by blast
  have res: "res = ForcedPruning ?k" "clock' = filter (\<lambda>e. fst e \<notin> set ?ids) clock"
    using r False by (simp_all add: prune_to_cap_def Let_def fold_bt_remove)
  have sub: "set ?ids \<subseteq> set (map fst clock)"
    using set_take_subset[of ?k ?entries] by (force simp: image_iff)
  have len: "length clock' = cap"
  proof -
    have "distinct ?ids" using distinct_take[OF dist, of ?k] by (simp only: take_map)
    then have "length clock' = length clock - length ?ids"
      using length_filter_keys[OF wf, of ?ids] sub by (simp only: res set_map)
    then show ?thesis using False by simp
  qed
  have order: "(vce_counter e, i) \<le> (vce_counter f, j)"
    if "(i, e) \<in> set clock" "(i, e) \<notin> set clock'" "(j, f) \<in> set clock'" for i e j f
  proof -
    have "i \<in> set ?ids" "j \<notin> set ?ids" "(j, f) \<in> set clock" using that by (auto simp: res)
    then obtain c where c: "(i, c) \<in> set (take ?k ?entries)" by auto
    then have "(i, c) \<in> set ?entries" by (rule in_set_takeD)
    then have "c = vce_counter e" using that(1) bt_mem_iff[OF wf] by auto
    moreover have "(j, vce_counter f) \<in> set (map (\<lambda>(i, e). (i, vce_counter e)) clock)" using \<open>(j, f) \<in> set clock\<close> by force
    moreover have "(j, vce_counter f) \<notin> set (take ?k ?entries)" using \<open>j \<notin> set ?ids\<close> by force
    ultimately show ?thesis using take_sort_key_le[OF c, of "(j, vce_counter f)"] by simp
  qed
  have "bt_wf clock'" using wf by (simp add: res bt_wf_def sorted_wrt_map sorted_wrt_filter)
  moreover have "\<forall>(i, e) \<in> set clock - set clock'. \<forall>(j, f) \<in> set clock'.
      (vce_counter e, i) \<le> (vce_counter f, j)"
    by (clarify, rule order)
  moreover have "set clock' \<subseteq> set clock" by (auto simp: res)
  moreover have "length clock' = min cap (length clock)" using len False by simp
  moreover have "res = (if length clock \<le> cap then Clean else ForcedPruning ?k)" using res False by simp
  ultimately show ?thesis by blast
qed

lemma prune_expired_spec:
  assumes wf: "bt_wf clock" and r: "prune_expired clock days now = (res, clock')"
  shows "bt_wf clock' \<and> (\<forall>i e. (i, e) \<in> set clock' \<longleftrightarrow> (i, e) \<in> set clock \<and>
      unat now - unat (vce_last_seen_unix e) < min (unat days * 86400) (2 ^ 64 - 1)) \<and>
    (res = Clean \<longleftrightarrow> clock' = clock)"
proof -
  let ?p = "\<lambda>(i :: bytes, e). saturating_sub now (vce_last_seen_unix e) < saturating_mul days SECS_PER_DAY"
  have eq: "clock' = filter ?p clock"
    "res = (if length clock - length (filter ?p clock) = 0 then Clean else ExpiredRemoved (length clock - length (filter ?p clock)))"
    using r unfolding prune_expired_def Let_def by blast+
  have "length clock - length (filter P clock) = 0 \<longleftrightarrow> filter P clock = clock" for P
  proof -
    have "P x" if "length clock - length (filter P clock) = 0" "x \<in> set clock" for x
      using that length_filter_less[of x clock P] by fastforce
    then show ?thesis by (metis diff_self_eq_0 filter_True)
  qed
  then have "res = Clean \<longleftrightarrow> clock' = clock" unfolding eq by simp
  moreover have "?p (i, e) \<longleftrightarrow> unat now - unat (vce_last_seen_unix e) < min (unat days * 86400) (2 ^ 64 - 1)" for i e
    by (simp add: word_less_nat_alt unat_saturating_sub unat_saturating_mul SECS_PER_DAY_def)
  ultimately show ?thesis
    using wf by (auto simp: eq(1) bt_wf_def sorted_wrt_map sorted_wrt_filter)
qed

end
