(* ===== verification/Reconciliation.thy ===== *)
theory Reconciliation
  imports Crdt Chain
begin

text \<open>
  Crate \<open>arxia-crdt\<close>, file \<open>reconciliation.rs\<close>: merging the blocks of two partitions into account
  balances. One definition per numbered step of \<open>reconcile_partitions\<close>. \<open>by_key\<close>, \<open>winners\<close>,
  \<open>applied_sends\<close> and \<open>crdts\<close> are hash maps; three of them are iterated, in an order of the map's
  own choosing, different from run to run, so that order is an argument. The lemmas show which block
  wins a position, that no reported balance is negative, and what of the outcome depends on the set
  of blocks only: not on how they are split over the two partitions, repeated or ordered, nor on the
  order in which the maps are iterated.
\<close>

section \<open>Definitions\<close>

record resolved_conflict =
  rc_account :: string
  rc_nonce :: u64
  rc_winner_hash :: string
  rc_loser_hashes :: "string list"
  rc_method :: string

record rejected_receive =
  rr_account :: string
  rr_nonce :: u64
  rr_receive_hash :: string
  rr_source_hash :: string
  rr_reason :: string

record rejected_genesis =
  rg_account :: string
  rg_nonce :: u64
  rg_block_hash :: string
  rg_reason :: string

record reconciliation_report =
  rep_balances :: "(string, int) hmap"
  rep_conflicts :: "resolved_conflict list"
  rep_rejected_receives :: "rejected_receive list"
  rep_rejected_genesis :: "rejected_genesis list"

type_synonym block_key = "string \<times> u64"

text \<open>Step 1: the first block of every hash.\<close>

fun dedup_by_hash :: "string set \<Rightarrow> block list \<Rightarrow> block list" where
  "dedup_by_hash seen [] = []"
| "dedup_by_hash seen (b # bs) =
     (if b_hash b \<in> seen then dedup_by_hash seen bs
      else b # dedup_by_hash (insert (b_hash b) seen) bs)"

text \<open>Step 2: group by account and nonce.\<close>

definition block_key_of :: "block \<Rightarrow> block_key" where
  "block_key_of b = (b_account b, b_nonce b)"

definition group_blocks :: "block list \<Rightarrow> (block_key, block list) hmap" where
  "group_blocks all = fold (\<lambda>b. hm_entry (block_key_of b) [] (\<lambda>g. g @ [b])) all []"

text \<open>Step 3: the winner of a group, and the conflict it settles. The list of groups is in the order in
  which the loop visits the map, and so are the lists of winners and of counters in steps 4 and 6.\<close>

definition pick_winner :: "block list \<Rightarrow> block" where
  "pick_winner g = (if length g = 1 then g ! 0 else hd (sort_key b_hash g))"

definition conflict_of :: "block_key \<Rightarrow> block list \<Rightarrow> resolved_conflict list" where
  "conflict_of k g =
     (if length g = 1 then []
      else [\<lparr>rc_account = fst k, rc_nonce = snd k, rc_winner_hash = b_hash (pick_winner g),
             rc_loser_hashes = map b_hash (tl (sort_key b_hash g)), rc_method = ''hash_tiebreaker''\<rparr>])"

definition pick_winners :: "(block_key, block list) hmap \<Rightarrow> (block_key, block) hmap \<times> resolved_conflict list" where
  "pick_winners by_key =
     (fold (\<lambda>(k, g). hm_insert k (pick_winner g)) by_key [],
      concat (map (\<lambda>(k, g). conflict_of k g) by_key))"

text \<open>Step 4: the winning sends, by hash.\<close>

definition is_send :: "block \<Rightarrow> bool" where
  "is_send b = (case b_type b of Send _ _ \<Rightarrow> True | _ \<Rightarrow> False)"

definition index_sends :: "(block_key, block) hmap \<Rightarrow> (string, block) hmap" where
  "index_sends winners =
     fold (\<lambda>(k, b). if is_send b then hm_insert (b_hash b) b else id) winners []"

text \<open>Step 5: apply one winning block.\<close>

record recon_state =
  rs_crdts :: "(string, pn_counter) hmap"
  rs_rejected_receives :: "rejected_receive list"
  rs_rejected_genesis :: "rejected_genesis list"

definition update_counter ::
    "block \<Rightarrow> (string \<Rightarrow> u64 \<Rightarrow> pn_counter \<Rightarrow> pn_counter) \<Rightarrow> u64 \<Rightarrow> recon_state
      \<Rightarrow> (recon_state, arxia_error) result" where
  "update_counter b change amount st =
     and_then (first8 (b_account b)) (\<lambda>sid.
       Ok (st\<lparr>rs_crdts := hm_entry (b_account b) pn_new (change sid amount) (rs_crdts st)\<rparr>))"

definition reject_receive :: "block \<Rightarrow> string \<Rightarrow> string \<Rightarrow> recon_state \<Rightarrow> recon_state" where
  "reject_receive b source_hash reason st =
     st\<lparr>rs_rejected_receives := rs_rejected_receives st @
          [\<lparr>rr_account = b_account b, rr_nonce = b_nonce b, rr_receive_hash = b_hash b,
            rr_source_hash = source_hash, rr_reason = reason\<rparr>]\<rparr>"

definition apply_winner ::
    "(string, block) hmap \<Rightarrow> block \<Rightarrow> recon_state \<Rightarrow> (recon_state, arxia_error) result" where
  "apply_winner applied_sends b st =
     (case b_type b of
        Open initial_balance \<Rightarrow>
          if b_nonce b \<noteq> 1
          then Ok (st\<lparr>rs_rejected_genesis := rs_rejected_genesis st @
                 [\<lparr>rg_account = b_account b, rg_nonce = b_nonce b, rg_block_hash = b_hash b,
                   rg_reason = ''open_at_non_genesis_nonce''\<rparr>]\<rparr>)
          else update_counter b pn_increment initial_balance st
      | Send destination amount \<Rightarrow> update_counter b pn_decrement amount st
      | Receive source_hash \<Rightarrow>
          (case map_of applied_sends source_hash of
             None \<Rightarrow> Ok (reject_receive b source_hash ''source_not_found'' st)
           | Some source \<Rightarrow>
               (case b_type source of
                  Send destination amount \<Rightarrow>
                    if destination \<noteq> b_account b
                    then Ok (reject_receive b source_hash ''destination_mismatch'' st)
                    else update_counter b pn_increment amount st
                | _ \<Rightarrow> Ok (reject_receive b source_hash ''destination_mismatch'' st)))
      | Revoke _ \<Rightarrow> Ok st)"

text \<open>\<open>winners.get(&key).expect(..)\<close> panics when the key is absent.\<close>

fun apply_winners ::
    "(block_key, block) hmap \<Rightarrow> (string, block) hmap \<Rightarrow> block_key list \<Rightarrow> recon_state
      \<Rightarrow> (recon_state, arxia_error) result" where
  "apply_winners winners applied_sends [] st = Ok st"
| "apply_winners winners applied_sends (k # ks) st =
     (case map_of winners k of
        None \<Rightarrow> Panic
      | Some b \<Rightarrow> and_then (apply_winner applied_sends b st) (apply_winners winners applied_sends ks))"

text \<open>Step 6: the balances, or the first negative one.\<close>

fun materialize :: "(string, pn_counter) hmap \<Rightarrow> (string, int) hmap \<Rightarrow> ((string, int) hmap, arxia_error) result" where
  "materialize [] balances = Ok balances"
| "materialize ((account, counter) # cs) balances =
     (let v = pn_value counter in
      if v < 0 then Err (NegativeBalance account v)
      else materialize cs (hm_insert account v balances))"

text \<open>The orders in which one run visits its three maps: any rearrangement of their entries.\<close>

record hash_orders =
  ho_groups :: "(block_key, block list) hmap \<Rightarrow> (block_key, block list) hmap"
  ho_winners :: "(block_key, block) hmap \<Rightarrow> (block_key, block) hmap"
  ho_counters :: "(string, pn_counter) hmap \<Rightarrow> (string, pn_counter) hmap"

definition hash_orders_ok :: "hash_orders \<Rightarrow> bool" where
  "hash_orders_ok H \<longleftrightarrow> (\<forall>m. mset (ho_groups H m) = mset m) \<and> (\<forall>m. mset (ho_winners H m) = mset m) \<and>
     (\<forall>m. mset (ho_counters H m) = mset m)"

definition reconcile_partitions ::
    "hash_orders \<Rightarrow> block list \<Rightarrow> block list \<Rightarrow> (reconciliation_report, arxia_error) result" where
  "reconcile_partitions H partition_a partition_b =
     (let all = dedup_by_hash {} (partition_a @ partition_b);
          by_key = group_blocks all;
          (winners, conflicts) = pick_winners (ho_groups H by_key);
          applied_sends = index_sends (ho_winners H winners);
          ordered_keys = sort (map fst (ho_groups H by_key))
      in and_then (apply_winners winners applied_sends ordered_keys
             \<lparr>rs_crdts = [], rs_rejected_receives = [], rs_rejected_genesis = []\<rparr>) (\<lambda>st.
         and_then (materialize (ho_counters H (rs_crdts st)) []) (\<lambda>balances.
           Ok \<lparr>rep_balances = balances, rep_conflicts = conflicts,
               rep_rejected_receives = rs_rejected_receives st,
               rep_rejected_genesis = rs_rejected_genesis st\<rparr>)))"

definition reconcile_partitions_balances_only ::
    "hash_orders \<Rightarrow> block list \<Rightarrow> block list \<Rightarrow> ((string, int) hmap, arxia_error) result" where
  "reconcile_partitions_balances_only H partition_a partition_b =
     map_ok rep_balances (reconcile_partitions H partition_a partition_b)"

section \<open>Deduplication and grouping\<close>

lemma dedup_hashes: "b_hash ` set (dedup_by_hash seen bs) = b_hash ` set bs - seen"
  by (induction seen bs rule: dedup_by_hash.induct) auto

lemma dedup_subset: "set (dedup_by_hash seen bs) \<subseteq> set bs"
  by (induction seen bs rule: dedup_by_hash.induct) auto

lemma dedup_distinct: "distinct (map b_hash (dedup_by_hash seen bs))"
proof (induction seen bs rule: dedup_by_hash.induct)
  case (2 seen b bs)
  then show ?case using dedup_hashes[of "insert (b_hash b) seen" bs] by auto
qed simp

text \<open>With hashes that identify blocks, deduplication keeps every block, once.\<close>

lemma dedup_set: "inj_on b_hash (set bs) \<Longrightarrow> set (dedup_by_hash {} bs) = set bs"
  using dedup_hashes[of "{}" bs] dedup_subset[of "{}" bs]
  by (simp add: inj_on_image_eq_iff)

lemma group_blocks_lookup:
  "map_of (group_blocks bs) k =
     (let g = filter (\<lambda>b. block_key_of b = k) bs in if g = [] then None else Some g)"
proof (induction bs rule: rev_induct)
  case Nil
  then show ?case by (simp add: group_blocks_def)
next
  case (snoc b bs)
  have "group_blocks (bs @ [b]) = hm_entry (block_key_of b) [] (\<lambda>g. g @ [b]) (group_blocks bs)"
    by (simp add: group_blocks_def)
  then show ?case using snoc by (auto simp: map_of_hm_entry Let_def split: if_splits)
qed

lemma group_blocks_wf: "hm_wf (group_blocks bs)"
proof (induction bs rule: rev_induct)
  case Nil
  then show ?case by (simp add: group_blocks_def)
next
  case (snoc b bs)
  then show ?case by (simp add: group_blocks_def)
qed

section \<open>Winners\<close>

lemma map_of_fold_insert:
  "distinct (map fst m) \<Longrightarrow> map_of (fold (\<lambda>(k, g). hm_insert k (f g)) m acc) k =
     (case map_of m k of None \<Rightarrow> map_of acc k | Some g \<Rightarrow> Some (f g))"
proof (induction m arbitrary: acc)
  case Nil
  then show ?case by simp
next
  case (Cons e m)
  obtain j g where e: "e = (j, g)" by (cases e)
  have "map_of m j = None" using Cons.prems by (simp add: e map_of_eq_None_iff)
  then show ?case using Cons by (auto simp: e split: option.split)
qed

lemma visited:
  assumes "hm_wf m" "mset n = mset m"
  shows "hm_wf n" and "map_of n = map_of m" and "set n = set m"
proof -
  show sets: "set n = set m" using assms(2) by (rule mset_eq_setD)
  have "mset (map fst n) = mset (map fst m)" using assms(2) by (simp add: mset_map)
  then show wf: "hm_wf n" using assms(1) unfolding hm_wf_def by (metis mset_eq_imp_distinct_iff)
  show "map_of n = map_of m" using map_of_inject_set[of n m] wf assms(1) sets by (simp add: hm_wf_def)
qed

lemmas hash_orders_okD =
  hash_orders_ok_def[THEN iffD1, THEN conjunct1, rule_format]
  hash_orders_ok_def[THEN iffD1, THEN conjunct2, THEN conjunct1, rule_format]
  hash_orders_ok_def[THEN iffD1, THEN conjunct2, THEN conjunct2, rule_format]

lemma winners_lookup:
  "hm_wf m \<Longrightarrow> map_of (fst (pick_winners m)) k = map_option pick_winner (map_of m k)"
  by (auto simp: pick_winners_def hm_wf_def map_of_fold_insert split: option.split)

lemma winners_wf: "hm_wf (fst (pick_winners m))"
proof -
  have "hm_wf (fold (\<lambda>(k, g). hm_insert k (pick_winner g)) n acc)" if "hm_wf acc" for n :: "(block_key, block list) hmap" and acc
    using that by (induction n arbitrary: acc) auto
  then show ?thesis by (simp add: pick_winners_def)
qed

lemma pick_winner_least:
  assumes "g \<noteq> []"
  shows "pick_winner g \<in> set g \<and> (\<forall>c \<in> set g. b_hash (pick_winner g) \<le> b_hash c)"
proof (cases "length g = 1")
  case True
  then show ?thesis by (cases g) (auto simp: pick_winner_def)
next
  case False
  have "sort_key b_hash g \<noteq> []" using assms by (metis set_empty set_sort)
  then obtain x xs where x: "sort_key b_hash g = x # xs" by (cases "sort_key b_hash g") auto
  have "sorted (map b_hash (x # xs))" using x sorted_sort_key[of b_hash g] by simp
  moreover have "set g = set (x # xs)" using x set_sort[of b_hash g] by simp
  ultimately show ?thesis using False x by (auto simp: pick_winner_def)
qed

text \<open>
  The block that wins a position: the one of the smallest hash among those at it. This is what
  the winners map means for blocks whose hashes are distinct.
\<close>

definition wins :: "block set \<Rightarrow> block_key \<Rightarrow> block \<Rightarrow> bool" where
  "wins U k b \<longleftrightarrow> b \<in> U \<and> block_key_of b = k \<and> (\<forall>c \<in> U. block_key_of c = k \<longrightarrow> b_hash b \<le> b_hash c)"

definition winners_of :: "block list \<Rightarrow> (block_key, block) hmap" where
  "winners_of bs = fst (pick_winners (group_blocks bs))"

lemma winners_iff:
  assumes "distinct (map b_hash bs)"
  shows "map_of (winners_of bs) k = Some b \<longleftrightarrow> wins (set bs) k b"
proof -
  let ?g = "filter (\<lambda>b. block_key_of b = k) bs"
  have inj: "b = c" if "b \<in> set bs" "c \<in> set bs" "b_hash b \<le> b_hash c" "b_hash c \<le> b_hash b" for b c
    using that assms by (auto simp: distinct_map dest: inj_onD)
  show ?thesis
  proof (cases "?g = []")
    case True
    then have "\<forall>c \<in> set bs. block_key_of c \<noteq> k" by (simp add: filter_empty_conv)
    then show ?thesis
      using True by (auto simp: winners_of_def winners_lookup[OF group_blocks_wf] group_blocks_lookup wins_def)
  next
    case False
    then have "map_of (winners_of bs) k = Some (pick_winner ?g)"
      by (simp add: winners_of_def winners_lookup[OF group_blocks_wf] group_blocks_lookup)
    moreover have "wins (set bs) k (pick_winner ?g)"
      using pick_winner_least[OF False] by (auto simp: wins_def)
    moreover have "b = c" if "wins (set bs) k b" "wins (set bs) k c" for b c
      using that inj unfolding wins_def by blast
    ultimately show ?thesis by auto
  qed
qed

lemma index_sends_lookup:
  assumes "distinct (map (\<lambda>e. b_hash (snd e)) w)"
  shows "map_of (index_sends w) h = Some b \<longleftrightarrow> b \<in> snd ` set w \<and> is_send b \<and> b_hash b = h"
proof -
  have "map_of (fold (\<lambda>(k, b). if is_send b then hm_insert (b_hash b) b else id) w acc) h = Some b \<longleftrightarrow>
      (b \<in> snd ` set w \<and> is_send b \<and> b_hash b = h) \<or>
      (map_of acc h = Some b \<and> (\<forall>c \<in> snd ` set w. is_send c \<longrightarrow> b_hash c \<noteq> h))" for acc
    using assms
  proof (induction w arbitrary: acc)
    case Nil
    then show ?case by simp
  next
    case (Cons e w)
    obtain k c where e: "e = (k, c)" by (cases e)
    have "\<forall>d \<in> snd ` set w. b_hash d \<noteq> b_hash c" using Cons.prems by (force simp: e)
    moreover have "distinct (map (\<lambda>e. b_hash (snd e)) w)" using Cons.prems by simp
    moreover have "snd ` set (e # w) = insert c (snd ` set w)" by (simp add: e)
    ultimately show ?case by (auto simp: e Cons.IH simp del: image_iff)
  qed
  then show ?thesis by (simp add: index_sends_def)
qed

lemma winners_hashes:
  assumes "distinct (map b_hash bs)"
  shows "distinct (map (\<lambda>e. b_hash (snd e)) (winners_of bs))"
proof -
  have wf: "hm_wf (winners_of bs)" by (simp add: winners_of_def winners_wf)
  have mem: "block_key_of b = k \<and> b \<in> set bs" if "(k, b) \<in> set (winners_of bs)" for k b
    using that winners_iff[OF assms] hm_mem_iff[OF wf] by (auto simp: wins_def)
  have "inj_on (\<lambda>e. b_hash (snd e)) (set (winners_of bs))"
  proof (rule inj_onI)
    fix x y assume xy: "x \<in> set (winners_of bs)" "y \<in> set (winners_of bs)" "b_hash (snd x) = b_hash (snd y)"
    obtain k b j c where k: "x = (k, b)" "y = (j, c)" by (cases x; cases y) auto
    then have m: "block_key_of b = k" "b \<in> set bs" "block_key_of c = j" "c \<in> set bs"
      using mem xy by blast+
    then have "b = c" using xy k assms by (auto simp: distinct_map dest: inj_onD)
    then show "x = y" using m k by simp
  qed
  moreover have "distinct (winners_of bs)" using wf unfolding hm_wf_def distinct_map by simp
  ultimately show ?thesis by (simp add: distinct_map)
qed

lemma sends_iff:
  assumes "distinct (map b_hash bs)"
  shows "map_of (index_sends (winners_of bs)) h = Some b \<longleftrightarrow>
    (\<exists>k. wins (set bs) k b) \<and> is_send b \<and> b_hash b = h"
proof -
  have wf: "hm_wf (winners_of bs)" by (simp add: winners_of_def winners_wf)
  have "b \<in> snd ` set (winners_of bs) \<longleftrightarrow> (\<exists>k. wins (set bs) k b)"
  proof -
    have "b \<in> snd ` set w \<longleftrightarrow> (\<exists>k. (k, b) \<in> set w)" for w :: "(block_key, block) hmap"
    proof
      assume "\<exists>k. (k, b) \<in> set w"
      then obtain k where "(k, b) \<in> set w" by blast
      then show "b \<in> snd ` set w" by (rule image_eqI[rotated]) simp
    next
      assume "b \<in> snd ` set w"
      then obtain e where "e \<in> set w" "b = snd e" by blast
      then have "(fst e, b) \<in> set w" by simp
      then show "\<exists>k. (k, b) \<in> set w" by (rule exI)
    qed
    then show ?thesis by (simp only: hm_mem_iff[OF wf] winners_iff[OF assms])
  qed
  then show ?thesis by (simp add: index_sends_lookup[OF winners_hashes[OF assms]])
qed

section \<open>The outcome depends on the set of blocks only\<close>

text \<open>The winners and the sends do not depend on the order of the visits.\<close>

definition visited_winners :: "hash_orders \<Rightarrow> block list \<Rightarrow> (block_key, block) hmap" where
  "visited_winners H bs = fst (pick_winners (ho_groups H (group_blocks bs)))"

lemma visited_winners:
  assumes "hash_orders_ok H"
  shows "map_of (visited_winners H bs) = map_of (winners_of bs)" and "hm_wf (visited_winners H bs)"
    and "distinct (map b_hash bs) \<Longrightarrow>
      map_of (index_sends (ho_winners H (visited_winners H bs))) = map_of (index_sends (winners_of bs))"
proof -
  note groups = visited[OF group_blocks_wf[of bs] hash_orders_okD(1)[OF assms]]
  show win: "map_of (visited_winners H bs) = map_of (winners_of bs)"
    by (rule ext) (simp add: visited_winners_def winners_of_def winners_lookup[OF groups(1)]
        winners_lookup[OF group_blocks_wf] groups(2))
  show wf: "hm_wf (visited_winners H bs)" by (simp add: visited_winners_def winners_wf)
  assume d: "distinct (map b_hash bs)"
  let ?w = "winners_of bs" and ?v = "ho_winners H (visited_winners H bs)"
  have wf0: "hm_wf ?w" by (simp add: winners_of_def winners_wf)
  note vis = visited[OF wf hash_orders_okD(2)[OF assms]]
  have sets: "set ?v = set ?w"
    using map_of_inject_set[of ?v ?w] vis(1,2) wf0 win by (simp add: hm_wf_def)
  have "inj_on (\<lambda>e. b_hash (snd e)) (set ?w)" using winners_hashes[OF d] by (simp only: distinct_map)
  moreover have "distinct ?v" using vis(1) by (simp add: hm_wf_def distinct_map)
  ultimately have dv: "distinct (map (\<lambda>e. b_hash (snd e)) ?v)" unfolding distinct_map sets by simp
  have opt: "x = y" if "\<And>b. x = Some b \<longleftrightarrow> y = Some b" for x y :: "block option"
    using that by (metis option.exhaust)
  show "map_of (index_sends ?v) = map_of (index_sends ?w)"
    by (rule ext, rule opt) (simp only: index_sends_lookup[OF dv] index_sends_lookup[OF winners_hashes[OF d]] sets)
qed

lemma apply_winners_cong:
  "map_of w = map_of w' \<Longrightarrow> map_of s = map_of s' \<Longrightarrow> apply_winners w s ks st = apply_winners w' s' ks st"
proof (induction ks arbitrary: st)
  case (Cons k ks)
  have "apply_winner s b t = apply_winner s' b t" for b t
    by (simp only: apply_winner_def Cons.prems(2))
  moreover have "apply_winners w s ks = apply_winners w' s' ks" using Cons by auto
  ultimately show ?case using Cons.prems(1) by (simp split: option.split)
qed simp

definition ordered_keys :: "block list \<Rightarrow> block_key list" where
  "ordered_keys bs = sort (map fst (group_blocks bs))"

lemma set_ordered_keys: "set (ordered_keys bs) = block_key_of ` set bs"
proof -
  have "k \<in> fst ` set (group_blocks bs) \<longleftrightarrow> k \<in> block_key_of ` set bs" for k
  proof -
    have "k \<in> fst ` set (group_blocks bs) \<longleftrightarrow> map_of (group_blocks bs) k \<noteq> None"
      by (simp only: map_of_eq_None_iff not_not)
    also have "\<dots> \<longleftrightarrow> (\<exists>b \<in> set bs. block_key_of b = k)"
      by (simp add: group_blocks_lookup Let_def filter_empty_conv)
    also have "\<dots> \<longleftrightarrow> k \<in> block_key_of ` set bs"
      unfolding image_iff by (rule bex_cong[OF refl]) (rule eq_commute)
    finally show ?thesis .
  qed
  then have "fst ` set (group_blocks bs) = block_key_of ` set bs" by (rule set_eqI)
  then show ?thesis by (simp add: ordered_keys_def)
qed

lemma visited_keys: "hash_orders_ok H \<Longrightarrow> sort (map fst (ho_groups H (group_blocks bs))) = ordered_keys bs"
  unfolding ordered_keys_def by (rule properties_for_sort) (simp_all add: hash_orders_okD(1) mset_map)

lemma ordered_keys_eq: "set bs = set cs \<Longrightarrow> ordered_keys bs = ordered_keys cs"
proof -
  assume "set bs = set cs"
  then have "set (ordered_keys bs) = set (ordered_keys cs)" by (simp add: set_ordered_keys)
  moreover have "sorted (ordered_keys as) \<and> distinct (ordered_keys as)" for as
    using group_blocks_wf[of as] by (simp add: ordered_keys_def hm_wf_def)
  ultimately show ?thesis by (simp add: sorted_distinct_set_unique)
qed

lemma winners_eq:
  assumes "distinct (map b_hash bs)" "distinct (map b_hash cs)" "set bs = set cs"
  shows "map_of (winners_of bs) = map_of (winners_of cs)"
    and "map_of (index_sends (winners_of bs)) = map_of (index_sends (winners_of cs))"
proof -
  have opt: "x = y" if "\<And>b. x = Some b \<longleftrightarrow> y = Some b" for x y :: "block option"
    using that by (metis option.exhaust)
  show "map_of (winners_of bs) = map_of (winners_of cs)"
  proof
    fix k
    show "map_of (winners_of bs) k = map_of (winners_of cs) k"
      by (rule opt) (simp only: winners_iff[OF assms(1)] winners_iff[OF assms(2)] assms(3))
  qed
  show "map_of (index_sends (winners_of bs)) = map_of (index_sends (winners_of cs))"
  proof
    fix h
    show "map_of (index_sends (winners_of bs)) h = map_of (index_sends (winners_of cs)) h"
      by (rule opt) (simp only: sends_iff[OF assms(1)] sends_iff[OF assms(2)] assms(3))
  qed
qed

text \<open>
  Two outcomes agree when both panic, when both report the same balances, rejections and, in some
  order, the same conflicts, or when both name an account with a negative balance.
\<close>

definition same_report :: "reconciliation_report \<Rightarrow> reconciliation_report \<Rightarrow> bool" where
  "same_report p q \<longleftrightarrow> map_of (rep_balances p) = map_of (rep_balances q) \<and>
     mset (rep_conflicts p) = mset (rep_conflicts q) \<and>
     rep_rejected_receives p = rep_rejected_receives q \<and> rep_rejected_genesis p = rep_rejected_genesis q"

definition negative_error :: "arxia_error \<Rightarrow> bool" where
  "negative_error e \<longleftrightarrow> (case e of NegativeBalance a v \<Rightarrow> v < 0 | _ \<Rightarrow> False)"

definition same_outcome ::
    "(reconciliation_report, arxia_error) result \<Rightarrow> (reconciliation_report, arxia_error) result \<Rightarrow> bool" where
  "same_outcome r s \<longleftrightarrow>
     (case (r, s) of
        (Ok p, Ok q) \<Rightarrow> same_report p q
      | (Err e, Err f) \<Rightarrow> negative_error e \<and> negative_error f
      | (Panic, Panic) \<Rightarrow> True
      | _ \<Rightarrow> False)"

definition group_at :: "block list \<Rightarrow> block_key \<Rightarrow> block list" where
  "group_at bs k = filter (\<lambda>b. block_key_of b = k) bs"

text \<open>The conflicts, listed by position.\<close>

lemma conflicts_mset:
  assumes "hash_orders_ok H"
  shows "mset (snd (pick_winners (ho_groups H (group_blocks bs)))) =
    mset (concat (map (\<lambda>k. conflict_of k (group_at bs k)) (ordered_keys bs)))"
proof -
  let ?m = "ho_groups H (group_blocks bs)" and ?f = "\<lambda>k. conflict_of k (group_at bs k)"
  note groups = visited[OF group_blocks_wf[of bs] hash_orders_okD(1)[OF assms]]
  have "(case e of (k, g) \<Rightarrow> conflict_of k g) = ?f (fst e)" if mem: "e \<in> set ?m" for e
  proof -
    obtain k g where e: "e = (k, g)" by (cases e)
    have "map_of (group_blocks bs) k = Some g"
      using mem unfolding groups(3) e by (simp only: hm_mem_iff[OF group_blocks_wf])
    then show ?thesis by (simp add: e group_blocks_lookup group_at_def Let_def split: if_splits)
  qed
  then have maps: "map (\<lambda>(k, g). conflict_of k g) ?m = map (?f \<circ> fst) ?m" by (intro map_cong) auto
  have "snd (pick_winners ?m) = concat (map ?f (map fst ?m))"
    unfolding pick_winners_def snd_conv maps map_map ..
  moreover have "mset (concat (map ?f xs)) = (\<Sum>k\<in>#mset xs. mset (?f k))" for xs
    by (induction xs) simp_all
  moreover have "mset (map fst ?m) = mset (ordered_keys bs)"
    using hash_orders_okD(1)[OF assms, of "group_blocks bs"] by (simp add: ordered_keys_def mset_map)
  ultimately show ?thesis by metis
qed

lemma conflict_of_eq:
  assumes "distinct (map b_hash g)" "distinct (map b_hash h)" "set g = set h"
  shows "conflict_of k g = conflict_of k h"
proof -
  have m: "mset g = mset h"
    using assms by (simp add: distinct_map set_eq_iff_mset_eq_distinct)
  have "inj_on b_hash (set g)" using assms(1) by (simp add: distinct_map)
  then have s: "sort_key b_hash g = sort_key b_hash h"
    using m by (intro sort_key_inj_key_eq) simp_all
  have len: "length g = length h" using m by (rule mset_eq_length)
  have "g ! 0 = h ! 0" if "length g = 1"
    using that len assms(3) by (cases g; cases h) auto
  then have "pick_winner g = pick_winner h" using s len by (simp add: pick_winner_def)
  then show ?thesis using s len by (simp add: conflict_of_def)
qed

lemma conflicts_eq:
  assumes "distinct (map b_hash bs)" "distinct (map b_hash cs)" "set bs = set cs"
    and "hash_orders_ok H" "hash_orders_ok J"
  shows "mset (snd (pick_winners (ho_groups H (group_blocks bs)))) =
    mset (snd (pick_winners (ho_groups J (group_blocks cs))))"
proof -
  have "conflict_of k (group_at bs k) = conflict_of k (group_at cs k)" for k
    unfolding group_at_def using assms(1-3) by (intro conflict_of_eq) (auto simp: distinct_map_filter)
  then show ?thesis using assms by (simp add: conflicts_mset ordered_keys_eq[OF assms(3)])
qed

text \<open>The counters after step 5, which the order of the visits does not change.\<close>

definition applied_counters :: "block list \<Rightarrow> (recon_state, arxia_error) result" where
  "applied_counters bs = apply_winners (winners_of bs) (index_sends (winners_of bs)) (ordered_keys bs)
     \<lparr>rs_crdts = [], rs_rejected_receives = [], rs_rejected_genesis = []\<rparr>"

lemma reconcile_unfold:
  assumes "hash_orders_ok H"
  shows "reconcile_partitions H pa pb =
     (let all = dedup_by_hash {} (pa @ pb) in
      and_then (applied_counters all) (\<lambda>st.
      and_then (materialize (ho_counters H (rs_crdts st)) []) (\<lambda>balances.
        Ok \<lparr>rep_balances = balances, rep_conflicts = snd (pick_winners (ho_groups H (group_blocks all))),
            rep_rejected_receives = rs_rejected_receives st,
            rep_rejected_genesis = rs_rejected_genesis st\<rparr>)))"
proof -
  let ?all = "dedup_by_hash {} (pa @ pb)"
  have "apply_winners (visited_winners H ?all) (index_sends (ho_winners H (visited_winners H ?all)))
      (ordered_keys ?all) st = apply_winners (winners_of ?all) (index_sends (winners_of ?all)) (ordered_keys ?all) st" for st
    by (rule apply_winners_cong) (simp_all add: visited_winners[OF assms] dedup_distinct)
  then show ?thesis
    by (simp add: reconcile_partitions_def applied_counters_def visited_winners_def visited_keys[OF assms] Let_def split_def)
qed

lemma applied_counters_eq:
  assumes "distinct (map b_hash bs)" "distinct (map b_hash cs)" "set bs = set cs"
  shows "applied_counters bs = applied_counters cs"
  unfolding applied_counters_def ordered_keys_eq[OF assms(3)] by (rule apply_winners_cong) (rule winners_eq[OF assms])+

text \<open>Step 5 fails only by a panic, and leaves one counter per account.\<close>

lemma apply_winner_no_error: "apply_winner sends b st \<noteq> Err e"
  by (simp add: apply_winner_def update_counter_def first8_def reject_receive_def
      split: block_type.split option.split)

lemma applied_counters_no_error: "applied_counters bs \<noteq> Err e"
proof -
  have "apply_winners w sends ks st \<noteq> Err e" for w sends ks st
    by (induction ks arbitrary: st) (auto simp: outcome_simps apply_winner_no_error split: option.split)
  then show ?thesis by (simp add: applied_counters_def)
qed

definition crdts_wf :: "recon_state \<Rightarrow> bool" where
  "crdts_wf st \<longleftrightarrow> hm_wf (rs_crdts st)"

lemma apply_winners_wf: "crdts_wf st \<Longrightarrow> apply_winners w sends ks st = Ok st' \<Longrightarrow> crdts_wf st'"
proof (induction ks arbitrary: st)
  case (Cons k ks)
  have "crdts_wf st2" if "apply_winner sends b st = Ok st2" for b st2
    using that Cons.prems(1)
    by (auto simp: apply_winner_def crdts_wf_def update_counter_def reject_receive_def outcome_simps
        split: block_type.splits option.splits if_splits)
  then show ?case using Cons by (auto simp: outcome_simps split: option.splits)
qed simp

lemma applied_counters_wf: "applied_counters bs = Ok st \<Longrightarrow> hm_wf (rs_crdts st)"
  using apply_winners_wf[of "\<lparr>rs_crdts = [], rs_rejected_receives = [], rs_rejected_genesis = []\<rparr>"]
  by (simp add: applied_counters_def crdts_wf_def)

text \<open>Step 6 succeeds when no counter is negative and otherwise names a negative one.\<close>

lemma materialize_Ok:
  "materialize cs acc = Ok balances \<Longrightarrow> distinct (map fst cs) \<Longrightarrow>
    (\<forall>c \<in> snd ` set cs. 0 \<le> pn_value c) \<and>
    map_of balances a = (case map_of cs a of None \<Rightarrow> map_of acc a | Some c \<Rightarrow> Some (pn_value c))"
proof (induction cs acc rule: materialize.induct)
  case (2 account counter cs acc)
  then have "map_of cs account = None" by (simp add: map_of_eq_None_iff)
  then show ?case using 2 by (auto simp: Let_def split: if_splits option.splits)
qed simp

lemma materialize_cases:
  "(\<exists>balances. materialize cs acc = Ok balances) \<and> (\<forall>c \<in> snd ` set cs. 0 \<le> pn_value c) \<or>
   (\<exists>a c. materialize cs acc = Err (NegativeBalance a (pn_value c)) \<and> (a, c) \<in> set cs \<and> pn_value c < 0)"
  by (induction cs acc rule: materialize.induct) (auto simp: Let_def)

lemma materialize_visited:
  assumes "hm_wf cs" "mset xs = mset cs" "mset ys = mset cs"
  obtains (total) b d where "materialize xs [] = Ok b" "materialize ys [] = Ok d" "map_of b = map_of d"
  | (negative) e f where "materialize xs [] = Err e" "materialize ys [] = Err f" "negative_error e" "negative_error f"
proof -
  note x = visited[OF assms(1,2)] and y = visited[OF assms(1,3)]
  show thesis
  proof (cases "\<forall>c \<in> snd ` set cs. 0 \<le> pn_value c")
    case True
    then obtain b d where bd: "materialize xs [] = Ok b" "materialize ys [] = Ok d"
      using materialize_cases[of xs "[]"] materialize_cases[of ys "[]"] x(3) y(3) by force
    have "map_of b a = map_of d a" for a
      using materialize_Ok[OF bd(1), of a] materialize_Ok[OF bd(2), of a] x(1,2) y(1,2) by (simp add: hm_wf_def)
    then show thesis using total bd by blast
  next
    case False
    then obtain a c a' c' where "materialize xs [] = Err (NegativeBalance a (pn_value c))" "pn_value c < 0"
      "materialize ys [] = Err (NegativeBalance a' (pn_value c'))" "pn_value c' < 0"
      using materialize_cases[of xs "[]"] materialize_cases[of ys "[]"] x(3) y(3) by force
    then show thesis by (intro negative) (auto simp: negative_error_def)
  qed
qed

lemma reconcile_set:
  assumes orders: "hash_orders_ok H" "hash_orders_ok J"
    and inj: "inj_on b_hash (set pa \<union> set pb)" and sets: "set pa \<union> set pb = set pc \<union> set pd"
  shows "same_outcome (reconcile_partitions H pa pb) (reconcile_partitions J pc pd)"
    and "reconcile_partitions H pa pb = Err e \<longleftrightarrow> reconcile_partitions H pc pd = Err e"
proof -
  let ?x = "dedup_by_hash {} (pa @ pb)" and ?y = "dedup_by_hash {} (pc @ pd)"
  have d: "distinct (map b_hash ?x)" "distinct (map b_hash ?y)" by (rule dedup_distinct)+
  have same: "set ?x = set ?y" using inj sets by (simp add: dedup_set)
  note conflicts = conflicts_eq[OF d same orders] and applied = applied_counters_eq[OF d same]
  show "reconcile_partitions H pa pb = Err e \<longleftrightarrow> reconcile_partitions H pc pd = Err e"
    using applied_counters_no_error[of ?y]
    by (cases "applied_counters ?y")
      (auto simp: reconcile_unfold[OF orders(1)] Let_def applied outcome_simps)
  show "same_outcome (reconcile_partitions H pa pb) (reconcile_partitions J pc pd)"
  proof (cases "applied_counters ?y")
    case (Ok st)
    note wf = applied_counters_wf[OF Ok]
    show ?thesis
      by (rule materialize_visited[OF wf hash_orders_okD(3)[OF orders(1)] hash_orders_okD(3)[OF orders(2)]])
        (simp_all add: reconcile_unfold[OF orders(1)] reconcile_unfold[OF orders(2)] Let_def applied Ok
          same_outcome_def same_report_def conflicts)
  next
    case (Err e)
    then show ?thesis using applied_counters_no_error by blast
  next
    case Panic
    then show ?thesis
      by (simp add: reconcile_unfold[OF orders(1)] reconcile_unfold[OF orders(2)] Let_def applied same_outcome_def)
  qed
qed

section \<open>What the balances are\<close>

text \<open>What one winning block credits to and debits from its account.\<close>

definition credit :: "(string, block) hmap \<Rightarrow> block \<Rightarrow> int" where
  "credit sends b =
     (case b_type b of
        Open x \<Rightarrow> if b_nonce b = 1 then uint x else 0
      | Receive h \<Rightarrow>
          (case map_of sends h of
             Some s \<Rightarrow> (case b_type s of Send d x \<Rightarrow> if d = b_account b then uint x else 0 | _ \<Rightarrow> 0)
           | None \<Rightarrow> 0)
      | _ \<Rightarrow> 0)"

definition debit :: "block \<Rightarrow> int" where
  "debit b = (case b_type b of Send d x \<Rightarrow> uint x | _ \<Rightarrow> 0)"

definition total_for :: "string \<Rightarrow> (block \<Rightarrow> int) \<Rightarrow> block list \<Rightarrow> int" where
  "total_for a f bs = (\<Sum>b\<leftarrow>filter (\<lambda>b. b_account b = a) bs. f b)"

definition counter_of :: "recon_state \<Rightarrow> string \<Rightarrow> pn_counter" where
  "counter_of st a = (case map_of (rs_crdts st) a of None \<Rightarrow> pn_new | Some c \<Rightarrow> c)"

text \<open>One entry per side, under the account's prefix, holding the capped total so far.\<close>

definition single_entry :: "string \<Rightarrow> int \<Rightarrow> (string, u64) btree \<Rightarrow> bool" where
  "single_entry sid t m \<longleftrightarrow>
     (m = [] \<and> t = 0 \<or> (\<exists>x. m = [(sid, x)] \<and> uint x = min t (2 ^ 64 - 1))) \<and> 0 \<le> t"

definition counters_ok :: "recon_state \<Rightarrow> (block \<Rightarrow> int) \<Rightarrow> block list \<Rightarrow> bool" where
  "counters_ok st cr bs \<longleftrightarrow>
     (\<forall>a. single_entry (take 8 a) (total_for a cr bs) (pn_p (counter_of st a)) \<and>
          single_entry (take 8 a) (total_for a debit bs) (pn_n (counter_of st a)))"

lemma uint_saturating_add: "uint (saturating_add x y :: u64) = min (uint x + uint y) (2 ^ 64 - 1)"
proof -
  have "int (unat (saturating_add x y)) = min (int (unat x) + int (unat y)) (2 ^ 64 - 1)"
    by (simp only: unat_saturating_add of_nat_min) simp
  then show ?thesis by simp
qed

lemma single_entry_add:
  "single_entry sid t m \<Longrightarrow> single_entry sid (t + uint x) (bt_entry sid 0 (\<lambda>e. saturating_add e x) m)"
proof -
  assume m: "single_entry sid t m"
  have x: "0 \<le> uint x" "uint x < 2 ^ 64" using uint_lt2p[of x] by simp_all
  show "single_entry sid (t + uint x) (bt_entry sid 0 (\<lambda>e. saturating_add e x) m)"
  proof (cases "m = []")
    case True
    then have "t = 0" using m by (simp add: single_entry_def)
    then show ?thesis using x True by (simp add: single_entry_def bt_entry_def)
  next
    case False
    then obtain y where y: "m = [(sid, y)]" "uint y = min t (2 ^ 64 - 1)" "0 \<le> t"
      using m by (auto simp: single_entry_def)
    have "min (min t c + u) c = min (t + u) c" if "0 \<le> u" for u c :: int
      using that by (simp add: min_def)
    then have "uint (saturating_add y x) = min (t + uint x) (2 ^ 64 - 1)"
      unfolding uint_saturating_add y(2) using x(1) by blast
    then show ?thesis using x y(1,3) by (simp add: single_entry_def bt_entry_def)
  qed
qed

lemma entry_total_single: "single_entry sid t m \<Longrightarrow> entry_total m = min t (2 ^ 64 - 1)"
  by (auto simp: single_entry_def entry_total_def)

lemma first8_Ok: "first8 a = Ok s \<Longrightarrow> s = take 8 a"
  by (auto simp: first8_def str_prefix_def split: option.splits if_splits)

lemma apply_winner_counters:
  assumes ok: "counters_ok st (credit sends) bs" and r: "apply_winner sends b st = Ok st'"
  shows "counters_ok st' (credit sends) (bs @ [b])"
proof -
  have zero: "counters_ok st2 (credit sends) (bs @ [b])"
    if "credit sends b = 0" "debit b = 0" "rs_crdts st2 = rs_crdts st" for st2
    using ok that by (simp add: counters_ok_def total_for_def counter_of_def)
  have inc: "counters_ok st2 (credit sends) (bs @ [b])"
    if "update_counter b pn_increment x st = Ok st2" "credit sends b = uint x" "debit b = 0" for x st2
    using ok that
    by (auto simp: counters_ok_def total_for_def counter_of_def update_counter_def outcome_simps
        map_of_hm_entry pn_increment_def single_entry_add dest!: first8_Ok)
  have dec: "counters_ok st2 (credit sends) (bs @ [b])"
    if "update_counter b pn_decrement x st = Ok st2" "credit sends b = 0" "debit b = uint x" for x st2
    using ok that
    by (auto simp: counters_ok_def total_for_def counter_of_def update_counter_def outcome_simps
        map_of_hm_entry pn_decrement_def single_entry_add dest!: first8_Ok)
  show ?thesis
  proof (cases "b_type b")
    case (Open x)
    then show ?thesis using r inc[of x st'] zero[of st']
      by (auto simp: apply_winner_def credit_def debit_def split: if_splits)
  next
    case (Send d x)
    then show ?thesis using r dec[of x st'] by (simp add: apply_winner_def credit_def debit_def)
  next
    case (Receive h)
    then show ?thesis using r inc[of _ st'] zero[of st']
      by (auto simp: apply_winner_def credit_def debit_def reject_receive_def
          split: option.splits block_type.splits if_splits)
  next
    case (Revoke h)
    then show ?thesis using r zero[of st'] by (simp add: apply_winner_def credit_def debit_def)
  qed
qed

lemma apply_winners_counters:
  "counters_ok st (credit sends) bs \<Longrightarrow> apply_winners w sends ks st = Ok st' \<Longrightarrow>
    counters_ok st' (credit sends) (bs @ map (\<lambda>k. the (map_of w k)) ks)"
proof (induction ks arbitrary: st bs)
  case Nil
  then show ?case by simp
next
  case (Cons k ks)
  obtain b st2 where b: "map_of w k = Some b" "apply_winner sends b st = Ok st2"
    "apply_winners w sends ks st2 = Ok st'"
    using Cons.prems(2) by (auto simp: outcome_simps split: option.splits)
  have "counters_ok st2 (credit sends) (bs @ [b])"
    using apply_winner_counters Cons.prems(1) b(2) by blast
  then show ?case using Cons.IH[of st2 "bs @ [b]"] b by simp
qed

text \<open>The winning blocks, in the order they are applied.\<close>

definition winning_blocks :: "block list \<Rightarrow> block list" where
  "winning_blocks bs = map (\<lambda>k. the (map_of (winners_of bs) k)) (ordered_keys bs)"

lemma winning_blocks_iff:
  assumes "distinct (map b_hash bs)"
  shows "b \<in> set (winning_blocks bs) \<longleftrightarrow> wins (set bs) (block_key_of b) b"
proof -
  have some: "map_of (winners_of bs) k \<noteq> None" if "k \<in> set (ordered_keys bs)" for k
  proof -
    have "filter (\<lambda>b. block_key_of b = k) bs \<noteq> []"
      using that by (auto simp: set_ordered_keys filter_empty_conv)
    then show ?thesis
      by (simp add: winners_of_def winners_lookup[OF group_blocks_wf] group_blocks_lookup)
  qed
  show ?thesis
  proof
    assume "b \<in> set (winning_blocks bs)"
    then obtain k where "k \<in> set (ordered_keys bs)" "b = the (map_of (winners_of bs) k)"
      by (auto simp: winning_blocks_def)
    then have "wins (set bs) k b" using some[of k] winners_iff[OF assms, of k b] by auto
    then show "wins (set bs) (block_key_of b) b" by (simp add: wins_def)
  next
    assume b: "wins (set bs) (block_key_of b) b"
    then have "map_of (winners_of bs) (block_key_of b) = Some b" using winners_iff[OF assms] by blast
    moreover have "block_key_of b \<in> set (ordered_keys bs)"
      using b by (simp add: set_ordered_keys wins_def)
    ultimately show "b \<in> set (winning_blocks bs)"
      unfolding winning_blocks_def set_map by (metis imageI option.sel)
  qed
qed

text \<open>
  A report's balance: the difference of the credits and the debits of the account's winning
  blocks, each total capped at \<open>u64::MAX\<close>, clamped to an \<open>i64\<close>, and never negative.
\<close>

lemma reconcile_balance:
  assumes orders: "hash_orders_ok H"
    and r: "reconcile_partitions H pa pb = Ok rep" and v: "map_of (rep_balances rep) a = Some v"
  defines "all \<equiv> dedup_by_hash {} (pa @ pb)"
  defines "sends \<equiv> index_sends (winners_of all)"
  shows "0 \<le> v \<and> v = min i64_MAX
    (min (total_for a (credit sends) (winning_blocks all)) (2 ^ 64 - 1)
     - min (total_for a debit (winning_blocks all)) (2 ^ 64 - 1))"
proof -
  let ?init = "\<lparr>rs_crdts = [], rs_rejected_receives = [], rs_rejected_genesis = []\<rparr>"
  obtain st where st: "applied_counters all = Ok st"
    "materialize (ho_counters H (rs_crdts st)) [] = Ok (rep_balances rep)"
    using r unfolding reconcile_unfold[OF orders] Let_def and_then_Ok_iff all_def[symmetric] by auto
  have init: "counters_ok ?init (credit sends) []"
    by (simp add: counters_ok_def counter_of_def pn_new_def single_entry_def total_for_def)
  have ok: "counters_ok st (credit sends) (winning_blocks all)"
    using apply_winners_counters[OF init, of "winners_of all" "ordered_keys all" st] st(1)
    by (simp add: winning_blocks_def applied_counters_def sends_def)
  note vis = visited[OF applied_counters_wf[OF st(1)] hash_orders_okD(3)[OF orders]]
  have dist: "distinct (map fst (ho_counters H (rs_crdts st)))" using vis(1) by (simp add: hm_wf_def)
  obtain c where c: "map_of (rs_crdts st) a = Some c" "v = pn_value c"
    using materialize_Ok[OF st(2) dist, of a] v vis(2) by (auto split: option.splits)
  have "c \<in> snd ` set (rs_crdts st)" using map_of_SomeD[OF c(1)] by force
  then have "0 \<le> v" using materialize_Ok[OF st(2) dist] c(2) vis(3) by blast
  moreover have "counter_of st a = c" using c(1) by (simp add: counter_of_def)
  then have "entry_total (pn_p c) = min (total_for a (credit sends) (winning_blocks all)) (2 ^ 64 - 1)"
    "entry_total (pn_n c) = min (total_for a debit (winning_blocks all)) (2 ^ 64 - 1)"
    using ok entry_total_single unfolding counters_ok_def by metis+
  ultimately show ?thesis
    by (simp add: c(2) pn_value_clamped i64_MAX_def i64_MIN_def)
qed

section \<open>Two iteration orders\<close>

definition in_order :: hash_orders where
  "in_order = \<lparr>ho_groups = \<lambda>m. m, ho_winners = \<lambda>m. m, ho_counters = \<lambda>m. m\<rparr>"

definition in_reverse :: hash_orders where
  "in_reverse = \<lparr>ho_groups = rev, ho_winners = rev, ho_counters = rev\<rparr>"

lemma in_order_ok: "hash_orders_ok in_order" and in_reverse_ok: "hash_orders_ok in_reverse"
  by (simp_all add: hash_orders_ok_def in_order_def in_reverse_def)

end
