(* ===== verification/World.thy ===== *)
theory World
  imports Ledger Reconciliation
begin

text \<open>
  Several accounts at work: any number of honest accounts that open, send and receive one another's
  sends through \<open>AccountChain\<close>, with the log of the blocks they produce. The log is what a ledger is
  offered and what two partitions share out; the lemmas say when a log is accepted in full by
  \<open>Ledger::add_block\<close> and what \<open>reconcile_partitions\<close> makes of it.
\<close>

section \<open>Logs of blocks\<close>

definition blocks_of :: "string \<Rightarrow> block list \<Rightarrow> block list" where
  "blocks_of a bs = filter (\<lambda>b. b_account b = a) bs"

text \<open>
  What an honest account adds to the blocks so far: a verified extension of its own chain, an Open
  only as its first block, a Receive only of a logged Send to it that it did not receive before.
\<close>

definition fits_log :: "('sk, 'vk, 'z) arxia_env_scheme \<Rightarrow> block list \<Rightarrow> block \<Rightarrow> bool" where
  "fits_log E hist b \<longleftrightarrow>
     verify_block E b = Ok () \<and> extends_chain (blocks_of (b_account b) hist) b \<and>
     (is_open b \<longrightarrow> blocks_of (b_account b) hist = []) \<and>
     (\<forall>h. b_type b = Receive h \<longrightarrow>
        (\<exists>s \<in> set hist. \<exists>x. b_hash s = h \<and> b_type s = Send (b_account b) x) \<and>
        h \<notin> set (received_sources (blocks_of (b_account b) hist)))"

definition honest_log :: "('sk, 'vk, 'z) arxia_env_scheme \<Rightarrow> block list \<Rightarrow> bool" where
  "honest_log E hist \<longleftrightarrow> (\<forall>m < length hist. fits_log E (take m hist) (hist ! m))"

lemma honest_log_Nil [simp]: "honest_log E []"
  by (simp add: honest_log_def)

lemma honest_log_snoc: "honest_log E (hist @ [b]) \<longleftrightarrow> honest_log E hist \<and> fits_log E hist b"
  by (auto simp: honest_log_def less_Suc_eq nth_append)

lemma blocks_of_simps [simp]:
  "blocks_of a [] = []"
  "blocks_of a (bs @ cs) = blocks_of a bs @ blocks_of a cs"
  "blocks_of a (b # bs) = (if b_account b = a then b # blocks_of a bs else blocks_of a bs)"
  "set (blocks_of a bs) = {b \<in> set bs. b_account b = a}"
  by (auto simp: blocks_of_def)

lemma honest_chain_valid: "honest_log E hist \<Longrightarrow> chain_valid E (blocks_of a hist)"
proof (induction hist rule: rev_induct)
  case Nil
  then show ?case by (simp add: chain_valid_def)
next
  case (snoc b hist)
  then show ?case by (auto simp: honest_log_snoc fits_log_def chain_valid_snoc extends_chain_def)
qed

lemma honest_receive_source:
  "honest_log E hist \<Longrightarrow> b \<in> set hist \<Longrightarrow> b_type b = Receive h \<Longrightarrow>
    \<exists>s \<in> set hist. \<exists>x. b_hash s = h \<and> b_type s = Send (b_account b) x"
  by (induction hist rule: rev_induct) (auto simp: honest_log_snoc fits_log_def)

lemma honest_open_first: "honest_log E hist \<Longrightarrow> b \<in> set hist \<Longrightarrow> is_open b \<Longrightarrow> b_nonce b = 1"
proof (induction hist rule: rev_induct)
  case (snoc c hist)
  have "b_nonce c = 1" if "is_open c"
    using snoc.prems(1) that by (auto simp: honest_log_snoc fits_log_def extends_chain_def genesis_ok_def)
  then show ?case using snoc by (auto simp: honest_log_snoc)
qed simp

text \<open>No two blocks of an honest log have the same account and nonce.\<close>

lemma honest_keys:
  assumes hist: "honest_log E hist" and b: "b \<in> set hist" "c \<in> set hist" "block_key_of b = block_key_of c"
  shows "b = c"
proof -
  let ?chain = "blocks_of (b_account b) hist"
  have "b \<in> set ?chain" "c \<in> set ?chain" using b by (simp_all add: block_key_of_def)
  then obtain i j where i: "i < length ?chain" "?chain ! i = b" and j: "j < length ?chain" "?chain ! j = c"
    unfolding in_set_conv_nth by blast
  have "unat (b_nonce b) = Suc i"
    using chain_valid_nonces[OF honest_chain_valid[OF hist] i(1)] by (simp only: i(2))
  moreover have "unat (b_nonce c) = Suc j"
    using chain_valid_nonces[OF honest_chain_valid[OF hist] j(1)] by (simp only: j(2))
  ultimately have "unat (b_nonce b) = Suc i" "unat (b_nonce c) = Suc j" by blast+
  then show ?thesis using b(3) i j by (simp add: block_key_of_def)
qed

lemma honest_distinct: "honest_log E hist \<Longrightarrow> distinct hist"
proof (induction hist rule: rev_induct)
  case (snoc b hist)
  have "b \<notin> set hist"
  proof
    assume b: "b \<in> set hist"
    let ?chain = "blocks_of (b_account b) (hist @ [b])"
    have chain: "?chain = blocks_of (b_account b) hist @ [b]" by simp
    obtain i where i: "i < length (blocks_of (b_account b) hist)" "blocks_of (b_account b) hist ! i = b"
      using b by (metis (mono_tags, lifting) blocks_of_simps(4) in_set_conv_nth mem_Collect_eq)
    note nonces = chain_valid_nonces[OF honest_chain_valid[OF snoc.prems, of "b_account b"]]
    have "unat (b_nonce b) = Suc i" using nonces[of i] i unfolding chain by (simp add: nth_append)
    moreover have "unat (b_nonce b) = Suc (length (blocks_of (b_account b) hist))"
      using nonces[of "length (blocks_of (b_account b) hist)"] unfolding chain by simp
    ultimately show False using i by simp
  qed
  then show ?case using snoc by (simp add: honest_log_snoc)
qed simp

section \<open>A ledger accepts an honest hist\<close>

text \<open>Offering blocks one after the other, with the results.\<close>

fun offer :: "('sk, 'vk, 'z) arxia_env_scheme \<Rightarrow> block list \<Rightarrow> ledger \<Rightarrow> (unit, arxia_error) result list \<times> ledger" where
  "offer E [] L = ([], L)"
| "offer E (b # bs) L = (let (r, L') = add_block E b L; (rs, L'') = offer E bs L' in (r # rs, L''))"

lemma offer_append:
  "offer E (bs @ cs) L = (let (rs, L') = offer E bs L; (rs', L'') = offer E cs L' in (rs @ rs', L''))"
  by (induction bs arbitrary: L) (simp_all add: Let_def split: prod.split)

definition follows_log :: "ledger \<Rightarrow> block list \<Rightarrow> bool" where
  "follows_log L hist \<longleftrightarrow>
     (\<forall>a. chain_of L a = blocks_of a hist) \<and> unat (lg_total_supply L) = minted hist \<and>
     lg_consumed_sends L = set (received_sources hist) \<and>
     (\<forall>s \<in> set hist. \<forall>d x. b_type s = Send d x \<longrightarrow>
        map_of (lg_send_index L) (b_hash s) = Some \<lparr>si_destination = d, si_amount = x\<rparr>)"

lemma received_sources_iff: "h \<in> set (received_sources bs) \<longleftrightarrow> (\<exists>b \<in> set bs. b_type b = Receive h)"
  by (force simp: received_sources_def split: block_type.splits)

lemma minted_snoc: "minted (hist @ [b]) = minted hist + (case b_type b of Open x \<Rightarrow> unat x | _ \<Rightarrow> 0)"
  by (simp add: minted_def)

text \<open>The source of a new Receive is a logged Send that nobody received before.\<close>

lemma honest_unreceived:
  assumes hist: "honest_log E (hist @ [b])" and inj: "inj_on b_hash (set (hist @ [b]))" and h: "b_type b = Receive h"
  shows "\<exists>s x. s \<in> set hist \<and> b_hash s = h \<and> b_type s = Send (b_account b) x \<and> h \<notin> set (received_sources hist)"
proof -
  obtain s x where s: "s \<in> set hist" "b_hash s = h" "b_type s = Send (b_account b) x"
    "h \<notin> set (received_sources (blocks_of (b_account b) hist))"
    using hist h by (auto simp: honest_log_snoc fits_log_def)
  have "b_account c = b_account b" if c: "c \<in> set hist" "b_type c = Receive h" for c
  proof -
    obtain s' x' where s': "s' \<in> set hist" "b_hash s' = h" "b_type s' = Send (b_account c) x'"
      using honest_receive_source[of E hist c h] hist c by (auto simp: honest_log_snoc)
    then have "s' = s" using inj_onD[OF inj, of s' s] s by simp
    then show ?thesis using s s' by simp
  qed
  then have "h \<notin> set (received_sources hist)" using s(4) by (auto simp: received_sources_iff)
  then show ?thesis using s by blast
qed

lemma honest_source_fits:
  assumes hist: "honest_log E (hist @ [b])" and inj: "inj_on b_hash (set (hist @ [b]))" and L: "follows_log L hist"
  shows "source_fits L b"
  using honest_unreceived[OF hist inj] L by (fastforce simp: source_fits_def follows_log_def)

lemma honest_offer:
  "honest_log E hist \<Longrightarrow> inj_on b_hash (set hist) \<Longrightarrow> minted hist \<le> unat TOTAL_SUPPLY_MICRO_ARX \<Longrightarrow>
    \<exists>L. offer E hist ledger_new = (replicate (length hist) (Ok ()), L) \<and> follows_log L hist"
proof (induction hist rule: rev_induct)
  case Nil
  then show ?case by (simp add: follows_log_def ledger_new_def chain_of_def get_chain_def minted_def received_sources_def)
next
  case (snoc b hist)
  have "inj_on b_hash (set hist)" using snoc.prems(2) by (auto simp: inj_on_def)
  then obtain L where L: "offer E hist ledger_new = (replicate (length hist) (Ok ()), L)" "follows_log L hist"
    using snoc by (auto simp: honest_log_snoc minted_snoc)
  have fits: "fits_log E hist b" using snoc.prems(1) by (simp add: honest_log_snoc)
  have cap: "supply_fits L b"
    using L(2) snoc.prems(3) by (auto simp: supply_fits_def follows_log_def minted_snoc)
  have "add_block E b L = (Ok (), accepted L b)"
    using fits cap honest_source_fits[OF snoc.prems(1,2) L(2)] L(2)
    by (intro add_block_accepts) (simp_all add: fits_log_def follows_log_def)
  moreover have "follows_log (accepted L b) (hist @ [b])"
  proof -
    have "chain_of (accepted L b) a = blocks_of a (hist @ [b])" for a
      using L(2) by (simp add: chain_of_accepted follows_log_def)
    moreover have "unat (lg_total_supply (accepted L b)) = minted (hist @ [b])"
      using L(2) cap snoc.prems(3)
      by (auto simp: accepted_def minted_snoc follows_log_def unat_TOTAL_SUPPLY unat_word_ariths split: block_type.split)
    moreover have "lg_consumed_sends (accepted L b) = set (received_sources (hist @ [b]))"
      using L(2) by (auto simp: accepted_def follows_log_def split: block_type.split)
    moreover have "map_of (lg_send_index (accepted L b)) (b_hash s) = Some \<lparr>si_destination = d, si_amount = x\<rparr>"
      if s: "s \<in> set (hist @ [b])" "b_type s = Send d x" for s d x
    proof (cases "b_hash s = b_hash b")
      case True
      then have "s = b" using inj_onD[OF snoc.prems(2), of s b] s(1) by auto
      then show ?thesis using s(2) by (simp add: accepted_def)
    next
      case False
      then show ?thesis using s L(2) by (auto simp: accepted_def follows_log_def split: block_type.split)
    qed
    ultimately show ?thesis by (simp add: follows_log_def)
  qed
  ultimately show ?case using L(1) by (simp add: offer_append replicate_append_same[symmetric])
qed

section \<open>Reconciling an honest hist\<close>

definition send_table :: "block list \<Rightarrow> (string, block) hmap" where
  "send_table hist = map (\<lambda>b. (b_hash b, b)) (filter is_send hist)"

lemma send_table_lookup:
  "inj_on b_hash (set hist) \<Longrightarrow> map_of (send_table hist) h = Some s \<longleftrightarrow> s \<in> set hist \<and> is_send s \<and> b_hash s = h"
proof (induction hist)
  case (Cons b hist)
  have inj: "inj_on b_hash (set hist)" using Cons.prems by simp
  have same: "c = b" if "c \<in> set hist" "b_hash c = b_hash b" for c
    using inj_onD[OF Cons.prems, of c b] that by simp
  show ?case using Cons.IH[OF inj] same by (auto simp: send_table_def)
qed (simp add: send_table_def)

lemma credit_cong: "map_of s = map_of s' \<Longrightarrow> credit s = credit s'"
  by (rule ext) (auto simp: credit_def split: block_type.split)

lemma total_for_set: "distinct bs \<Longrightarrow> total_for a f bs = (\<Sum>b \<in> {b \<in> set bs. b_account b = a}. f b)"
  by (simp add: total_for_def sum_list_distinct_conv_sum_set)

text \<open>A block that reconciliation applies without a rejection.\<close>

definition applies_clean :: "(string, block) hmap \<Rightarrow> block \<Rightarrow> bool" where
  "applies_clean sends b \<longleftrightarrow>
     (\<exists>sid. first8 (b_account b) = (Ok sid :: (string, arxia_error) result)) \<and>
     (is_open b \<longrightarrow> b_nonce b = 1) \<and>
     (\<forall>h. b_type b = Receive h \<longrightarrow> (\<exists>s x. map_of sends h = Some s \<and> b_type s = Send (b_account b) x))"

lemma apply_winner_clean:
  assumes "applies_clean sends b"
  shows "\<exists>st'. apply_winner sends b st = Ok st' \<and> rs_rejected_receives st' = rs_rejected_receives st \<and>
    rs_rejected_genesis st' = rs_rejected_genesis st \<and>
    (is_open b \<longrightarrow> map_of (rs_crdts st') (b_account b) \<noteq> None) \<and>
    (\<forall>a. map_of (rs_crdts st) a \<noteq> None \<longrightarrow> map_of (rs_crdts st') a \<noteq> None)"
  using assms
  by (auto simp: applies_clean_def apply_winner_def update_counter_def map_of_hm_entry is_open_def
      split: block_type.splits)

lemma apply_winners_clean:
  "\<forall>k \<in> set ks. \<exists>b. map_of w k = Some b \<and> applies_clean sends b \<Longrightarrow>
    \<exists>st'. apply_winners w sends ks st = Ok st' \<and> rs_rejected_receives st' = rs_rejected_receives st \<and>
    rs_rejected_genesis st' = rs_rejected_genesis st \<and>
    (\<forall>k \<in> set ks. is_open (the (map_of w k)) \<longrightarrow> map_of (rs_crdts st') (b_account (the (map_of w k))) \<noteq> None) \<and>
    (\<forall>a. map_of (rs_crdts st) a \<noteq> None \<longrightarrow> map_of (rs_crdts st') a \<noteq> None)"
proof (induction ks arbitrary: st)
  case (Cons k ks)
  obtain b where b: "map_of w k = Some b" "applies_clean sends b" using Cons.prems by auto
  obtain st1 where st1: "apply_winner sends b st = Ok st1" "rs_rejected_receives st1 = rs_rejected_receives st"
    "rs_rejected_genesis st1 = rs_rejected_genesis st"
    "is_open b \<longrightarrow> map_of (rs_crdts st1) (b_account b) \<noteq> None"
    "\<forall>a. map_of (rs_crdts st) a \<noteq> None \<longrightarrow> map_of (rs_crdts st1) a \<noteq> None"
    using apply_winner_clean[OF b(2), of st] by blast
  obtain st2 where "apply_winners w sends ks st1 = Ok st2" "rs_rejected_receives st2 = rs_rejected_receives st1"
    "rs_rejected_genesis st2 = rs_rejected_genesis st1"
    "\<forall>k \<in> set ks. is_open (the (map_of w k)) \<longrightarrow> map_of (rs_crdts st2) (b_account (the (map_of w k))) \<noteq> None"
    "\<forall>a. map_of (rs_crdts st1) a \<noteq> None \<longrightarrow> map_of (rs_crdts st2) a \<noteq> None"
    using Cons.IH[of st1] Cons.prems by auto
  then show ?case using st1 b(1) by (intro exI[of _ st2]) simp
qed simp

lemma materialize_total:
  "\<forall>c \<in> snd ` set cs. 0 \<le> pn_value c \<Longrightarrow> \<exists>balances. materialize cs acc = Ok balances"
  by (induction cs acc rule: materialize.induct) (auto simp: Let_def)

lemma singleton_list: "distinct xs \<Longrightarrow> set xs = {x} \<Longrightarrow> xs = [x]"
  by (cases xs; cases "tl xs") auto

lemma honest_winners:
  assumes hist: "honest_log E hist" and all: "set all = set hist" "distinct (map b_hash all)"
  shows "map_of (winners_of all) k = Some b \<longleftrightarrow> b \<in> set hist \<and> block_key_of b = k"
    and "distinct (winning_blocks all)" and "set (winning_blocks all) = set hist"
    and "hash_orders_ok H \<Longrightarrow> snd (pick_winners (ho_groups H (group_blocks all))) = []"
proof -
  have wins: "wins (set all) k b \<longleftrightarrow> b \<in> set hist \<and> block_key_of b = k" for k b
    using honest_keys[OF hist] all(1) by (auto simp: wins_def)
  show win: "map_of (winners_of all) k = Some b \<longleftrightarrow> b \<in> set hist \<and> block_key_of b = k" for k b
    by (simp add: winners_iff[OF all(2)] wins)
  show "set (winning_blocks all) = set hist"
    using winning_blocks_iff[OF all(2)] wins by auto
  have "distinct (ordered_keys all)" using group_blocks_wf[of all] by (simp add: ordered_keys_def hm_wf_def)
  moreover have "inj_on (\<lambda>k. the (map_of (winners_of all) k)) (set (ordered_keys all))"
  proof (rule inj_onI)
    fix j k
    assume "j \<in> set (ordered_keys all)" "k \<in> set (ordered_keys all)"
      and same: "the (map_of (winners_of all) j) = the (map_of (winners_of all) k)"
    then obtain b c where b: "b \<in> set hist" "j = block_key_of b" "c \<in> set hist" "k = block_key_of c"
      using all(1) unfolding set_ordered_keys by auto
    then have "map_of (winners_of all) j = Some b" "map_of (winners_of all) k = Some c" using win by blast+
    then show "j = k" using same b by simp
  qed
  ultimately show "distinct (winning_blocks all)" by (simp add: winning_blocks_def distinct_map)
  have single: "filter (\<lambda>b. block_key_of b = k) all = [b]" if "b \<in> set all" "block_key_of b = k" for k b
  proof -
    have "distinct all" using all(2) by (simp add: distinct_map)
    moreover have "set (filter (\<lambda>b. block_key_of b = k) all) = {b}"
      using honest_keys[OF hist] that all(1) by auto
    ultimately show ?thesis by (intro singleton_list) simp_all
  qed
  have none: "conflict_of k (group_at all k) = []" if k: "k \<in> set (ordered_keys all)" for k
  proof -
    obtain b where "b \<in> set all" "block_key_of b = k" using k unfolding set_ordered_keys by blast
    then show ?thesis using single by (simp add: conflict_of_def group_at_def)
  qed
  assume H: "hash_orders_ok H"
  have "concat (map (\<lambda>k. conflict_of k (group_at all k)) (ordered_keys all)) = []" using none by simp
  then show "snd (pick_winners (ho_groups H (group_blocks all))) = []"
    using conflicts_mset[OF H, of all] by (simp only: mset.simps(1) mset_zero_iff)
qed

text \<open>Reconciliation indexes the sends of the log, applies each of its blocks without a rejection, and
  reads the balances off the counters.\<close>

lemma honest_sends:
  assumes hist: "honest_log E hist" and inj: "inj_on b_hash (set hist)"
    and all: "set all = set hist" "distinct (map b_hash all)"
  shows "map_of (index_sends (winners_of all)) = map_of (send_table hist)"
proof (rule ext)
  fix h
  have "map_of (index_sends (winners_of all)) h = Some s \<longleftrightarrow> map_of (send_table hist) h = Some s" for s
    using sends_iff[OF all(2), of h s] send_table_lookup[OF inj, of h s] honest_keys[OF hist] all(1)
    by (auto simp: wins_def)
  then show "map_of (index_sends (winners_of all)) h = map_of (send_table hist) h" by (metis not_None_eq)
qed

lemma honest_clean:
  assumes hist: "honest_log E hist" and inj: "inj_on b_hash (set hist)" and b: "b \<in> set hist"
    and id: "\<exists>sid. first8 (b_account b) = (Ok sid :: (string, arxia_error) result)"
    and sends: "map_of sends = map_of (send_table hist)"
  shows "applies_clean sends b"
  unfolding applies_clean_def sends
proof (intro conjI allI impI)
  fix h assume "b_type b = Receive h"
  then obtain s x where s: "s \<in> set hist" "b_hash s = h" "b_type s = Send (b_account b) x"
    using honest_receive_source[OF hist b] by blast
  then have "map_of (send_table hist) h = Some s" by (simp add: send_table_lookup[OF inj] is_send_def)
  then show "\<exists>s x. map_of (send_table hist) h = Some s \<and> b_type s = Send (b_account b) x" using s by blast
qed (use id honest_open_first[OF hist] b in blast)+

lemma materialize_values:
  assumes dist: "distinct (map fst (rs_crdts st))" and visit: "mset cs = mset (rs_crdts st)"
    and v: "\<And>a. pn_value (counter_of st a) = min i64_MAX (f a)" and pos: "\<And>a. 0 \<le> f a"
  obtains balances where "materialize cs [] = Ok balances"
    "\<And>a. map_of (rs_crdts st) a \<noteq> None \<Longrightarrow> map_of balances a = Some (min i64_MAX (f a))"
proof -
  have "\<forall>c \<in> snd ` set (rs_crdts st). 0 \<le> pn_value c"
  proof
    fix c assume "c \<in> snd ` set (rs_crdts st)"
    then obtain a where "(a, c) \<in> set (rs_crdts st)" by auto
    then have "c = counter_of st a" using dist by (simp add: counter_of_def)
    then show "0 \<le> pn_value c" using v[of a] pos[of a] by (simp add: i64_MAX_def)
  qed
  moreover note vis = visited[OF _ visit, unfolded hm_wf_def, OF dist]
  ultimately obtain balances where bal: "materialize cs [] = Ok balances" using materialize_total[of cs "[]"] by auto
  have "map_of balances a = Some (min i64_MAX (f a))" if "map_of (rs_crdts st) a \<noteq> None" for a
    using materialize_Ok[OF bal vis(1), of a] vis(2) v[of a] that by (auto simp: counter_of_def)
  then show thesis using that bal by blast
qed

text \<open>
  Reconciling an honest log, however it is split: nothing is rejected or conflicts, and every
  account's balance is what it was credited less what it was debited.
\<close>

lemma honest_reconciles:
  assumes orders: "hash_orders_ok H"
    and hist: "honest_log E hist" and inj: "inj_on b_hash (set hist)" and parts: "set pa \<union> set pb = set hist"
    and ids: "\<And>b. b \<in> set hist \<Longrightarrow> \<exists>sid. first8 (b_account b) = (Ok sid :: (string, arxia_error) result)"
    and bound: "\<And>a. total_for a (credit (send_table hist)) hist < 2 ^ 64"
    and funds: "\<And>a. total_for a debit hist \<le> total_for a (credit (send_table hist)) hist"
  shows "\<exists>rep. reconcile_partitions H pa pb = Ok rep \<and> rep_conflicts rep = [] \<and>
    rep_rejected_receives rep = [] \<and> rep_rejected_genesis rep = [] \<and>
    (\<forall>a. blocks_of a hist \<noteq> [] \<longrightarrow> map_of (rep_balances rep) a =
      Some (min i64_MAX (total_for a (credit (send_table hist)) hist - total_for a debit hist)))"
proof -
  define all where "all = dedup_by_hash {} (pa @ pb)"
  define sends where "sends = index_sends (winners_of all)"
  let ?w = "winners_of all" and ?init = "\<lparr>rs_crdts = [], rs_rejected_receives = [], rs_rejected_genesis = []\<rparr>"
  have all: "set all = set hist" "distinct (map b_hash all)"
    using inj dedup_set[of "pa @ pb"] by (simp_all add: all_def parts dedup_distinct)
  note win = honest_winners[OF hist all]
  have sends: "map_of sends = map_of (send_table hist)" unfolding sends_def by (rule honest_sends[OF hist inj all])
  have clean: "\<forall>k \<in> set (ordered_keys all). \<exists>b. map_of ?w k = Some b \<and> applies_clean sends b"
    using honest_clean[OF hist inj _ _ sends] ids win(1) all(1) unfolding set_ordered_keys by blast
  obtain st where st: "apply_winners ?w sends (ordered_keys all) ?init = Ok st"
    "rs_rejected_receives st = []" "rs_rejected_genesis st = []"
    "\<forall>k \<in> set (ordered_keys all). is_open (the (map_of ?w k)) \<longrightarrow> map_of (rs_crdts st) (b_account (the (map_of ?w k))) \<noteq> None"
    using apply_winners_clean[OF clean, of ?init] by auto
  have total: "total_for a f (winning_blocks all) = total_for a f hist" for a f
    using win(2,3) honest_distinct[OF hist] by (simp add: total_for_set)
  have "counters_ok ?init (credit sends) []"
    by (simp add: counters_ok_def counter_of_def pn_new_def single_entry_def total_for_def)
  from apply_winners_counters[OF this st(1)] have "counters_ok st (credit sends) (winning_blocks all)"
    by (simp add: winning_blocks_def)
  then have counter: "entry_total (pn_p (counter_of st a)) = total_for a (credit (send_table hist)) hist \<and>
      entry_total (pn_n (counter_of st a)) = total_for a debit hist" for a
    using entry_total_single bound[of a] funds[of a] unfolding counters_ok_def total credit_cong[OF sends]
    by (smt (verit, ccfv_threshold))
  have v: "pn_value (counter_of st a) =
      min i64_MAX (total_for a (credit (send_table hist)) hist - total_for a debit hist)" for a
    using bound[of a] funds[of a] by (simp add: pn_value_clamped counter i64_MIN_def i64_MAX_def)
  have run: "applied_counters all = Ok st" using st(1) by (simp add: applied_counters_def sends_def)
  then have dist: "distinct (map fst (rs_crdts st))" using applied_counters_wf by (simp add: hm_wf_def)
  obtain balances where bal: "materialize (ho_counters H (rs_crdts st)) [] = Ok balances"
    "\<And>a. map_of (rs_crdts st) a \<noteq> None \<Longrightarrow> map_of balances a =
      Some (min i64_MAX (total_for a (credit (send_table hist)) hist - total_for a debit hist))"
    by (rule materialize_values[OF dist hash_orders_okD(3)[OF orders] v]) (simp_all add: funds)
  have "map_of (rs_crdts st) a \<noteq> None" if "blocks_of a hist \<noteq> []" for a
  proof -
    let ?g = "hd (blocks_of a hist)"
    have "is_open ?g" using honest_chain_valid[OF hist, of a] that
      by (auto simp: chain_valid_def genesis_ok_def split: list.splits)
    moreover have g: "?g \<in> set hist" "b_account ?g = a" using hd_in_set[OF that] by simp_all
    moreover have "map_of ?w (block_key_of ?g) = Some ?g" "block_key_of ?g \<in> set (ordered_keys all)"
      using win(1) g(1) all(1) unfolding set_ordered_keys by auto
    ultimately show ?thesis using st(4) by fastforce
  qed
  then show ?thesis
    using st(2,3) run bal win(4)[OF orders] by (simp add: reconcile_unfold[OF orders] all_def[symmetric])
qed

end
