(* ===== verification/Participants.thy ===== *)
theory Participants
  imports World
begin

text \<open>
  Honest participants: accounts that share a vector clock and call \<open>open\<close>, \<open>send\<close> and \<open>receive\<close> of
  \<open>AccountChain\<close> in any interleaving, receiving only sends that were produced. The invariant ties every
  account to the log: its chain is its part of the log, the log is honest in the sense of \<open>World\<close>, and
  its balance is what the log credits it less what it debits.
\<close>

section \<open>Participants and their steps\<close>

record ('sk, 'vk) participants =
  pt_accounts :: "('sk, 'vk) account_chain list"
  pt_clock :: vector_clock
  pt_log :: "block list"

definition participants_new :: "('sk, 'vk, 'z) crypto_scheme \<Rightarrow> 'sk list \<Rightarrow> ('sk, 'vk) participants" where
  "participants_new E keys = \<lparr>pt_accounts = map (ac_new E) keys, pt_clock = vc_new, pt_log = []\<rparr>"

text \<open>Account \<open>i\<close> makes a call; the block it returns is logged. At the last nonce it stays silent.\<close>

definition account_call ::
    "nat \<Rightarrow> (('sk, 'vk) account_chain \<Rightarrow> vector_clock \<Rightarrow> ('sk, 'vk) ac_outcome) \<Rightarrow> ('sk, 'vk) participants
      \<Rightarrow> ('sk, 'vk) participants" where
  "account_call i f w =
     (if i < length (pt_accounts w) \<and> ac_nonce (pt_accounts w ! i) \<noteq> - 1
      then let (r, self, vclock) = f (pt_accounts w ! i) (pt_clock w)
           in \<lparr>pt_accounts = (pt_accounts w)[i := self], pt_clock = vclock,
               pt_log = (case r of Ok b \<Rightarrow> pt_log w @ [b] | _ \<Rightarrow> pt_log w)\<rparr>
      else w)"

text \<open>\<open>ReceiveLogged i m\<close>: account \<open>i\<close>, once opened, receives the block logged as number \<open>m\<close>.\<close>

datatype participant_op = OpenAccount nat u64 u64 | SendFrom nat string u64 u64 | ReceiveLogged nat nat u64

fun participants_step ::
    "('sk, 'vk, 'z) arxia_env_scheme \<Rightarrow> participant_op \<Rightarrow> ('sk, 'vk) participants \<Rightarrow> ('sk, 'vk) participants" where
  "participants_step E (OpenAccount i x now) w = account_call i (ac_open E x now) w"
| "participants_step E (SendFrom i dest x now) w = account_call i (ac_send E dest x now) w"
| "participants_step E (ReceiveLogged i m now) w =
     (if m < length (pt_log w) \<and> i < length (pt_accounts w) \<and> ac_chain (pt_accounts w ! i) \<noteq> []
      then account_call i (ac_receive E (pt_log w ! m) now) w else w)"

section \<open>The invariant\<close>

definition flow :: "block list \<Rightarrow> string \<Rightarrow> int" where
  "flow hist a = total_for a (credit (send_table hist)) hist - total_for a debit hist"

definition account_follows ::
    "('sk, 'vk, 'z) arxia_env_scheme \<Rightarrow> block list \<Rightarrow> ('sk, 'vk) account_chain \<Rightarrow> bool" where
  "account_follows E hist a \<longleftrightarrow> ac_ok E a \<and> ac_chain a = blocks_of (ac_public_key_hex a) hist \<and>
     (inj_on b_hash (set hist) \<longrightarrow> uint (ac_balance a) = flow hist (ac_public_key_hex a))"

definition participants_ok ::
    "('sk, 'vk, 'z) arxia_env_scheme \<Rightarrow> string list \<Rightarrow> ('sk, 'vk) participants \<Rightarrow> bool" where
  "participants_ok E ids w \<longleftrightarrow>
     map ac_public_key_hex (pt_accounts w) = ids \<and> distinct ids \<and> honest_log E (pt_log w) \<and>
     (\<forall>b \<in> set (pt_log w). b_account b \<in> set ids) \<and>
     (\<forall>a \<in> set (pt_accounts w). account_follows E (pt_log w) a)"

text \<open>A new block leaves the credits of the earlier ones as they were.\<close>

lemma credit_extend:
  assumes hist: "honest_log E hist" and inj: "inj_on b_hash (set (hist @ [b]))" and c: "c \<in> set hist"
  shows "credit (send_table (hist @ [b])) c = credit (send_table hist) c"
proof (cases "b_type c")
  case (Receive h)
  then obtain s x where s: "s \<in> set hist" "b_hash s = h" "b_type s = Send (b_account c) x"
    using honest_receive_source[OF hist c] by blast
  have old: "inj_on b_hash (set hist)" using inj by (auto simp: inj_on_def)
  have "map_of (send_table hist) h = Some s" "map_of (send_table (hist @ [b])) h = Some s"
    using s by (simp_all only: send_table_lookup[OF old] send_table_lookup[OF inj]) (simp_all add: is_send_def)
  then show ?thesis using Receive by (simp add: credit_def)
qed (simp_all add: credit_def)

lemma flow_snoc:
  assumes hist: "honest_log E hist" and inj: "inj_on b_hash (set (hist @ [b]))"
  shows "flow (hist @ [b]) a =
    flow hist a + (if b_account b = a then credit (send_table (hist @ [b])) b - debit b else 0)"
proof -
  have "total_for a (credit (send_table (hist @ [b]))) hist = total_for a (credit (send_table hist)) hist"
    unfolding total_for_def using credit_extend[OF hist inj]
    by (intro arg_cong[where f = sum_list] map_cong) auto
  then show ?thesis by (simp add: flow_def total_for_def)
qed

text \<open>The step of one account that logs a block.\<close>

lemma account_logs:
  assumes ok: "participants_ok E ids w" and i: "i < length (pt_accounts w)" and a: "a = pt_accounts w ! i"
    and a': "ac_ok E a'" "ac_public_key_hex a' = ac_public_key_hex a" "ac_chain a' = ac_chain a @ [b]"
    and b: "fits_log E (pt_log w) b" "b_account b = ac_public_key_hex a"
    and bal: "inj_on b_hash (set (pt_log w @ [b])) \<Longrightarrow>
      uint (ac_balance a') = uint (ac_balance a) + credit (send_table (pt_log w @ [b])) b - debit b"
  shows "participants_ok E ids \<lparr>pt_accounts = (pt_accounts w)[i := a'], pt_clock = vc, pt_log = pt_log w @ [b]\<rparr>"
proof -
  let ?hist = "pt_log w"
  have a_in: "a \<in> set (pt_accounts w)" using i a by simp
  have hist: "honest_log E ?hist" and dist: "distinct (map ac_public_key_hex (pt_accounts w))"
    and follows: "\<forall>c \<in> set (pt_accounts w). account_follows E ?hist c"
    using ok by (simp_all add: participants_ok_def)
  have ids: "map ac_public_key_hex ((pt_accounts w)[i := a']) = map ac_public_key_hex (pt_accounts w)"
    using i a a'(2) by (simp add: map_update list_update_same_conv)
  have old: "inj_on b_hash (set ?hist)" if "inj_on b_hash (set (?hist @ [b]))" using that by (auto simp: inj_on_def)
  have mine: "account_follows E (?hist @ [b]) a'"
    using follows a_in a' b old bal flow_snoc[OF hist] by (simp add: account_follows_def)
  have others: "account_follows E (?hist @ [b]) c"
    if c: "c \<in> set (pt_accounts w)" "ac_public_key_hex c \<noteq> ac_public_key_hex a" for c
    using follows c b(2) old flow_snoc[OF hist] by (auto simp: account_follows_def)
  have "account_follows E (?hist @ [b]) c" if c: "c \<in> set ((pt_accounts w)[i := a'])" for c
  proof -
    obtain j where j: "j < length (pt_accounts w)" "c = (pt_accounts w)[i := a'] ! j"
      using c unfolding in_set_conv_nth by auto
    show ?thesis
    proof (cases "j = i")
      case True
      then show ?thesis using j mine by simp
    next
      case False
      then have "ac_public_key_hex c \<noteq> ac_public_key_hex a"
        using dist i j a by (metis length_map nth_eq_iff_index_eq nth_list_update_neq nth_map)
      then show ?thesis using others j False by simp
    qed
  qed
  moreover have "b_account b \<in> set ids" using ok a_in b(2) by (auto simp: participants_ok_def)
  ultimately show ?thesis using ok ids hist b(1) by (auto simp: participants_ok_def honest_log_snoc)
qed

text \<open>The part every successful call has in common.\<close>

lemma own_block:
  assumes ok: "participants_ok E ids w" and a: "a \<in> set (pt_accounts w)"
    and a': "ac_ok E a'" "ac_public_key_hex a' = ac_public_key_hex a" "ac_chain a' = ac_chain a @ [b]"
  shows "verify_block E b = Ok ()" "b_account b = ac_public_key_hex a"
    "extends_chain (blocks_of (b_account b) (pt_log w)) b" "ac_chain a = blocks_of (b_account b) (pt_log w)"
    "ac_consumed_sources a = set (received_sources (ac_chain a))"
proof -
  show acct: "b_account b = ac_public_key_hex a" using a' by (simp add: ac_ok_def)
  have follows: "account_follows E (pt_log w) a" using ok a by (simp add: participants_ok_def)
  then show chain: "ac_chain a = blocks_of (b_account b) (pt_log w)" by (simp add: account_follows_def acct)
  have "chain_valid E (ac_chain a @ [b])" using a' by (simp add: ac_ok_def)
  then show "verify_block E b = Ok ()" "extends_chain (blocks_of (b_account b) (pt_log w)) b"
    unfolding chain[symmetric] by (simp_all add: chain_valid_snoc extends_chain_def)
  show "ac_consumed_sources a = set (received_sources (ac_chain a))"
    using follows by (simp add: account_follows_def ac_ok_def)
qed

text \<open>A refused call changes neither the account nor the log.\<close>

lemma account_refused:
  assumes ok: "participants_ok E ids w" and i: "i < length (pt_accounts w)" "ac_nonce (pt_accounts w ! i) \<noteq> - 1"
    and r: "f (pt_accounts w ! i) (pt_clock w) = (r, pt_accounts w ! i, vc)" "\<not> is_ok r"
  shows "participants_ok E ids (account_call i f w)"
proof -
  have "account_call i f w = w\<lparr>pt_clock := vc\<rparr>"
    using i r by (cases r) (simp_all add: account_call_def)
  then show ?thesis using ok by (simp add: participants_ok_def)
qed

lemma account_accepted:
  assumes i: "i < length (pt_accounts w)" "ac_nonce (pt_accounts w ! i) \<noteq> - 1"
    and r: "f (pt_accounts w ! i) (pt_clock w) = (Ok b, a', vc)"
  shows "account_call i f w = \<lparr>pt_accounts = (pt_accounts w)[i := a'], pt_clock = vc, pt_log = pt_log w @ [b]\<rparr>"
  using i r by (simp add: account_call_def)

lemma participants_open:
  assumes E: "env_laws E" and ok: "participants_ok E ids w"
  shows "participants_ok E ids (account_call i (ac_open E x now) w)"
proof (cases "i < length (pt_accounts w) \<and> ac_nonce (pt_accounts w ! i) \<noteq> - 1")
  case True
  let ?a = "pt_accounts w ! i"
  have a: "?a \<in> set (pt_accounts w)" "ac_ok E ?a"
    using True ok by (simp_all add: participants_ok_def account_follows_def)
  obtain r a' vc' where r: "ac_open E x now ?a (pt_clock w) = (r, a', vc')" by (metis prod_cases3)
  note res = ac_open_result[OF E a(2) r]
  show ?thesis
  proof (cases r)
    case (Ok b)
    have new: "ac_chain ?a = []" "ac_chain a' = ac_chain ?a @ [b]" "genesis_ok b" "b_type b = Open x" "ac_balance a' = x"
      and a': "ac_ok E a'" using res Ok by auto
    note own = own_block[OF ok a(1) a' ac_calls_key(1)[OF r] new(2)]
    have "fits_log E (pt_log w) b" using own(1,3,4) new by (simp add: fits_log_def)
    moreover have "uint (ac_balance ?a) = 0" using a(2) new(1) by (simp add: ac_ok_def)
    ultimately show ?thesis
      unfolding account_accepted[where f = "ac_open E x now", OF conjunct1[OF True] conjunct2[OF True] r[unfolded Ok]]
      using True a' ac_calls_key(1)[OF r] new own(2)
      by (intro account_logs[OF ok]) (simp_all add: credit_def debit_def genesis_ok_def)
  qed (use account_refused[OF ok, of i "ac_open E x now"] True r res in auto)
qed (use ok in \<open>auto simp: account_call_def\<close>)

lemma participants_send:
  assumes E: "env_laws E" and ok: "participants_ok E ids w"
  shows "participants_ok E ids (account_call i (ac_send E dest x now) w)"
proof (cases "i < length (pt_accounts w) \<and> ac_nonce (pt_accounts w ! i) \<noteq> - 1")
  case True
  let ?a = "pt_accounts w ! i"
  have a: "?a \<in> set (pt_accounts w)" "ac_ok E ?a"
    using True ok by (simp_all add: participants_ok_def account_follows_def)
  obtain r a' vc' where r: "ac_send E dest x now ?a (pt_clock w) = (r, a', vc')" by (metis prod_cases3)
  note res = ac_send_result[OF E a(2) r conjunct2[OF True]]
  show ?thesis
  proof (cases r)
    case (Ok b)
    have new: "ac_chain a' = ac_chain ?a @ [b]" "b_type b = Send dest x" "unat (ac_balance a') + unat x = unat (ac_balance ?a)"
      and a': "ac_ok E a'" using res Ok by auto
    note own = own_block[OF ok a(1) a' ac_calls_key(2)[OF r] new(1)]
    have "fits_log E (pt_log w) b" using own(1,3) new(2) by (simp add: fits_log_def is_open_def)
    moreover have "uint (ac_balance a') = uint (ac_balance ?a) - uint x" using arg_cong[OF new(3), of int] by simp
    ultimately show ?thesis
      unfolding account_accepted[where f = "ac_send E dest x now", OF conjunct1[OF True] conjunct2[OF True] r[unfolded Ok]]
      using True a' ac_calls_key(2)[OF r] new own(2)
      by (intro account_logs[OF ok]) (simp_all add: credit_def debit_def)
  qed (use account_refused[OF ok, of i "ac_send E dest x now"] True r res in auto)
qed (use ok in \<open>auto simp: account_call_def\<close>)

lemma participants_receive:
  assumes E: "env_laws E" and ok: "participants_ok E ids w" and m: "m < length (pt_log w)"
    and opened: "i < length (pt_accounts w)" "ac_chain (pt_accounts w ! i) \<noteq> []"
  shows "participants_ok E ids (account_call i (ac_receive E (pt_log w ! m) now) w)"
proof (cases "ac_nonce (pt_accounts w ! i) = - 1")
  case False
  let ?a = "pt_accounts w ! i" and ?s = "pt_log w ! m"
  have a: "?a \<in> set (pt_accounts w)" "ac_ok E ?a"
    using opened ok by (simp_all add: participants_ok_def account_follows_def)
  obtain r a' vc' where r: "ac_receive E ?s now ?a (pt_clock w) = (r, a', vc')" by (metis prod_cases3)
  note res = ac_receive_result[OF E a(2) r False opened(2)]
  show ?thesis
  proof (cases r)
    case (Ok b)
    then obtain x where new: "b_type ?s = Send (ac_public_key_hex ?a) x" "b_hash ?s \<notin> ac_consumed_sources ?a"
      "b_type b = Receive (b_hash ?s)" "ac_chain a' = ac_chain ?a @ [b]"
      "unat (ac_balance a') = unat (ac_balance ?a) + unat x" and a': "ac_ok E a'" using res by auto
    note own = own_block[OF ok a(1) a' ac_calls_key(3)[OF r] new(4)]
    have s: "?s \<in> set (pt_log w)" using m by simp
    then have "fits_log E (pt_log w) b"
      using own new(1-3) by (auto simp: fits_log_def is_open_def)
    moreover have "uint (ac_balance a') = uint (ac_balance ?a) + credit (send_table (pt_log w @ [b])) b - debit b"
      if inj: "inj_on b_hash (set (pt_log w @ [b]))"
    proof -
      have "map_of (send_table (pt_log w @ [b])) (b_hash ?s) = Some ?s"
        using s new(1) by (simp only: send_table_lookup[OF inj]) (simp add: is_send_def)
      moreover have "uint (ac_balance a') = uint (ac_balance ?a) + uint x" using arg_cong[OF new(5), of int] by simp
      ultimately show ?thesis using new(1,3) own(2) by (simp add: credit_def debit_def)
    qed
    ultimately show ?thesis
      unfolding account_accepted[where f = "ac_receive E (pt_log w ! m) now", OF opened(1) False r[unfolded Ok]]
      using opened(1) a' ac_calls_key(3)[OF r] new(4) own(2) by (intro account_logs[OF ok]) simp_all
  qed (use account_refused[OF ok opened(1) False, of "ac_receive E ?s now"] r res in auto)
qed (use ok in \<open>auto simp: account_call_def\<close>)

interpretation participants: state_inv "\<lambda>w. env_laws E \<longrightarrow> participants_ok E ids w" "participants_step E" for E ids
proof
  fix w op assume "env_laws E \<longrightarrow> participants_ok E ids w"
  then show "env_laws E \<longrightarrow> participants_ok E ids (participants_step E op w)"
    by (cases op) (auto simp: participants_open participants_send participants_receive)
qed

lemma participants_new_ok:
  assumes "distinct (map (\<lambda>k. ac_public_key_hex (ac_new E k)) keys)"
  shows "participants_ok E (map (\<lambda>k. ac_public_key_hex (ac_new E k)) keys) (participants_new E keys)"
proof -
  have "account_follows E [] (ac_new E k)" for k
    using ac_new_ok[of E k] by (simp add: account_follows_def flow_def total_for_def ac_new_def Let_def)
  then show ?thesis using assms by (auto simp: participants_ok_def participants_new_def comp_def)
qed

section \<open>Conservation\<close>

text \<open>The sends nobody has received yet.\<close>

definition in_flight :: "block list \<Rightarrow> block set" where
  "in_flight hist = {s \<in> set hist. is_send s \<and> b_hash s \<notin> set (received_sources hist)}"

lemma finite_in_flight [simp]: "finite (in_flight hist)"
  by (simp add: in_flight_def)

lemma in_flight_keeps:
  assumes "\<not> is_send b" "received_sources [b] = []"
  shows "in_flight (hist @ [b]) = in_flight hist"
  using assms by (auto simp: in_flight_def)

lemma honest_conservation:
  "honest_log E hist \<Longrightarrow> inj_on b_hash (set hist) \<Longrightarrow>
    (\<Sum>b\<leftarrow>hist. credit (send_table hist) b - debit b) + (\<Sum>s \<in> in_flight hist. debit s) = int (minted hist)"
proof (induction hist rule: rev_induct)
  case Nil
  then show ?case by (simp add: in_flight_def minted_def)
next
  case (snoc b hist)
  let ?hist = "hist @ [b]" and ?T = "send_table (hist @ [b])"
  have hist: "honest_log E hist" and fits: "fits_log E hist b" using snoc.prems(1) by (simp_all add: honest_log_snoc)
  have inj: "inj_on b_hash (set hist)" using snoc.prems(2) by (auto simp: inj_on_def)
  have "(\<Sum>c\<leftarrow>hist. credit ?T c - debit c) = (\<Sum>c\<leftarrow>hist. credit (send_table hist) c - debit c)"
    using credit_extend[OF hist snoc.prems(2)] by (intro arg_cong[where f = sum_list] map_cong) auto
  then have sums: "(\<Sum>c\<leftarrow>?hist. credit ?T c - debit c) =
      (\<Sum>c\<leftarrow>hist. credit (send_table hist) c - debit c) + (credit ?T b - debit b)" by simp
  have step: "credit ?T b - debit b + (\<Sum>s \<in> in_flight ?hist. debit s) =
      (\<Sum>s \<in> in_flight hist. debit s) + (int (minted ?hist) - int (minted hist))"
  proof (cases "b_type b")
    case (Open x)
    then have "b_nonce b = 1" using honest_open_first[OF snoc.prems(1), of b] by (simp add: is_open_def)
    moreover have "in_flight ?hist = in_flight hist"
      using Open by (intro in_flight_keeps) (simp_all add: is_send_def received_sources_def)
    ultimately show ?thesis using Open by (simp add: credit_def debit_def minted_snoc)
  next
    case (Send d x)
    have "b_hash b \<notin> set (received_sources hist)"
    proof
      assume "b_hash b \<in> set (received_sources hist)"
      then obtain c where "c \<in> set hist" "b_type c = Receive (b_hash b)" by (auto simp: received_sources_iff)
      then obtain s where "s \<in> set hist" "b_hash s = b_hash b" using honest_receive_source[OF hist] by blast
      then have "b \<in> set hist" using inj_onD[OF snoc.prems(2), of s b] by simp
      then show False using honest_distinct[OF snoc.prems(1)] by simp
    qed
    then have "in_flight ?hist = insert b (in_flight hist)"
      using Send by (auto simp: in_flight_def is_send_def)
    moreover have "b \<notin> in_flight hist" using honest_distinct[OF snoc.prems(1)] by (simp add: in_flight_def)
    ultimately show ?thesis using Send by (simp add: credit_def minted_snoc)
  next
    case (Receive h)
    obtain s x where s: "s \<in> set hist" "b_hash s = h" "b_type s = Send (b_account b) x"
      and h: "h \<notin> set (received_sources hist)"
      using honest_unreceived[OF snoc.prems Receive] by blast
    have "map_of ?T h = Some s" using s by (simp add: send_table_lookup[OF snoc.prems(2)] is_send_def)
    then have "credit ?T b = uint x" using Receive s by (simp add: credit_def)
    moreover have "in_flight hist = insert s (in_flight ?hist)" "s \<notin> in_flight ?hist"
      using Receive s h inj_onD[OF inj] by (auto simp: in_flight_def is_send_def)
    moreover have "debit s = uint x" using s by (simp add: debit_def)
    ultimately show ?thesis using Receive by (simp add: debit_def[of b] minted_snoc)
  next
    case (Revoke h)
    then have "in_flight ?hist = in_flight hist"
      by (intro in_flight_keeps) (simp_all add: is_send_def received_sources_def)
    then show ?thesis using Revoke by (simp add: credit_def debit_def minted_snoc)
  qed
  then show ?case using snoc.IH[OF hist inj] sums by simp
qed

end
