(* ===== verification/Gossip.thy ===== *)
theory Gossip
  imports Block Interfaces "HOL-Library.Product_Lexorder"
begin

text \<open>
  Crate \<open>arxia-gossip\<close>: the nonce registry (\<open>nonce_registry.rs\<close>), the messages with their caps
  (\<open>message.rs\<close>), the signed envelope (\<open>signed_message.rs\<close>) and the node with its bounded state
  (\<open>node.rs\<close>). The lemmas: a merge keeps every local entry and reports every disagreement; the
  signed bytes determine the message and the sender; the node's two collections stay within
  their capacities and its order tracker lists exactly the registered keys.
\<close>

section \<open>Nonce registry\<close>

type_synonym nonce_key = "bytes \<times> u64"
type_synonym nonce_registry = "(nonce_key, bytes) btree"

record nonce_conflict =
  nc_key :: nonce_key
  nc_local_hash :: bytes
  nc_remote_hash :: bytes

datatype sync_result = SyncSuccess | SyncMismatch nat | SyncNoNeighbors

fun merge_nonce_registries :: "nonce_registry \<Rightarrow> nonce_registry \<Rightarrow> nonce_conflict list \<times> nonce_registry" where
  "merge_nonce_registries local_r [] = ([], local_r)"
| "merge_nonce_registries local_r ((key, remote_hash) # es) =
     (case map_of local_r key of
        Some local_hash \<Rightarrow>
          if local_hash = remote_hash then merge_nonce_registries local_r es
          else let (cs, l) = merge_nonce_registries local_r es
               in (\<lparr>nc_key = key, nc_local_hash = local_hash, nc_remote_hash = remote_hash\<rparr> # cs, l)
      | None \<Rightarrow> merge_nonce_registries (bt_insert key remote_hash local_r) es)"

definition has_conflict :: "nonce_registry \<Rightarrow> bytes \<Rightarrow> u64 \<Rightarrow> bytes \<Rightarrow> bool" where
  "has_conflict registry account nonce candidate_hash =
     (case map_of registry (account, nonce) of Some h \<Rightarrow> h \<noteq> candidate_hash | None \<Rightarrow> False)"

definition sync_nonces_before_l1 :: "nonce_registry \<Rightarrow> nonce_registry \<Rightarrow> sync_result" where
  "sync_nonces_before_l1 local_r remote =
     (if remote = [] then SyncNoNeighbors
      else
        let mismatches = length (filter (\<lambda>(key, local_hash). map_of remote key \<noteq> Some local_hash) local_r)
              + length (filter (\<lambda>(key, h). map_of local_r key = None) remote)
        in if mismatches = 0 then SyncSuccess else SyncMismatch mismatches)"

lemma merge_wf: "bt_wf l \<Longrightarrow> bt_wf (snd (merge_nonce_registries l es))"
  by (induction l es rule: merge_nonce_registries.induct) (auto split: option.split prod.split)

text \<open>Local entries win, unknown remote ones are added, and the disagreements are reported.\<close>

lemma merge_lookup:
  "bt_wf es \<Longrightarrow> map_of (snd (merge_nonce_registries l es)) k =
     (case map_of l k of Some h \<Rightarrow> Some h | None \<Rightarrow> map_of es k)"
proof (induction l es rule: merge_nonce_registries.induct)
  case (1 l)
  then show ?case by (simp split: option.split)
next
  case (2 l key h es)
  then have "map_of es key = None" "bt_wf es" by (auto simp: bt_wf_Cons map_of_eq_None_iff)
  then show ?case using 2 by (auto split: option.splits prod.splits)
qed

lemma merge_conflicts:
  "bt_wf es \<Longrightarrow> c \<in> set (fst (merge_nonce_registries l es)) \<longleftrightarrow>
     map_of l (nc_key c) = Some (nc_local_hash c) \<and> map_of es (nc_key c) = Some (nc_remote_hash c) \<and>
     nc_local_hash c \<noteq> nc_remote_hash c"
proof (induction l es rule: merge_nonce_registries.induct)
  case (1 l)
  then show ?case by simp
next
  case (2 l key h es)
  have es: "map_of es key = None" "bt_wf es" using "2.prems" by (auto simp: bt_wf_Cons map_of_eq_None_iff)
  have eq: "c = \<lparr>nc_key = key, nc_local_hash = lh, nc_remote_hash = h\<rparr> \<longleftrightarrow>
      nc_key c = key \<and> nc_local_hash c = lh \<and> nc_remote_hash c = h" for lh
    by (cases c) auto
  show ?case
  proof (cases "map_of l key")
    case None
    then show ?thesis using 2(1)[OF None es(2)] es(1) by (cases "nc_key c = key") simp_all
  next
    case (Some lh)
    show ?thesis
    proof (cases "lh = h")
      case True
      then show ?thesis using 2(2)[OF Some True es(2)] Some es(1) by (cases "nc_key c = key") simp_all
    next
      case False
      obtain cs l' where m: "merge_nonce_registries l es = (cs, l')" by force
      have "c \<in> set cs \<longleftrightarrow> map_of l (nc_key c) = Some (nc_local_hash c) \<and>
          map_of es (nc_key c) = Some (nc_remote_hash c) \<and> nc_local_hash c \<noteq> nc_remote_hash c"
        using 2(3)[OF Some False es(2)] m by simp
      moreover have "fst (merge_nonce_registries l ((key, h) # es)) =
          \<lparr>nc_key = key, nc_local_hash = lh, nc_remote_hash = h\<rparr> # cs"
        using Some False m by simp
      ultimately show ?thesis using Some False es(1) eq[of lh] by (cases "nc_key c = key") auto
    qed
  qed
qed

text \<open>Synchronised means equal.\<close>

lemma sync_Success_iff:
  assumes "bt_wf l" "bt_wf r"
  shows "sync_nonces_before_l1 l r = SyncSuccess \<longleftrightarrow> r \<noteq> [] \<and> l = r"
proof -
  have "sync_nonces_before_l1 l r = SyncSuccess \<longleftrightarrow>
      r \<noteq> [] \<and> (\<forall>(k, h) \<in> set l. map_of r k = Some h) \<and> (\<forall>(k, h) \<in> set r. map_of l k \<noteq> None)"
    by (auto simp: sync_nonces_before_l1_def Let_def filter_empty_conv split_def)
  also have "\<dots> \<longleftrightarrow> r \<noteq> [] \<and> l = r"
  proof -
    have "l = r" if a: "\<forall>(k, h) \<in> set l. map_of r k = Some h" and b: "\<forall>(k, h) \<in> set r. map_of l k \<noteq> None"
    proof (rule bt_ext[OF assms], rule ext)
      fix k
      show "map_of l k = map_of r k"
      proof (cases "map_of l k")
        case (Some h)
        then have "(k, h) \<in> set l" by (rule map_of_SomeD)
        then show ?thesis using a Some by fastforce
      next
        case None
        have "map_of r k = None"
        proof (cases "map_of r k")
          case (Some h)
          then have "(k, h) \<in> set r" by (rule map_of_SomeD)
          then show ?thesis using b None by fastforce
        qed
        then show ?thesis using None by simp
      qed
    qed
    moreover have "\<forall>(k, h) \<in> set r. map_of r k = Some h" using bt_mem_iff[OF assms(2)] by blast
    ultimately show ?thesis by fastforce
  qed
  finally show ?thesis .
qed

section \<open>Messages\<close>

definition MAX_BLOCK_ANNOUNCE_BYTES :: nat where "MAX_BLOCK_ANNOUNCE_BYTES = 193 * 64"
definition MAX_BLOCK_ANNOUNCE_HOPS :: u8 where "MAX_BLOCK_ANNOUNCE_HOPS = 16"
definition MAX_NONCE_SYNC_RESPONSE_ENTRIES :: nat where "MAX_NONCE_SYNC_RESPONSE_ENTRIES = 10000"

datatype message_error =
    BlockAnnounceTooLarge nat nat
  | NonceSyncResponseTooLarge nat nat
  | BlockAnnounceHopsExceeded u8 u8

datatype gossip_message =
    BlockAnnounce bytes u8
  | NonceSyncRequest string
  | NonceSyncResponse "(bytes \<times> u64 \<times> bytes) list"
  | Ping string u64

definition message_validate :: "gossip_message \<Rightarrow> (unit, message_error) result" where
  "message_validate m =
     (case m of
        BlockAnnounce block_data hops \<Rightarrow>
          and_then (fail_if (hops > MAX_BLOCK_ANNOUNCE_HOPS)
            (BlockAnnounceHopsExceeded hops MAX_BLOCK_ANNOUNCE_HOPS)) (\<lambda>_.
          fail_if (length block_data > MAX_BLOCK_ANNOUNCE_BYTES)
            (BlockAnnounceTooLarge (length block_data) MAX_BLOCK_ANNOUNCE_BYTES))
      | NonceSyncResponse entries \<Rightarrow>
          fail_if (length entries > MAX_NONCE_SYNC_RESPONSE_ENTRIES)
            (NonceSyncResponseTooLarge (length entries) MAX_NONCE_SYNC_RESPONSE_ENTRIES)
      | NonceSyncRequest _ \<Rightarrow> Ok ()
      | Ping _ _ \<Rightarrow> Ok ())"

definition decrement_hops_for_relay :: "gossip_message \<Rightarrow> bool \<times> gossip_message" where
  "decrement_hops_for_relay m =
     (case m of
        BlockAnnounce block_data hops \<Rightarrow>
          if hops = 0 then (False, m) else (hops - 1 > 0, BlockAnnounce block_data (hops - 1))
      | _ \<Rightarrow> (False, m))"

lemma decrement_hops_less:
  "decrement_hops_for_relay m = (True, m') \<Longrightarrow>
    \<exists>d h. m = BlockAnnounce d h \<and> m' = BlockAnnounce d (h - 1) \<and> h \<noteq> 0 \<and> unat (h - 1) = unat h - 1"
  by (auto simp: decrement_hops_for_relay_def unat_minus_one split: gossip_message.splits if_splits)

definition message_hops :: "gossip_message \<Rightarrow> nat" where
  "message_hops m = (case m of BlockAnnounce d h \<Rightarrow> unat h | _ \<Rightarrow> 0)"

text \<open>Relaying until the helper says stop: the number of nodes that forward an announcement.\<close>

function relay_path :: "gossip_message \<Rightarrow> nat" where
  "relay_path m = (let (go, m') = decrement_hops_for_relay m in if go then Suc (relay_path m') else 0)"
  by pat_completeness auto

termination
proof (relation "measure message_hops", goal_cases)
  case (2 m x go m')
  then have "decrement_hops_for_relay m = (True, m')" by simp
  from decrement_hops_less[OF this] obtain d h where h: "m = BlockAnnounce d h"
    "m' = BlockAnnounce d (h - 1)" "h \<noteq> 0" "unat (h - 1) = unat h - 1" by blast
  then have "0 < unat h" by (simp add: unat_gt_0)
  then show ?case using h by (simp add: message_hops_def)
qed simp

lemma relay_path_bound: "relay_path m \<le> message_hops m - 1"
proof (induction m rule: relay_path.induct)
  case (1 m)
  obtain go m' where m': "decrement_hops_for_relay m = (go, m')" by force
  show ?case
  proof (cases go)
    case False
    then show ?thesis by (subst relay_path.simps) (simp add: m')
  next
    case True
    then have "relay_path m' \<le> message_hops m' - 1" using 1 m' by simp
    moreover have step: "decrement_hops_for_relay m = (True, m')" using m' True by simp
    from decrement_hops_less[OF step] obtain d h where h: "m = BlockAnnounce d h"
      "m' = BlockAnnounce d (h - 1)" "h \<noteq> 0" "unat (h - 1) = unat h - 1" by blast
    moreover have "h - 1 > 0" using m' True h by (simp add: decrement_hops_for_relay_def)
    then have "0 < unat (h - 1)" by (simp add: unat_gt_0 word_gt_0)
    ultimately show ?thesis
      using True m' by (subst relay_path.simps) (simp add: message_hops_def)
  qed
qed

section \<open>The signed envelope\<close>

definition GOSSIP_MESSAGE_DOMAIN :: bytes where
  "GOSSIP_MESSAGE_DOMAIN = str_bytes ''arxia-gossip-msg-v1''"

datatype signed_gossip_message_error =
    InvalidSignatureLength
  | InvalidPublicKey
  | GossipSignatureInvalid
  | MessageInvalid message_error

record signed_gossip_message =
  sg_message :: gossip_message
  sg_sender_pubkey :: bytes
  sg_signature :: bytes

definition len_be :: "'a list \<Rightarrow> bytes" where
  "len_be xs = u64_to_be (of_nat (length xs))"

definition entry_bytes :: "bytes \<times> u64 \<times> bytes \<Rightarrow> bytes" where
  "entry_bytes e = (case e of (h, nonce, account) \<Rightarrow> h @ u64_to_be nonce @ account)"

definition encode_message :: "gossip_message \<Rightarrow> bytes" where
  "encode_message m =
     (case m of
        BlockAnnounce block_data hops \<Rightarrow> [0x01] @ [hops] @ len_be block_data @ block_data
      | NonceSyncRequest frm \<Rightarrow> [0x02] @ len_be frm @ str_bytes frm
      | NonceSyncResponse entries \<Rightarrow> [0x03] @ len_be entries @ concat (map entry_bytes entries)
      | Ping node_id timestamp \<Rightarrow> [0x04] @ u64_to_be timestamp @ len_be node_id @ str_bytes node_id)"

text \<open>The size the buffer is reserved for, beside 64 bytes for the domain and the sender.\<close>

definition estimate_message_size :: "gossip_message \<Rightarrow> nat" where
  "estimate_message_size m =
     (case m of
        BlockAnnounce block_data hops \<Rightarrow> 1 + 1 + 8 + length block_data
      | NonceSyncRequest frm \<Rightarrow> 1 + 8 + length frm
      | NonceSyncResponse entries \<Rightarrow> 1 + 8 + length entries * (32 + 8 + 32)
      | Ping node_id timestamp \<Rightarrow> 1 + 8 + 8 + length node_id)"

definition gossip_canonical_bytes :: "gossip_message \<Rightarrow> bytes \<Rightarrow> bytes" where
  "gossip_canonical_bytes m sender_pubkey = GOSSIP_MESSAGE_DOMAIN @ sender_pubkey @ encode_message m"

definition signed_message_verify ::
    "('sk, 'vk, 'z) crypto_scheme \<Rightarrow> signed_gossip_message \<Rightarrow> (unit, signed_gossip_message_error) result" where
  "signed_message_verify E self =
     and_then (map_err MessageInvalid (message_validate (sg_message self))) (\<lambda>_.
     and_then (fail_if (length (sg_signature self) \<noteq> 64) InvalidSignatureLength) (\<lambda>_.
     and_then (ok_or (to_array 64 (sg_signature self)) InvalidSignatureLength) (\<lambda>sig.
       map_err (\<lambda>e. case e of InvalidKey _ \<Rightarrow> InvalidPublicKey | _ \<Rightarrow> GossipSignatureInvalid)
         (crypto_verify E (sg_sender_pubkey self)
           (gossip_canonical_bytes (sg_message self) (sg_sender_pubkey self)) sig))))"

text \<open>Values a Rust message can have: arrays of 32 bytes, lengths that fit 64 bits.\<close>

definition message_ok :: "gossip_message \<Rightarrow> bool" where
  "message_ok m =
     (case m of
        BlockAnnounce d h \<Rightarrow> length d < 2 ^ 64
      | NonceSyncRequest f \<Rightarrow> length f < 2 ^ 64
      | NonceSyncResponse es \<Rightarrow> length es < 2 ^ 64 \<and> (\<forall>(h, n, a) \<in> set es. length h = 32 \<and> length a = 32)
      | Ping i t \<Rightarrow> length i < 2 ^ 64)"

lemma len_be_eq_iff:
  "length xs < 2 ^ 64 \<Longrightarrow> length ys < 2 ^ 64 \<Longrightarrow> len_be xs = len_be ys \<longleftrightarrow> length xs = length ys"
proof -
  assume "length xs < 2 ^ 64" "length ys < 2 ^ 64"
  then have "unat (of_nat (length xs) :: u64) = length xs" "unat (of_nat (length ys) :: u64) = length ys"
    by (simp_all add: unat_of_nat)
  then show ?thesis unfolding len_be_def by (metis u64_to_be_eq_iff)
qed

lemma length_len_be [simp]: "length (len_be xs) = 8"
  by (simp add: len_be_def)

lemma concat_entries_inj:
  assumes "length es = length fs" "concat (map entry_bytes es) = concat (map entry_bytes fs)"
    "\<forall>(h, n, a) \<in> set es. length h = 32 \<and> length a = 32"
    "\<forall>(h, n, a) \<in> set fs. length h = 32 \<and> length a = 32"
  shows "es = fs"
  using assms by (induction es fs rule: list_induct2) (auto simp: entry_bytes_def)

text \<open>The estimate is exact, so the reserved buffer never grows.\<close>

lemma length_encode_message: "message_ok m \<Longrightarrow> length (encode_message m) = estimate_message_size m"
proof -
  have "\<forall>(h, n, a) \<in> set es. length h = 32 \<and> length a = 32 \<Longrightarrow> length (concat (map entry_bytes es)) = length es * 72" for es
    by (induction es) (auto simp: entry_bytes_def)
  then show "message_ok m \<Longrightarrow> length (encode_message m) = estimate_message_size m"
    by (cases m) (simp_all add: encode_message_def estimate_message_size_def message_ok_def)
qed

lemma gossip_buffer_fits:
  "message_ok m \<Longrightarrow> length pk = 32 \<Longrightarrow> length (gossip_canonical_bytes m pk) = estimate_message_size m + 51"
  by (simp add: gossip_canonical_bytes_def length_encode_message GOSSIP_MESSAGE_DOMAIN_def)

text \<open>The signed bytes determine the sender and the message.\<close>

lemma gossip_canonical_inj:
  assumes len: "length pk = 32" "length pk' = 32" and ok: "message_ok m" "message_ok m'"
    and eq: "gossip_canonical_bytes m pk = gossip_canonical_bytes m' pk'"
  shows "m = m' \<and> pk = pk'"
proof -
  have pk: "pk = pk'" and enc: "encode_message m = encode_message m'"
    using eq len by (simp_all add: gossip_canonical_bytes_def)
  have "m = m'"
    using enc ok
    by (cases m; cases m')
      (simp_all add: encode_message_def message_ok_def len_be_eq_iff concat_entries_inj)
  with pk show ?thesis by simp
qed

interpretation gossip_envelope: signed_envelope
  "\<lambda>s. Some (gossip_canonical_bytes (sg_message s) (sg_sender_pubkey s))" "\<lambda>s. Some (sg_sender_pubkey s)"
  sg_signature "\<lambda>s. signed_message_verify E s = Ok ()" "\<lambda>pk m s. crypto_verify E pk m s = Ok ()" for E
  by unfold_locales (auto simp: signed_message_verify_def outcome_simps)

lemma signed_message_verify_valid:
  "signed_message_verify E s = Ok () \<Longrightarrow>
    message_validate (sg_message s) = Ok () \<and> length (sg_signature s) = 64"
  by (auto simp: signed_message_verify_def outcome_simps)

section \<open>The node\<close>

record gossip_node =
  gn_node_id :: string
  gn_known_blocks :: "block list"
  gn_nonce_registry :: nonce_registry
  gn_peers :: "string set"
  gn_pending_conflicts :: "nonce_conflict list"
  gn_order :: "nonce_key list"
  gn_known_blocks_dropped :: u64
  gn_nonce_registry_dropped :: u64
  gn_known_blocks_capacity :: nat
  gn_nonce_registry_capacity :: nat

definition MAX_KNOWN_BLOCKS :: nat where "MAX_KNOWN_BLOCKS = 10000"
definition MAX_NONCE_REGISTRY_ENTRIES :: nat where "MAX_NONCE_REGISTRY_ENTRIES = 10000"

definition gn_with_capacity :: "string \<Rightarrow> nat \<Rightarrow> nat \<Rightarrow> gossip_node" where
  "gn_with_capacity node_id kcap rcap =
     \<lparr>gn_node_id = node_id, gn_known_blocks = [], gn_nonce_registry = [], gn_peers = {},
      gn_pending_conflicts = [], gn_order = [], gn_known_blocks_dropped = 0,
      gn_nonce_registry_dropped = 0, gn_known_blocks_capacity = max kcap 1,
      gn_nonce_registry_capacity = max rcap 1\<rparr>"

definition gn_new :: "string \<Rightarrow> gossip_node" where
  "gn_new node_id = gn_with_capacity node_id MAX_KNOWN_BLOCKS MAX_NONCE_REGISTRY_ENTRIES"

text \<open>The \<open>while let\<close> of \<open>evict_oldest_nonce_entry\<close> over the order tracker.\<close>

fun evict_from :: "nonce_key list \<Rightarrow> nonce_registry \<Rightarrow> bool \<times> nonce_key list \<times> nonce_registry" where
  "evict_from [] registry = (False, [], registry)"
| "evict_from (oldest # order) registry =
     (if map_of registry oldest \<noteq> None then (True, order, bt_remove oldest registry)
      else evict_from order registry)"

definition evict_oldest_nonce_entry :: "gossip_node \<Rightarrow> bool \<times> gossip_node" where
  "evict_oldest_nonce_entry self =
     (let (evicted, order, registry) = evict_from (gn_order self) (gn_nonce_registry self) in
      (evicted, self\<lparr>gn_order := order, gn_nonce_registry := registry,
         gn_nonce_registry_dropped :=
           (if evicted then saturating_add (gn_nonce_registry_dropped self) 1
            else gn_nonce_registry_dropped self)\<rparr>))"

lemma evict_from_shrinks: "evict_from order registry = (True, order', registry') \<Longrightarrow> length order' < length order"
  by (induction order registry rule: evict_from.induct) (auto split: if_splits)

function evict_to_capacity :: "gossip_node \<Rightarrow> gossip_node" where
  "evict_to_capacity self =
     (if length (gn_nonce_registry self) > gn_nonce_registry_capacity self
      then let (evicted, self') = evict_oldest_nonce_entry self
           in if evicted then evict_to_capacity self' else self'
      else self)"
  by pat_completeness auto

termination
proof (relation "measure (\<lambda>self. length (gn_order self))", goal_cases)
  case (2 self x evicted self')
  then show ?case
    by (auto simp: evict_oldest_nonce_entry_def split: prod.splits dest: evict_from_shrinks)
qed simp

declare evict_to_capacity.simps [simp del]

text \<open>The end of \<open>add_block\<close>: drop the oldest block when full, and append.\<close>

definition push_known_block :: "block \<Rightarrow> gossip_node \<Rightarrow> gossip_node" where
  "push_known_block b self =
     (let full = length (gn_known_blocks self) \<ge> gn_known_blocks_capacity self in
      self\<lparr>gn_known_blocks := (if full then drop 1 (gn_known_blocks self) else gn_known_blocks self) @ [b],
           gn_known_blocks_dropped :=
             (if full then saturating_add (gn_known_blocks_dropped self) 1 else gn_known_blocks_dropped self)\<rparr>)"

definition gn_add_block ::
    "('sk, 'vk, 'z) arxia_env_scheme \<Rightarrow> block \<Rightarrow> gossip_node \<Rightarrow> (unit, arxia_error) result \<times> gossip_node" where
  "gn_add_block E b self =
     (case and_then (verify_block E b) (\<lambda>_.
             and_then (map_err SignatureInvalid (hex_decode E (b_hash b))) (\<lambda>h.
             and_then (ok_or (to_array 32 h) HashMismatch) (\<lambda>hash_bytes.
             and_then (map_err InvalidKey (hex_decode E (b_account b))) (\<lambda>a.
             and_then (ok_or (to_array 32 a) (InvalidKey ''bad key length'')) (\<lambda>account_bytes.
               Ok (hash_bytes, account_bytes)))))) of
        Err e \<Rightarrow> (Err e, self)
      | Panic \<Rightarrow> (Panic, self)
      | Ok (hash_bytes, account_bytes) \<Rightarrow>
          let key = (account_bytes, b_nonce b) in
          (case map_of (gn_nonce_registry self) key of
             Some existing \<Rightarrow>
               if existing = hash_bytes then (Ok (), self) else (Err (DoubleSpend (b_nonce b)), self)
           | None \<Rightarrow>
               let self1 = (if length (gn_nonce_registry self) \<ge> gn_nonce_registry_capacity self
                            then snd (evict_oldest_nonce_entry self) else self);
                   self2 = self1\<lparr>gn_nonce_registry := bt_insert key hash_bytes (gn_nonce_registry self1),
                                 gn_order := gn_order self1 @ [key]\<rparr>
               in (Ok (), push_known_block b self2)))"

definition gn_merge_registry :: "nonce_registry \<Rightarrow> gossip_node \<Rightarrow> nonce_conflict list \<times> gossip_node" where
  "gn_merge_registry remote self =
     (let pre_keys = fst ` set (gn_nonce_registry self);
          (conflicts, registry) = merge_nonce_registries (gn_nonce_registry self) remote;
          new_keys = filter (\<lambda>k. k \<notin> pre_keys) (map fst registry);
          self1 = self\<lparr>gn_nonce_registry := registry,
            gn_pending_conflicts := gn_pending_conflicts self @ conflicts,
            gn_order := gn_order self @ new_keys\<rparr>
      in (conflicts, evict_to_capacity self1))"

definition gn_drain_pending_conflicts :: "gossip_node \<Rightarrow> nonce_conflict list \<times> gossip_node" where
  "gn_drain_pending_conflicts self = (gn_pending_conflicts self, self\<lparr>gn_pending_conflicts := []\<rparr>)"

definition gn_check_sync :: "gossip_node \<Rightarrow> nonce_registry \<Rightarrow> sync_result" where
  "gn_check_sync self peer_registry = sync_nonces_before_l1 (gn_nonce_registry self) peer_registry"

definition gn_add_peer :: "string \<Rightarrow> gossip_node \<Rightarrow> gossip_node" where
  "gn_add_peer peer_id self = self\<lparr>gn_peers := insert peer_id (gn_peers self)\<rparr>"

section \<open>The bounds of the node\<close>

text \<open>
  Both collections stay within their capacities, and the order tracker lists exactly the keys of
  the registry, once each, so that eviction always finds a key to drop.
\<close>

definition registry_ok :: "nonce_key list \<Rightarrow> nonce_registry \<Rightarrow> bool" where
  "registry_ok order registry \<longleftrightarrow>
     bt_wf registry \<and> distinct order \<and> set order = fst ` set registry"

definition node_ok :: "gossip_node \<Rightarrow> bool" where
  "node_ok self \<longleftrightarrow>
     registry_ok (gn_order self) (gn_nonce_registry self) \<and>
     0 < gn_known_blocks_capacity self \<and> 0 < gn_nonce_registry_capacity self \<and>
     length (gn_known_blocks self) \<le> gn_known_blocks_capacity self \<and>
     length (gn_nonce_registry self) \<le> gn_nonce_registry_capacity self"

lemma gn_new_ok: "node_ok (gn_with_capacity i k r)"
  by (simp add: node_ok_def gn_with_capacity_def registry_ok_def less_max_iff_disj)

lemma registry_length: "registry_ok order registry \<Longrightarrow> length registry = length order"
proof -
  assume "registry_ok order registry"
  then have "distinct (map fst registry)" "distinct order" "set order = set (map fst registry)"
    by (simp_all add: registry_ok_def bt_wf_distinct)
  then show ?thesis by (metis distinct_card length_map)
qed

lemma keys_bt_remove [simp]: "fst ` set (bt_remove k m) = fst ` set m - {k}"
  by (auto simp: bt_remove_def)

text \<open>On a well-formed node the head of the tracker is evicted at once.\<close>

lemma evict_from_head:
  assumes "registry_ok (k # order) registry"
  shows "evict_from (k # order) registry = (True, order, bt_remove k registry) \<and>
    registry_ok order (bt_remove k registry)"
proof -
  have "k \<in> fst ` set registry" using assms by (auto simp: registry_ok_def)
  then have "map_of registry k \<noteq> None" by (simp only: map_of_eq_None_iff not_not)
  then show ?thesis using assms by (auto simp: registry_ok_def)
qed

lemma registry_insert:
  "registry_ok order registry \<Longrightarrow> map_of registry k = None \<Longrightarrow>
    registry_ok (order @ [k]) (bt_insert k h registry)"
  by (auto simp: registry_ok_def map_of_eq_None_iff)

lemma evict_to_capacity_ok:
  assumes "registry_ok (gn_order self) (gn_nonce_registry self)"
  shows "registry_ok (gn_order (evict_to_capacity self)) (gn_nonce_registry (evict_to_capacity self)) \<and>
    length (gn_nonce_registry (evict_to_capacity self)) \<le> gn_nonce_registry_capacity self \<and>
    gn_nonce_registry_capacity (evict_to_capacity self) = gn_nonce_registry_capacity self \<and>
    gn_known_blocks (evict_to_capacity self) = gn_known_blocks self \<and>
    gn_known_blocks_capacity (evict_to_capacity self) = gn_known_blocks_capacity self"
  using assms
proof (induction self rule: evict_to_capacity.induct)
  case (1 self)
  show ?case
  proof (cases "length (gn_nonce_registry self) > gn_nonce_registry_capacity self")
    case False
    then show ?thesis using "1.prems" by (simp add: evict_to_capacity.simps)
  next
    case True
    then obtain k order where order: "gn_order self = k # order"
      using registry_length[OF "1.prems"] by (cases "gn_order self") auto
    let ?self = "self\<lparr>gn_order := order, gn_nonce_registry := bt_remove k (gn_nonce_registry self),
      gn_nonce_registry_dropped := saturating_add (gn_nonce_registry_dropped self) 1\<rparr>"
    note head = evict_from_head[OF "1.prems"[unfolded order]]
    have evict: "evict_oldest_nonce_entry self = (True, ?self)"
      using head by (simp add: evict_oldest_nonce_entry_def order)
    have "registry_ok (gn_order ?self) (gn_nonce_registry ?self)" using head by simp
    note IH = "1.IH"[OF True evict[symmetric] refl TrueI this]
    have "evict_to_capacity self = evict_to_capacity ?self"
      using True evict by (subst evict_to_capacity.simps) simp
    then show ?thesis using IH by simp
  qed
qed

interpretation known_blocks: drop_oldest_queue gn_known_blocks gn_known_blocks_capacity push_known_block
  by unfold_locales (simp_all add: push_known_block_def Let_def)

lemma evict_oldest_ok:
  assumes ok: "registry_ok (gn_order self) (gn_nonce_registry self)" and ne: "gn_nonce_registry self \<noteq> []"
  shows "\<exists>k order. gn_order self = k # order \<and> evict_oldest_nonce_entry self =
    (True, self\<lparr>gn_order := order, gn_nonce_registry := bt_remove k (gn_nonce_registry self),
      gn_nonce_registry_dropped := saturating_add (gn_nonce_registry_dropped self) 1\<rparr>) \<and>
    registry_ok order (bt_remove k (gn_nonce_registry self))"
proof -
  obtain k order where order: "gn_order self = k # order"
    using registry_length[OF ok] ne by (cases "gn_order self") auto
  show ?thesis
    using evict_from_head[OF ok[unfolded order]] by (simp add: evict_oldest_nonce_entry_def order)
qed

lemma push_known_block_fields:
  "gn_order (push_known_block b s) = gn_order s"
  "gn_nonce_registry (push_known_block b s) = gn_nonce_registry s"
  "gn_nonce_registry_capacity (push_known_block b s) = gn_nonce_registry_capacity s"
  "gn_known_blocks_capacity (push_known_block b s) = gn_known_blocks_capacity s"
  by (simp_all add: push_known_block_def Let_def)

lemma gn_add_block_ok: "node_ok self \<Longrightarrow> node_ok (snd (gn_add_block E b self))"
proof -
  assume ok: "node_ok self"
  have push: "node_ok (push_known_block b s)" if "node_ok s" for s
    using known_blocks.length_push[of s b] that by (simp add: node_ok_def push_known_block_fields)
  have new: "node_ok (s\<lparr>gn_nonce_registry := bt_insert k h (gn_nonce_registry s), gn_order := gn_order s @ [k]\<rparr>)"
    if "node_ok s" "map_of (gn_nonce_registry s) k = None"
      "length (gn_nonce_registry s) < gn_nonce_registry_capacity s" for s k h
  proof -
    have "registry_ok (gn_order s @ [k]) (bt_insert k h (gn_nonce_registry s))"
      using that by (intro registry_insert) (simp_all add: node_ok_def)
    moreover have "length (bt_insert k h (gn_nonce_registry s)) = Suc (length (gn_nonce_registry s))"
      using that by (subst length_bt_insert) (simp_all add: node_ok_def registry_ok_def)
    ultimately show ?thesis using that by (simp add: node_ok_def)
  qed
  have make_room: "node_ok s \<and> map_of (gn_nonce_registry s) k = None \<and>
      length (gn_nonce_registry s) < gn_nonce_registry_capacity s"
    if none: "map_of (gn_nonce_registry self) k = None"
      and s: "s = (if length (gn_nonce_registry self) \<ge> gn_nonce_registry_capacity self
         then snd (evict_oldest_nonce_entry self) else self)" for s k
  proof (cases "length (gn_nonce_registry self) \<ge> gn_nonce_registry_capacity self")
    case False
    then show ?thesis using ok none s by simp
  next
    case True
    have reg: "registry_ok (gn_order self) (gn_nonce_registry self)" and ne: "gn_nonce_registry self \<noteq> []"
      using ok True by (auto simp: node_ok_def)
    obtain j order where j: "gn_order self = j # order" "evict_oldest_nonce_entry self =
      (True, self\<lparr>gn_order := order, gn_nonce_registry := bt_remove j (gn_nonce_registry self),
        gn_nonce_registry_dropped := saturating_add (gn_nonce_registry_dropped self) 1\<rparr>)"
      "registry_ok order (bt_remove j (gn_nonce_registry self))"
      using evict_oldest_ok[OF reg ne] by blast
    have "length (bt_remove j (gn_nonce_registry self)) = length order"
      using registry_length[OF j(3)] .
    moreover have "Suc (length order) = length (gn_nonce_registry self)"
      using registry_length[OF reg] j(1) by simp
    ultimately show ?thesis using ok none s True j(2,3) by (simp add: node_ok_def)
  qed
  show ?thesis
    using ok by (auto simp: gn_add_block_def Let_def split: result.splits option.splits
        intro!: push new dest: make_room[OF _ refl])
qed

lemma gn_merge_ok:
  assumes ok: "node_ok self" and remote: "bt_wf remote"
  shows "node_ok (snd (gn_merge_registry remote self))"
proof -
  let ?r = "gn_nonce_registry self"
  obtain conflicts registry where m: "merge_nonce_registries ?r remote = (conflicts, registry)" by force
  let ?new = "filter (\<lambda>k. k \<notin> fst ` set ?r) (map fst registry)"
  let ?self = "self\<lparr>gn_nonce_registry := registry,
    gn_pending_conflicts := gn_pending_conflicts self @ conflicts, gn_order := gn_order self @ ?new\<rparr>"
  have wf: "bt_wf ?r" "distinct (gn_order self)" "set (gn_order self) = fst ` set ?r"
    using ok by (simp_all add: node_ok_def registry_ok_def)
  have "bt_wf registry" using merge_wf[OF wf(1), of remote] m by simp
  moreover have "fst ` set ?r \<subseteq> fst ` set registry"
  proof
    fix k assume "k \<in> fst ` set ?r"
    then have "map_of ?r k \<noteq> None" by (simp only: map_of_eq_None_iff not_not)
    then have "map_of registry k \<noteq> None" using merge_lookup[OF remote, of ?r k] m by (auto split: option.splits)
    then show "k \<in> fst ` set registry" by (simp only: map_of_eq_None_iff not_not)
  qed
  ultimately have "registry_ok (gn_order ?self) (gn_nonce_registry ?self)"
    using wf by (auto simp: registry_ok_def bt_wf_distinct distinct_filter)
  from evict_to_capacity_ok[OF this] show ?thesis
    using ok m by (simp add: node_ok_def gn_merge_registry_def Let_def)
qed

lemma gn_drain_ok: "node_ok self \<Longrightarrow> node_ok (snd (gn_drain_pending_conflicts self))"
  by (simp add: node_ok_def gn_drain_pending_conflicts_def)

lemma gn_peer_ok: "node_ok self \<Longrightarrow> node_ok (gn_add_peer p self)"
  by (simp add: node_ok_def gn_add_peer_def)

datatype node_op = NodeBlock block | NodeMerge nonce_registry | NodeDrain | NodePeer string

fun node_step :: "('sk, 'vk, 'z) arxia_env_scheme \<Rightarrow> node_op \<Rightarrow> gossip_node \<Rightarrow> gossip_node" where
  "node_step E (NodeBlock b) self = snd (gn_add_block E b self)"
| "node_step E (NodeMerge remote) self = (if bt_wf remote then snd (gn_merge_registry remote self) else self)"
| "node_step E NodeDrain self = snd (gn_drain_pending_conflicts self)"
| "node_step E (NodePeer p) self = gn_add_peer p self"

interpretation gossip_node: state_inv node_ok "node_step E" for E
proof unfold_locales
  fix x self assume "node_ok self"
  then show "node_ok (node_step E x self)"
    by (cases x) (simp_all add: gn_add_block_ok gn_merge_ok gn_drain_ok gn_peer_ok)
qed

text \<open>The capacities are those the node was built with.\<close>

lemma evict_oldest_capacities:
  "gn_known_blocks_capacity (snd (evict_oldest_nonce_entry self)) = gn_known_blocks_capacity self"
  "gn_nonce_registry_capacity (snd (evict_oldest_nonce_entry self)) = gn_nonce_registry_capacity self"
  by (simp_all add: evict_oldest_nonce_entry_def split: prod.split)

lemma evict_to_capacity_capacities:
  "gn_known_blocks_capacity (evict_to_capacity self) = gn_known_blocks_capacity self \<and>
    gn_nonce_registry_capacity (evict_to_capacity self) = gn_nonce_registry_capacity self"
proof (induction self rule: evict_to_capacity.induct)
  case (1 self)
  then show ?case
    using evict_oldest_capacities[of self]
    by (subst (1 2) evict_to_capacity.simps) (auto split: prod.split)
qed

lemma node_step_capacities:
  "gn_known_blocks_capacity (node_step E x self) = gn_known_blocks_capacity self \<and>
    gn_nonce_registry_capacity (node_step E x self) = gn_nonce_registry_capacity self"
  by (cases x) (auto simp: gn_add_block_def gn_merge_registry_def gn_drain_pending_conflicts_def gn_add_peer_def Let_def
      push_known_block_fields evict_oldest_capacities evict_to_capacity_capacities
      split: result.split option.split prod.split)

lemma node_run_capacities:
  "gn_known_blocks_capacity (fold (node_step E) xs self) = gn_known_blocks_capacity self \<and>
    gn_nonce_registry_capacity (fold (node_step E) xs self) = gn_nonce_registry_capacity self"
  by (induction xs arbitrary: self) (simp_all add: node_step_capacities)

text \<open>The keys a verified block is filed under.\<close>

lemma verified_block_keys:
  assumes E: "env_laws E" and v: "verify_block E b = Ok ()"
  obtains a h where "hex_decode E (b_account b) = Ok a" "length a = 32" "hex_decode E (b_hash b) = Ok h"
    "length h = 32" "b_hash b = hex_encode E h"
proof -
  obtain pk x where "hex_decode E (b_account b) = Ok pk" "length pk = 32"
    and h: "b_hash b = blake3_to_hex E (blake3 E x)"
    using v by (auto simp: verify_block_Ok_iff block_hash_of_Ok)
  moreover have "hex_decode E (b_hash b) = Ok (blake3 E x)" "length (blake3 E x) = 32"
    "b_hash b = hex_encode E (blake3 E x)"
    using env_lawsD[OF E] h by (simp_all add: hex_laws_def blake3_laws_def)
  ultimately show ?thesis using that by blast
qed

text \<open>
  What the node does with a block that verifies: a known block changes nothing, a second block at
  a registered position is refused as a double spend, and a new one is registered.
\<close>

lemma gn_add_block_cases:
  assumes v: "verify_block E b = Ok ()" and h: "hex_decode E (b_hash b) = Ok h" "length h = 32"
    and a: "hex_decode E (b_account b) = Ok a" "length a = 32" and ok: "node_ok self"
    and r: "gn_add_block E b self = (r, self')"
  shows "case map_of (gn_nonce_registry self) (a, b_nonce b) of
      Some h' \<Rightarrow> self' = self \<and> r = (if h' = h then Ok () else Err (DoubleSpend (b_nonce b)))
    | None \<Rightarrow> r = Ok () \<and> map_of (gn_nonce_registry self') (a, b_nonce b) = Some h \<and>
        b = last (gn_known_blocks self')"
  using r v h a unfolding gn_add_block_def Let_def push_known_block_def
  by (auto simp: to_array_def split: option.splits if_splits)

lemma evict_to_capacity_pending: "gn_pending_conflicts (evict_to_capacity self) = gn_pending_conflicts self"
proof (induction self rule: evict_to_capacity.induct)
  case (1 self)
  obtain evicted self' where e: "evict_oldest_nonce_entry self = (evicted, self')" by force
  then have "gn_pending_conflicts self' = gn_pending_conflicts self"
    by (auto simp: evict_oldest_nonce_entry_def split: prod.splits)
  then show ?case using 1 e by (simp add: evict_to_capacity.simps[of self])
qed

text \<open>A node that accepted a block holds its hash at the position of the block.\<close>

lemma gn_add_block_registers:
  assumes "verify_block E b = Ok ()" "hex_decode E (b_hash b) = Ok h" "length h = 32"
    and "hex_decode E (b_account b) = Ok a" "length a = 32" "node_ok self"
    and "gn_add_block E b self = (Ok (), self')"
  shows "map_of (gn_nonce_registry self') (a, b_nonce b) = Some h"
  using gn_add_block_cases[OF assms] by (auto split: option.splits if_splits)

end
