(* ===== verification/Finality.thy ===== *)
theory Finality
  imports Gossip
begin

text \<open>
  Crate \<open>arxia-finality\<close>: signed confirmations and validator votes, the validator registry, the
  assessment of a block's finality level and the latch that makes it monotone. The lemmas give
  the quorum rule over the natural numbers, say which votes count and how often, and show that a
  latched level is the highest one assessed so far.
\<close>

section \<open>Levels\<close>

datatype finality_level = Pending | L0 | L1 | L2

fun level_rank :: "finality_level \<Rightarrow> nat" where
  "level_rank Pending = 0"
| "level_rank L0 = 1"
| "level_rank L1 = 2"
| "level_rank L2 = 3"

instantiation finality_level :: linorder
begin

definition less_eq_finality_level :: "finality_level \<Rightarrow> finality_level \<Rightarrow> bool" where
  "a \<le> b \<longleftrightarrow> level_rank a \<le> level_rank b"

definition less_finality_level :: "finality_level \<Rightarrow> finality_level \<Rightarrow> bool" where
  "a < b \<longleftrightarrow> level_rank a < level_rank b"

instance
proof
  fix a b :: finality_level
  show "a \<le> b \<Longrightarrow> b \<le> a \<Longrightarrow> a = b"
    by (cases a; cases b) (simp_all add: less_eq_finality_level_def)
qed (auto simp: less_eq_finality_level_def less_finality_level_def)

end

section \<open>Signed confirmations and votes\<close>

definition FINALITY_CONFIRMATION_DOMAIN :: bytes where
  "FINALITY_CONFIRMATION_DOMAIN = str_bytes ''arxia-finality-confirmation-v1''"

definition FINALITY_VALIDATOR_VOTE_DOMAIN :: bytes where
  "FINALITY_VALIDATOR_VOTE_DOMAIN = str_bytes ''arxia-finality-validator-vote-v1''"

definition L2_QUORUM_FRACTION :: f64 where
  "L2_QUORUM_FRACTION = f64_round (67 / 100)"

datatype finality_error = FinInvalidSignatureLength | FinInvalidPublicKey | FinSignatureInvalid

record signed_confirmation =
  cf_confirmer_pubkey :: bytes
  cf_block_hash :: bytes
  cf_signature :: bytes

record signed_validator_vote =
  vv_validator_pubkey :: bytes
  vv_block_hash :: bytes
  vv_signature :: bytes

definition confirmation_canonical_bytes :: "bytes \<Rightarrow> bytes \<Rightarrow> bytes" where
  "confirmation_canonical_bytes confirmer_pubkey block_hash =
     FINALITY_CONFIRMATION_DOMAIN @ confirmer_pubkey @ block_hash"

definition validator_vote_canonical_bytes :: "bytes \<Rightarrow> bytes \<Rightarrow> bytes" where
  "validator_vote_canonical_bytes validator_pubkey block_hash =
     FINALITY_VALIDATOR_VOTE_DOMAIN @ validator_pubkey @ block_hash"

definition verify_signature ::
    "('sk, 'vk, 'z) crypto_scheme \<Rightarrow> bytes \<Rightarrow> bytes \<Rightarrow> bytes \<Rightarrow> (unit, finality_error) result" where
  "verify_signature E pubkey canonical signature =
     and_then (fail_if (length signature \<noteq> 64) FinInvalidSignatureLength) (\<lambda>_.
     and_then (ok_or (to_array 64 signature) FinInvalidSignatureLength) (\<lambda>sig.
       map_err (\<lambda>e. case e of InvalidKey _ \<Rightarrow> FinInvalidPublicKey | _ \<Rightarrow> FinSignatureInvalid)
         (crypto_verify E pubkey canonical sig)))"

definition confirmation_verify :: "('sk, 'vk, 'z) crypto_scheme \<Rightarrow> signed_confirmation \<Rightarrow> (unit, finality_error) result" where
  "confirmation_verify E c =
     verify_signature E (cf_confirmer_pubkey c)
       (confirmation_canonical_bytes (cf_confirmer_pubkey c) (cf_block_hash c)) (cf_signature c)"

definition validator_vote_verify :: "('sk, 'vk, 'z) crypto_scheme \<Rightarrow> signed_validator_vote \<Rightarrow> (unit, finality_error) result" where
  "validator_vote_verify E v =
     verify_signature E (vv_validator_pubkey v)
       (validator_vote_canonical_bytes (vv_validator_pubkey v) (vv_block_hash v)) (vv_signature v)"

interpretation confirmation_envelope: signed_envelope
  "\<lambda>c. Some (confirmation_canonical_bytes (cf_confirmer_pubkey c) (cf_block_hash c))"
  "\<lambda>c. Some (cf_confirmer_pubkey c)" cf_signature "\<lambda>c. confirmation_verify E c = Ok ()"
  "\<lambda>pk m s. crypto_verify E pk m s = Ok ()" for E
  by unfold_locales (auto simp: confirmation_verify_def verify_signature_def outcome_simps)

interpretation validator_vote_envelope: signed_envelope
  "\<lambda>v. Some (validator_vote_canonical_bytes (vv_validator_pubkey v) (vv_block_hash v))"
  "\<lambda>v. Some (vv_validator_pubkey v)" vv_signature "\<lambda>v. validator_vote_verify E v = Ok ()"
  "\<lambda>pk m s. crypto_verify E pk m s = Ok ()" for E
  by unfold_locales (auto simp: validator_vote_verify_def verify_signature_def outcome_simps)

section \<open>The validator registry\<close>

type_synonym validator_registry = "(bytes, u64) btree"

definition vr_insert :: "bytes \<Rightarrow> u64 \<Rightarrow> validator_registry \<Rightarrow> validator_registry" where
  "vr_insert pubkey stake_micro_arx self = bt_insert pubkey stake_micro_arx self"

definition vr_stake_of :: "validator_registry \<Rightarrow> bytes \<Rightarrow> u64 option" where
  "vr_stake_of self pubkey = map_of self pubkey"

definition vr_contains :: "validator_registry \<Rightarrow> bytes \<Rightarrow> bool" where
  "vr_contains self pubkey \<longleftrightarrow> map_of self pubkey \<noteq> None"

definition vr_len :: "validator_registry \<Rightarrow> nat" where
  "vr_len self = length self"

definition vr_is_empty :: "validator_registry \<Rightarrow> bool" where
  "vr_is_empty self \<longleftrightarrow> self = []"

definition vr_total_stake :: "validator_registry \<Rightarrow> u64" where
  "vr_total_stake self = saturating_sum (map snd self)"

section \<open>The assessment\<close>

fun count_votes ::
    "('sk, 'vk, 'z) crypto_scheme \<Rightarrow> bytes \<Rightarrow> validator_registry \<Rightarrow> signed_validator_vote list
      \<Rightarrow> bytes set \<Rightarrow> u64 \<Rightarrow> (u64, finality_error) result" where
  "count_votes E block_hash registry [] counted accepted_stake = Ok accepted_stake"
| "count_votes E block_hash registry (v # vs) counted accepted_stake =
     (if vv_block_hash v \<noteq> block_hash then count_votes E block_hash registry vs counted accepted_stake
      else if \<not> vr_contains registry (vv_validator_pubkey v)
      then count_votes E block_hash registry vs counted accepted_stake
      else and_then (validator_vote_verify E v) (\<lambda>_.
        if vv_validator_pubkey v \<notin> counted
        then count_votes E block_hash registry vs (insert (vv_validator_pubkey v) counted)
               (saturating_add accepted_stake
                 (case vr_stake_of registry (vv_validator_pubkey v) of None \<Rightarrow> 0 | Some s \<Rightarrow> s))
        else count_votes E block_hash registry vs counted accepted_stake))"

text \<open>The confirmation loop: \<open>True\<close> when it returned \<open>Ok(L0)\<close>.\<close>

fun find_confirmation ::
    "('sk, 'vk, 'z) crypto_scheme \<Rightarrow> bytes \<Rightarrow> validator_registry \<Rightarrow> signed_confirmation list
      \<Rightarrow> bytes set \<Rightarrow> (bool, finality_error) result" where
  "find_confirmation E block_hash registry [] seen = Ok False"
| "find_confirmation E block_hash registry (c # cs) seen =
     (if cf_block_hash c \<noteq> block_hash then find_confirmation E block_hash registry cs seen
      else if \<not> vr_contains registry (cf_confirmer_pubkey c)
      then find_confirmation E block_hash registry cs seen
      else and_then (confirmation_verify E c) (\<lambda>_.
        if cf_confirmer_pubkey c \<notin> seen then Ok True
        else find_confirmation E block_hash registry cs (insert (cf_confirmer_pubkey c) seen)))"

definition assess_finality ::
    "('sk, 'vk, 'z) crypto_scheme \<Rightarrow> u64 \<Rightarrow> bytes \<Rightarrow> signed_confirmation list \<Rightarrow> sync_result
      \<Rightarrow> signed_validator_vote list \<Rightarrow> validator_registry \<Rightarrow> (finality_level, finality_error) result" where
  "assess_finality E amount_micro_arx block_hash confirmations sync_result votes registry =
     (let total_stake = vr_total_stake registry in
      and_then
        (if total_stake > 0
         then and_then (count_votes E block_hash registry votes {} 0) (\<lambda>accepted_stake.
                Ok (saturating_mul accepted_stake 100 \<ge> saturating_mul total_stake 67))
         else Ok False) (\<lambda>quorum.
      if quorum then Ok L2
      else if sync_result = SyncSuccess then Ok L1
      else if amount_micro_arx \<le> L0_CAP_MICRO_ARX
      then and_then (find_confirmation E block_hash registry confirmations {})
             (\<lambda>found. Ok (if found then L0 else Pending))
      else Ok Pending))"

type_synonym finality_latch = "(bytes, finality_level) hmap"

definition latch_len :: "finality_latch \<Rightarrow> nat" where
  "latch_len self = length self"

definition latch_is_empty :: "finality_latch \<Rightarrow> bool" where
  "latch_is_empty self \<longleftrightarrow> self = []"

definition latch_get :: "finality_latch \<Rightarrow> bytes \<Rightarrow> finality_level option" where
  "latch_get self block_hash = map_of self block_hash"

definition assess_monotonic ::
    "('sk, 'vk, 'z) crypto_scheme \<Rightarrow> u64 \<Rightarrow> bytes \<Rightarrow> signed_confirmation list \<Rightarrow> sync_result
      \<Rightarrow> signed_validator_vote list \<Rightarrow> validator_registry \<Rightarrow> finality_latch
      \<Rightarrow> (finality_level, finality_error) result \<times> finality_latch" where
  "assess_monotonic E amount_micro_arx block_hash confirmations sync_result votes registry self =
     (case assess_finality E amount_micro_arx block_hash confirmations sync_result votes registry of
        Err e \<Rightarrow> (Err e, self)
      | Panic \<Rightarrow> (Panic, self)
      | Ok snapshot \<Rightarrow>
          let previous = (case map_of self block_hash of None \<Rightarrow> Pending | Some l \<Rightarrow> l);
              latched = max previous snapshot
          in (Ok latched, hm_insert block_hash latched self))"

section \<open>Which votes count\<close>

definition relevant :: "bytes \<Rightarrow> validator_registry \<Rightarrow> signed_validator_vote \<Rightarrow> bool" where
  "relevant h reg v \<longleftrightarrow> vv_block_hash v = h \<and> map_of reg (vv_validator_pubkey v) \<noteq> None"

definition voters :: "bytes \<Rightarrow> validator_registry \<Rightarrow> signed_validator_vote list \<Rightarrow> bytes set" where
  "voters h reg vs = vv_validator_pubkey ` {v \<in> set vs. relevant h reg v}"

definition stake :: "validator_registry \<Rightarrow> bytes \<Rightarrow> nat" where
  "stake reg pk = (case map_of reg pk of None \<Rightarrow> 0 | Some s \<Rightarrow> unat s)"

text \<open>
  Each registered validator with a vote for the block counts once, with its registered stake, and
  every counted vote carries a valid signature.
\<close>

lemma count_votes_Ok:
  "count_votes E h reg vs counted acc = Ok s \<Longrightarrow>
    unat s = min (unat acc + (\<Sum>pk \<in> voters h reg vs - counted. stake reg pk)) (2 ^ 64 - 1) \<and>
    (\<forall>v \<in> set vs. relevant h reg v \<longrightarrow> validator_vote_verify E v = Ok ())"
proof (induction E h reg vs counted acc rule: count_votes.induct)
  case (1 E h reg counted acc)
  then show ?case using unat_u64_less[of acc] by (simp add: voters_def)
next
  case (2 E h reg v vs counted acc)
  show ?case
  proof (cases "relevant h reg v")
    case False
    then have "count_votes E h reg vs counted acc = Ok s"
      using 2(5) by (auto simp: relevant_def vr_contains_def split: if_splits)
    moreover have "voters h reg (v # vs) = voters h reg vs" using False by (auto simp: voters_def)
    ultimately show ?thesis using 2(1,2) False by (auto simp: relevant_def vr_contains_def)
  next
    case True
    let ?pk = "vv_validator_pubkey v"
    have voters: "voters h reg (v # vs) = insert ?pk (voters h reg vs)"
      using True by (auto simp: voters_def)
    have fin: "finite (voters h reg vs)" by (simp add: voters_def)
    have step: "validator_vote_verify E v = Ok ()"
      using 2(5) True by (auto simp: relevant_def vr_contains_def outcome_simps split: if_splits)
    have cond: "\<not> vv_block_hash v \<noteq> h" "\<not> \<not> vr_contains reg ?pk"
      using True by (simp_all add: relevant_def vr_contains_def)
    show ?thesis
    proof (cases "?pk \<in> counted")
      case True
      then have "count_votes E h reg vs counted acc = Ok s" using 2(5) cond step by simp
      then show ?thesis
        using 2(4)[OF cond] step voters True by (auto simp: insert_Diff_if)
    next
      case False
      let ?acc = "saturating_add acc (case vr_stake_of reg ?pk of None \<Rightarrow> 0 | Some s \<Rightarrow> s)"
      have run: "count_votes E h reg vs (insert ?pk counted) ?acc = Ok s" using 2(5) cond step False by simp
      have stake: "unat (case vr_stake_of reg ?pk of None \<Rightarrow> 0 | Some s \<Rightarrow> s) = stake reg ?pk"
        by (simp add: stake_def vr_stake_of_def split: option.split)
      have acc: "unat ?acc = min (unat acc + stake reg ?pk) (2 ^ 64 - 1)"
        by (simp add: unat_saturating_add stake)
      have "unat s = min (unat ?acc + (\<Sum>pk \<in> voters h reg vs - insert ?pk counted. stake reg pk)) (2 ^ 64 - 1)"
        and rest: "\<forall>v \<in> set vs. relevant h reg v \<longrightarrow> validator_vote_verify E v = Ok ()"
        using 2(3)[OF cond] run False by auto
      moreover have "(\<Sum>pk \<in> voters h reg (v # vs) - counted. stake reg pk)
          = stake reg ?pk + (\<Sum>pk \<in> voters h reg vs - insert ?pk counted. stake reg pk)"
      proof -
        have "voters h reg (v # vs) - counted = insert ?pk (voters h reg vs - insert ?pk counted)"
          using False voters by auto
        then show ?thesis using fin by simp
      qed
      ultimately show ?thesis using step acc by (auto simp: min_def)
    qed
  qed
qed

lemma find_confirmation_Ok:
  "find_confirmation E h reg cs {} = Ok f \<Longrightarrow>
    f \<longleftrightarrow> (\<exists>c \<in> set cs. cf_block_hash c = h \<and> map_of reg (cf_confirmer_pubkey c) \<noteq> None \<and>
      confirmation_verify E c = Ok ())"
proof (induction cs)
  case (Cons c cs)
  show ?case
  proof (cases "cf_block_hash c = h \<and> vr_contains reg (cf_confirmer_pubkey c)")
    case True
    then show ?thesis using Cons.prems by (auto simp: vr_contains_def outcome_simps)
  next
    case False
    then have "find_confirmation E h reg cs {} = Ok f" using Cons.prems by (auto split: if_splits)
    then show ?thesis using Cons.IH False by (auto simp: vr_contains_def)
  qed
qed simp

text \<open>When the votes and confirmations that matter are valid, neither loop fails.\<close>

lemma count_votes_valid:
  "\<forall>v \<in> set vs. relevant h reg v \<longrightarrow> validator_vote_verify E v = Ok () \<Longrightarrow>
    \<exists>s. count_votes E h reg vs counted acc = Ok s"
  by (induction E h reg vs counted acc rule: count_votes.induct) (auto simp: relevant_def vr_contains_def)

definition relevant_confirmation :: "bytes \<Rightarrow> validator_registry \<Rightarrow> signed_confirmation \<Rightarrow> bool" where
  "relevant_confirmation h reg c \<longleftrightarrow> cf_block_hash c = h \<and> map_of reg (cf_confirmer_pubkey c) \<noteq> None"

lemma find_confirmation_valid:
  "\<forall>c \<in> set cs. relevant_confirmation h reg c \<longrightarrow> confirmation_verify E c = Ok () \<Longrightarrow>
    \<exists>f. find_confirmation E h reg cs seen = Ok f"
  by (induction E h reg cs seen rule: find_confirmation.induct)
    (auto simp: relevant_confirmation_def vr_contains_def)

text \<open>The level a successful assessment reports, when the registered stakes are below \<open>2 ^ 64 / 100\<close>.\<close>

definition total_stake :: "validator_registry \<Rightarrow> nat" where
  "total_stake reg = (\<Sum>e\<leftarrow>reg. unat (snd e))"

definition voted_stake :: "bytes \<Rightarrow> validator_registry \<Rightarrow> signed_validator_vote list \<Rightarrow> nat" where
  "voted_stake h reg vs = (\<Sum>pk \<in> voters h reg vs. stake reg pk)"

lemma unat_vr_total_stake: "unat (vr_total_stake reg) = min (total_stake reg) (2 ^ 64 - 1)"
  by (simp add: vr_total_stake_def unat_saturating_sum total_stake_def comp_def)

lemma voted_le_total: "bt_wf reg \<Longrightarrow> voted_stake h reg vs \<le> total_stake reg"
proof -
  assume wf: "bt_wf reg"
  have "voted_stake h reg vs \<le> (\<Sum>pk \<in> fst ` set reg. stake reg pk)"
    unfolding voted_stake_def
    by (rule sum_mono2) (auto simp: voters_def relevant_def dest!: map_of_SomeD intro: rev_image_eqI)
  also have "\<dots> = (\<Sum>e\<leftarrow>reg. stake reg (fst e))"
    using bt_wf_distinct[OF wf] by (simp add: sum_list_distinct_conv_sum_set[symmetric] comp_def flip: set_map)
  also have "\<dots> = total_stake reg"
    unfolding total_stake_def
    by (rule arg_cong[where f = sum_list], rule map_cong[OF refl])
      (use bt_mem_iff[OF wf] in \<open>auto simp: stake_def\<close>)
  finally show ?thesis .
qed

definition confirmed :: "('sk, 'vk, 'z) crypto_scheme \<Rightarrow> bytes \<Rightarrow> validator_registry \<Rightarrow> signed_confirmation list \<Rightarrow> bool" where
  "confirmed E h reg cs \<longleftrightarrow>
     (\<exists>c \<in> set cs. cf_block_hash c = h \<and> map_of reg (cf_confirmer_pubkey c) \<noteq> None \<and>
        confirmation_verify E c = Ok ())"

lemma quorum_arith:
  fixes a t :: u64
  assumes "100 * unat a < 2 ^ 64" "67 * unat t < 2 ^ 64"
  shows "saturating_mul a 100 \<ge> saturating_mul t 67 \<longleftrightarrow> 67 * unat t \<le> 100 * unat a"
  using assms by (simp add: word_le_nat_alt unat_saturating_mul mult.commute)

lemma count_votes_total:
  assumes c: "count_votes E h reg vs {} 0 = Ok s" and wf: "bt_wf reg" and b: "total_stake reg < 2 ^ 64"
  shows "unat s = voted_stake h reg vs"
  using count_votes_Ok[OF c] voted_le_total[OF wf, of h vs] b by (simp add: voted_stake_def)

lemma assess_finality_rule:
  assumes wf: "bt_wf reg" and bound: "100 * total_stake reg < 2 ^ 64"
    and r: "assess_finality E amount h cs sync vs reg = Ok l"
  shows "l = (if 0 < total_stake reg \<and> 67 * total_stake reg \<le> 100 * voted_stake h reg vs then L2
              else if sync = SyncSuccess then L1
              else if unat amount \<le> unat L0_CAP_MICRO_ARX \<and> confirmed E h reg cs then L0
              else Pending)"
proof -
  have small: "total_stake reg < 2 ^ 64" using bound by simp
  have t: "unat (vr_total_stake reg) = total_stake reg"
    using small by (simp add: unat_vr_total_stake)
  have tpos: "vr_total_stake reg > 0 \<longleftrightarrow> 0 < total_stake reg" by (simp add: word_less_nat_alt t)
  have rest: "l = (if sync = SyncSuccess then L1
      else if unat amount \<le> unat L0_CAP_MICRO_ARX \<and> confirmed E h reg cs then L0 else Pending)"
    if "(if sync = SyncSuccess then Ok L1
      else if amount \<le> L0_CAP_MICRO_ARX
      then and_then (find_confirmation E h reg cs {}) (\<lambda>found. Ok (if found then L0 else Pending))
      else Ok Pending) = Ok l"
  proof -
    have conf: "f \<longleftrightarrow> confirmed E h reg cs" if "find_confirmation E h reg cs {} = Ok f" for f
      using find_confirmation_Ok[OF that] by (simp add: confirmed_def)
    then show ?thesis using that by (auto simp: outcome_simps word_le_nat_alt split: if_splits)
  qed
  show ?thesis
  proof (cases "0 < total_stake reg")
    case False
    then show ?thesis using r rest tpos by (simp add: assess_finality_def Let_def)
  next
    case True
    then obtain s where s: "count_votes E h reg vs {} 0 = Ok s"
      using r tpos by (auto simp: assess_finality_def Let_def outcome_simps)
    have us: "unat s = voted_stake h reg vs" by (rule count_votes_total[OF s wf small])
    have "voted_stake h reg vs \<le> total_stake reg" by (rule voted_le_total[OF wf])
    then have q: "saturating_mul s 100 \<ge> saturating_mul (vr_total_stake reg) 67
        \<longleftrightarrow> 67 * total_stake reg \<le> 100 * voted_stake h reg vs"
      using quorum_arith[of s "vr_total_stake reg"] us t bound by simp
    show ?thesis
    proof (cases "67 * total_stake reg \<le> 100 * voted_stake h reg vs")
      case True
      then show ?thesis using r s q tpos \<open>0 < total_stake reg\<close> by (simp add: assess_finality_def)
    next
      case False
      then show ?thesis using r s q tpos \<open>0 < total_stake reg\<close> rest by (simp add: assess_finality_def)
    qed
  qed
qed

lemma assess_finality_valid:
  assumes "\<forall>v \<in> set vs. relevant h reg v \<longrightarrow> validator_vote_verify E v = Ok ()"
    and "\<forall>c \<in> set cs. relevant_confirmation h reg c \<longrightarrow> confirmation_verify E c = Ok ()"
  shows "\<exists>l. assess_finality E amount h cs sync vs reg = Ok l"
proof -
  obtain s where s: "count_votes E h reg vs {} 0 = Ok s" using count_votes_valid[OF assms(1)] by blast
  obtain f where f: "find_confirmation E h reg cs {} = Ok f" using find_confirmation_valid[OF assms(2)] by blast
  show ?thesis by (simp add: assess_finality_def Let_def s f)
qed

lemma assess_finality_forged:
  assumes "assess_finality E amount h cs sync vs reg = Ok l" "0 < total_stake reg" "v \<in> set vs" "relevant h reg v"
  shows "validator_vote_verify E v = Ok ()"
proof -
  have "vr_total_stake reg > 0" using assms(2) by (simp add: word_less_nat_alt unat_vr_total_stake)
  then obtain s where "count_votes E h reg vs {} 0 = Ok s"
    using assms(1) by (auto simp: assess_finality_def Let_def outcome_simps)
  then show ?thesis using count_votes_Ok assms(3,4) by blast
qed

text \<open>
  Above that bound both products saturate and compare equal: a block can be final at level 2 with
  less than a fifth of the registered stake.
\<close>

lemma assess_finality_saturated:
  assumes wf: "bt_wf reg" and c: "count_votes E h reg vs {} 0 = Ok s"
    and t: "2 ^ 64 \<le> 67 * total_stake reg" "total_stake reg < 2 ^ 64"
    and v: "2 ^ 64 \<le> 100 * voted_stake h reg vs"
  shows "assess_finality E amount h cs sync vs reg = Ok L2"
proof -
  have "unat s = voted_stake h reg vs" by (rule count_votes_total[OF c wf t(2)])
  moreover have tot: "unat (vr_total_stake reg) = total_stake reg" using t(2) by (simp add: unat_vr_total_stake)
  ultimately have "saturating_mul s 100 \<ge> saturating_mul (vr_total_stake reg) 67"
    using t v by (simp add: word_le_nat_alt unat_saturating_mul mult.commute)
  moreover have "vr_total_stake reg > 0" using t tot by (simp add: word_less_nat_alt)
  ultimately show ?thesis using c by (simp add: assess_finality_def)
qed

section \<open>The latch\<close>

record assessment =
  as_amount :: u64
  as_block_hash :: bytes
  as_confirmations :: "signed_confirmation list"
  as_sync :: sync_result
  as_votes :: "signed_validator_vote list"
  as_registry :: validator_registry

definition latch_step :: "('sk, 'vk, 'z) crypto_scheme \<Rightarrow> assessment \<Rightarrow> finality_latch \<Rightarrow> finality_latch" where
  "latch_step E a self = snd (assess_monotonic E (as_amount a) (as_block_hash a) (as_confirmations a)
     (as_sync a) (as_votes a) (as_registry a) self)"

definition level_of :: "finality_latch \<Rightarrow> bytes \<Rightarrow> finality_level" where
  "level_of self h = (case latch_get self h of None \<Rightarrow> Pending | Some l \<Rightarrow> l)"

lemma level_of_step:
  "level_of (latch_step E a self) h =
     (if as_block_hash a = h then
        (case assess_finality E (as_amount a) h (as_confirmations a) (as_sync a) (as_votes a) (as_registry a) of
           Ok l \<Rightarrow> max (level_of self h) l | _ \<Rightarrow> level_of self h)
      else level_of self h)"
  by (auto simp: latch_step_def assess_monotonic_def level_of_def latch_get_def Let_def split: result.split)

text \<open>A level once reached is a lower bound for ever: the latch keeps \<open>l \<le> level\<close>.\<close>

interpretation latch: state_inv "\<lambda>self. l \<le> level_of self h" "latch_step E" for l h E
  by unfold_locales (auto simp: level_of_step le_max_iff_disj split: result.splits)

lemma pending_least [simp]: "Pending \<le> l"
  by (simp add: less_eq_finality_level_def)

lemma level_of_run:
  "level_of (fold (latch_step E) as self) h =
     Max (insert (level_of self h) {l. \<exists>a \<in> set as. as_block_hash a = h \<and>
       assess_finality E (as_amount a) h (as_confirmations a) (as_sync a) (as_votes a) (as_registry a) = Ok l})"
proof (induction as arbitrary: self)
  case Nil
  then show ?case by simp
next
  case (Cons a as)
  define R where "R bs = {l. \<exists>a \<in> set bs. as_block_hash a = h \<and>
     assess_finality E (as_amount a) h (as_confirmations a) (as_sync a) (as_votes a) (as_registry a) = Ok l}" for bs :: "assessment list"
  have fin: "finite (R bs)" for bs
  proof (induction bs)
    case (Cons b bs)
    have "R (b # bs) \<subseteq> R bs \<union> {l. assess_finality E (as_amount b) h (as_confirmations b) (as_sync b)
        (as_votes b) (as_registry b) = Ok l}" by (auto simp: R_def)
    moreover have "finite {l. r = (Ok l :: (finality_level, finality_error) result)}" for r
      by (cases r) auto
    ultimately show ?case using Cons.IH by (metis finite_UnI finite_subset)
  qed (simp add: R_def)
  have "level_of (fold (latch_step E) (a # as) self) h = Max (insert (level_of (latch_step E a self) h) (R as))"
    using Cons.IH by (simp add: R_def)
  also have "\<dots> = Max (insert (level_of self h) (R (a # as)))"
  proof (cases "as_block_hash a = h \<and> is_ok (assess_finality E (as_amount a) h (as_confirmations a)
      (as_sync a) (as_votes a) (as_registry a))")
    case True
    then obtain l where l: "as_block_hash a = h" "assess_finality E (as_amount a) h (as_confirmations a)
      (as_sync a) (as_votes a) (as_registry a) = Ok l" by (auto simp: is_ok_iff)
    then have "R (a # as) = insert l (R as)" by (auto simp: R_def)
    moreover have "Max (insert (max x l) S) = Max (insert x (insert l S))" if "finite S" for x S
      using that by (cases "S = {}") (simp_all add: max.assoc)
    ultimately show ?thesis using l fin by (simp add: level_of_step)
  next
    case False
    then have "R (a # as) = R as" by (auto simp: R_def is_ok_iff)
    moreover have "level_of (latch_step E a self) h = level_of self h"
      using False by (auto simp: level_of_step is_ok_iff split: result.split)
    ultimately show ?thesis by simp
  qed
  finally show ?case by (simp only: R_def)
qed

end
