(* ===== verification/Network.thy ===== *)
theory Network
  imports World Gossip Finality
begin

text \<open>
  A network of gossip nodes that are given the blocks of an honest log and exchange their nonce
  registries, in any order. While the registries have room for the log, no node ever sees a conflict
  or forgets a block, and two nodes that exchange their registries agree and pass the check before L1.
\<close>

section \<open>Nodes and exchanges\<close>

text \<open>Node \<open>i\<close> is given a block, or merges the registry of node \<open>j\<close>.\<close>

datatype net_op = Announce nat block | Exchange nat nat

fun net_step :: "('sk, 'vk, 'z) arxia_env_scheme \<Rightarrow> net_op \<Rightarrow> gossip_node list \<Rightarrow> gossip_node list" where
  "net_step E (Announce i b) ns = (if i < length ns then ns[i := snd (gn_add_block E b (ns ! i))] else ns)"
| "net_step E (Exchange i j) ns =
     (if i < length ns \<and> j < length ns
      then ns[i := snd (gn_merge_registry (gn_nonce_registry (ns ! j)) (ns ! i))] else ns)"

text \<open>What the log files under a position, and what a node has of it.\<close>

definition files :: "('sk, 'vk, 'z) crypto_scheme \<Rightarrow> block list \<Rightarrow> nonce_key \<Rightarrow> bytes \<Rightarrow> bool" where
  "files E hist k h \<longleftrightarrow> (\<exists>b \<in> set hist. hex_decode E (b_account b) = Ok (fst k) \<and> b_nonce b = snd k \<and>
     hex_decode E (b_hash b) = Ok h)"

definition registers :: "('sk, 'vk, 'z) crypto_scheme \<Rightarrow> block \<Rightarrow> gossip_node \<Rightarrow> bool" where
  "registers E b n \<longleftrightarrow> (\<exists>a h. hex_decode E (b_account b) = Ok a \<and> hex_decode E (b_hash b) = Ok h \<and>
     map_of (gn_nonce_registry n) (a, b_nonce b) = Some h)"

definition all_filed :: "('sk, 'vk, 'z) crypto_scheme \<Rightarrow> block list \<Rightarrow> nonce_registry \<Rightarrow> bool" where
  "all_filed E hist m \<longleftrightarrow> (\<forall>k h. map_of m k = Some h \<longrightarrow> files E hist k h)"

definition honest_node :: "('sk, 'vk, 'z) crypto_scheme \<Rightarrow> block list \<Rightarrow> gossip_node \<Rightarrow> bool" where
  "honest_node E hist n \<longleftrightarrow>
     node_ok n \<and> length hist \<le> gn_nonce_registry_capacity n \<and>
     all_filed E hist (gn_nonce_registry n) \<and> gn_pending_conflicts n = [] \<and> gn_nonce_registry_dropped n = 0"

section \<open>The positions of an honest log\<close>

lemma files_unique:
  assumes E: "hex_laws E" and hist: "honest_log E hist" and lower: "\<forall>b \<in> set hist. lower_hex (b_account b)"
    and f: "files E hist k h" "files E hist k h'"
  shows "h = h'"
proof -
  obtain b c where b: "b \<in> set hist" "hex_decode E (b_account b) = Ok (fst k)" "b_nonce b = snd k" "hex_decode E (b_hash b) = Ok h"
    and c: "c \<in> set hist" "hex_decode E (b_account c) = Ok (fst k)" "b_nonce c = snd k" "hex_decode E (b_hash c) = Ok h'"
    using f unfolding files_def by blast
  have "hex_encode E (fst k) = b_account b" "hex_encode E (fst k) = b_account c"
    using E lower b(1,2) c(1,2) unfolding hex_laws_def by blast+
  then have "b = c" using honest_keys[OF hist b(1) c(1)] b(3) c(3) by (simp add: block_key_of_def)
  then show ?thesis using b(4) c(4) by simp
qed

lemma files_keys:
  "finite {k. \<exists>h. files E hist k h}" "card {k. \<exists>h. files E hist k h} \<le> length hist"
proof -
  define key where "key = (\<lambda>b :: block. (case hex_decode E (b_account b) of Ok a \<Rightarrow> a | _ \<Rightarrow> [], b_nonce b))"
  have sub: "{k. \<exists>h. files E hist k h} \<subseteq> key ` set hist"
    by (force simp: files_def key_def image_iff)
  show "finite {k. \<exists>h. files E hist k h}" using sub by (rule finite_subset) simp
  have "card {k. \<exists>h. files E hist k h} \<le> card (key ` set hist)" using sub by (intro card_mono) simp_all
  also have "\<dots> \<le> length hist" using card_image_le[of "set hist" key] card_length[of hist] by simp
  finally show "card {k. \<exists>h. files E hist k h} \<le> length hist" .
qed

lemma all_filedD: "all_filed E hist m \<Longrightarrow> map_of m k = Some h \<Longrightarrow> files E hist k h"
  unfolding all_filed_def by blast

lemma all_filedI: "(\<And>k h. map_of m k = Some h \<Longrightarrow> files E hist k h) \<Longrightarrow> all_filed E hist m"
  unfolding all_filed_def by blast

text \<open>A sorted registry of filed positions is no longer than the log.\<close>

lemma filed_length:
  assumes "bt_wf m" "all_filed E hist m"
  shows "length m \<le> length hist"
proof -
  have dist: "distinct (map fst m)" using assms(1) by (rule bt_wf_distinct)
  have "fst ` set m \<subseteq> {k. \<exists>h. files E hist k h}"
  proof
    fix k assume "k \<in> fst ` set m"
    then have "map_of m k \<noteq> None" by (simp only: map_of_eq_None_iff not_not)
    then show "k \<in> {k. \<exists>h. files E hist k h}" using all_filedD[OF assms(2)] by blast
  qed
  then have "card (fst ` set m) \<le> length hist"
    using files_keys[of E hist] card_mono order_trans by meson
  moreover have "card (fst ` set m) = length m" using distinct_card[OF dist] by simp
  ultimately show ?thesis by simp
qed

section \<open>What an honest node does\<close>

lemma honest_block_keys:
  assumes "env_laws E" "honest_log E hist" "b \<in> set hist"
  obtains a h where "hex_decode E (b_account b) = Ok a" "length a = 32" "hex_decode E (b_hash b) = Ok h" "length h = 32"
    "verify_block E b = Ok ()" "files E hist (a, b_nonce b) h"
proof -
  have v: "verify_block E b = Ok ()"
    using chain_valid_verified[OF honest_chain_valid[OF assms(2), of "b_account b"]] assms(3) by simp
  obtain a h where ah: "hex_decode E (b_account b) = Ok a" "length a = 32" "hex_decode E (b_hash b) = Ok h" "length h = 32"
    using verified_block_keys[OF assms(1) v] by blast
  moreover have "files E hist (a, b_nonce b) h" using ah assms(3) by (auto simp: files_def)
  ultimately show thesis using that v by blast
qed

lemma honest_add:
  assumes E: "env_laws E" and hist: "honest_log E hist" and lower: "\<forall>b \<in> set hist. lower_hex (b_account b)"
    and n: "honest_node E hist n" and b: "b \<in> set hist"
  shows "\<exists>n'. gn_add_block E b n = (Ok (), n') \<and> honest_node E hist n' \<and> registers E b n' \<and>
    map_of (gn_nonce_registry n) \<subseteq>\<^sub>m map_of (gn_nonce_registry n')"
proof -
  obtain a h where k: "hex_decode E (b_account b) = Ok a" "length a = 32" "hex_decode E (b_hash b) = Ok h" "length h = 32"
    "verify_block E b = Ok ()" "files E hist (a, b_nonce b) h"
    by (rule honest_block_keys[OF E hist b])
  let ?r = "gn_nonce_registry n"
  have filed: "files E hist k h" if "map_of ?r k = Some h" for k h
    using n that by (auto simp: honest_node_def intro: all_filedD)
  have ok: "node_ok n" and wf: "bt_wf ?r" using n by (simp_all add: honest_node_def node_ok_def registry_ok_def)
  show ?thesis
  proof (cases "map_of ?r (a, b_nonce b)")
    case (Some h')
    then have "h' = h" using files_unique[OF env_lawsD(1)[OF E] hist lower filed[OF Some] k(6)] by simp
    then have "gn_add_block E b n = (Ok (), n)" using Some k by (simp add: gn_add_block_def to_array_def)
    then show ?thesis using Some \<open>h' = h\<close> k n by (auto simp: registers_def)
  next
    case None
    let ?new = "bt_insert (a, b_nonce b) h ?r"
    have new: "all_filed E hist ?new" by (rule all_filedI) (use filed k(6) in \<open>auto split: if_splits\<close>)
    have "length ?new \<le> length hist" using filed_length[OF _ new] wf by simp
    moreover have "length ?new = Suc (length ?r)" using None wf by (simp add: length_bt_insert)
    ultimately have room: "\<not> gn_nonce_registry_capacity n \<le> length ?r" using n by (simp add: honest_node_def)
    let ?n' = "push_known_block b (n\<lparr>gn_nonce_registry := ?new, gn_order := gn_order n @ [(a, b_nonce b)]\<rparr>)"
    have run: "gn_add_block E b n = (Ok (), ?n')" using None k room by (simp add: gn_add_block_def to_array_def Let_def)
    have "node_ok ?n'" using gn_add_block_ok[OF ok, of E b] run by simp
    then have "honest_node E hist ?n'"
      using n new by (simp add: honest_node_def push_known_block_fields) (simp add: push_known_block_def Let_def)
    moreover have "map_of ?r \<subseteq>\<^sub>m map_of ?new" using None by (auto simp: map_le_def)
    moreover have "registers E b ?n'" using k by (simp add: registers_def push_known_block_fields)
    ultimately show ?thesis using run by (simp add: push_known_block_fields)
  qed
qed

lemma honest_merge:
  assumes E: "hex_laws E" and hist: "honest_log E hist" and lower: "\<forall>b \<in> set hist. lower_hex (b_account b)"
    and n: "honest_node E hist n" and m: "honest_node E hist m"
  shows "\<exists>n'. gn_merge_registry (gn_nonce_registry m) n = ([], n') \<and> honest_node E hist n' \<and>
    map_of (gn_nonce_registry n') = map_of (gn_nonce_registry m) ++ map_of (gn_nonce_registry n) \<and>
    map_of (gn_nonce_registry n) \<subseteq>\<^sub>m map_of (gn_nonce_registry n')"
proof -
  let ?l = "gn_nonce_registry n" and ?r = "gn_nonce_registry m"
  obtain cs reg where run: "merge_nonce_registries ?l ?r = (cs, reg)" by force
  have ok: "node_ok n" and wf: "bt_wf ?l" "bt_wf ?r"
    using n m by (simp_all add: honest_node_def node_ok_def registry_ok_def)
  have filed: "files E hist k h" if "map_of ?l k = Some h \<or> map_of ?r k = Some h" for k h
    using n m that by (auto simp: honest_node_def intro: all_filedD)
  have lookup: "map_of reg = map_of ?r ++ map_of ?l"
    using merge_lookup[OF wf(2), of ?l] run by (intro ext) (simp add: map_add_def)
  have "c \<notin> set cs" for c
    using merge_conflicts[OF wf(2), of c ?l] run filed files_unique[OF E hist lower] by (metis fst_conv)
  then have cs: "cs = []" by (meson last_in_set)
  have new: "all_filed E hist reg" by (rule all_filedI) (use filed in \<open>auto simp: lookup map_add_Some_iff\<close>)
  have "bt_wf reg" using merge_wf[OF wf(1), of ?r] run by simp
  then have "length reg \<le> gn_nonce_registry_capacity n"
    using filed_length[OF _ new] n by (simp add: honest_node_def)
  then have "gn_merge_registry ?r n = ([], n\<lparr>gn_nonce_registry := reg,
      gn_order := gn_order n @ filter (\<lambda>k. k \<notin> fst ` set ?l) (map fst reg)\<rparr>)" (is "_ = ([], ?n')")
    using run cs by (simp add: gn_merge_registry_def Let_def evict_to_capacity.simps)
  moreover from this have "node_ok ?n'" using gn_merge_ok[OF ok wf(2)] by simp
  then have "honest_node E hist ?n'" using n new by (simp add: honest_node_def)
  moreover have "map_of ?l \<subseteq>\<^sub>m map_of reg" by (simp add: lookup map_le_map_add)
  ultimately show ?thesis using lookup by simp
qed

section \<open>The run of a network\<close>

definition net_ok :: "('sk, 'vk, 'z) crypto_scheme \<Rightarrow> block list \<Rightarrow> nat \<Rightarrow> net_op list \<Rightarrow> gossip_node list \<Rightarrow> bool" where
  "net_ok E hist m ops ns \<longleftrightarrow>
     length ns = m \<and> (\<forall>n \<in> set ns. honest_node E hist n) \<and>
     (\<forall>i < m. \<forall>b. Announce i b \<in> set ops \<longrightarrow> registers E b (ns ! i))"

lemma registers_mono:
  "registers E b n \<Longrightarrow> map_of (gn_nonce_registry n) \<subseteq>\<^sub>m map_of (gn_nonce_registry n') \<Longrightarrow> registers E b n'"
  unfolding registers_def map_le_def dom_def by (metis (mono_tags, lifting) mem_Collect_eq option.distinct(1))

text \<open>A step changes one node, which stays honest and forgets nothing.\<close>

lemma net_ok_update:
  assumes ok: "net_ok E hist m ops ns" and i: "i < m" and n': "honest_node E hist n'"
    and grows: "map_of (gn_nonce_registry (ns ! i)) \<subseteq>\<^sub>m map_of (gn_nonce_registry n')"
    and new: "\<forall>b. x = Announce i b \<longrightarrow> registers E b n'" and other: "\<forall>j b. x = Announce j b \<longrightarrow> j = i"
  shows "net_ok E hist m (ops @ [x]) (ns[i := n'])"
proof -
  have "registers E b (ns[i := n'] ! j)" if "j < m" "Announce j b \<in> set (ops @ [x])" for j b
  proof (cases "j = i")
    case True
    have "registers E b n'"
    proof (cases "Announce i b \<in> set ops")
      case True
      then have "registers E b (ns ! i)" using ok i by (simp add: net_ok_def)
      then show ?thesis using grows by (rule registers_mono)
    qed (use that(2) new True in simp)
    then show ?thesis using ok i True by (simp add: net_ok_def)
  next
    case False
    then have "Announce j b \<in> set ops" using that(2) other by auto
    then show ?thesis using that(1) ok False by (simp add: net_ok_def)
  qed
  then show ?thesis using ok i n' by (auto simp: net_ok_def dest: set_update_subset_insert[THEN subsetD])
qed

lemma net_ok_skip: "net_ok E hist m ops ns \<Longrightarrow> (\<forall>j b. x = Announce j b \<longrightarrow> m \<le> j) \<Longrightarrow> net_ok E hist m (ops @ [x]) ns"
  by (auto simp: net_ok_def)

lemma net_ok_step:
  assumes E: "env_laws E" and hist: "honest_log E hist" and lower: "\<forall>b \<in> set hist. lower_hex (b_account b)"
    and ok: "net_ok E hist m ops ns" and x: "\<forall>i b. x = Announce i b \<longrightarrow> b \<in> set hist"
  shows "net_ok E hist m (ops @ [x]) (net_step E x ns)"
proof -
  have node: "honest_node E hist (ns ! i)" if "i < m" for i using ok that by (auto simp: net_ok_def)
  have len: "length ns = m" using ok by (simp add: net_ok_def)
  show ?thesis
  proof (cases x)
    case (Announce i b)
    show ?thesis
    proof (cases "i < m")
      case True
      have b: "b \<in> set hist" using x Announce by blast
      obtain n' where n': "gn_add_block E b (ns ! i) = (Ok (), n')" "honest_node E hist n'" "registers E b n'"
        "map_of (gn_nonce_registry (ns ! i)) \<subseteq>\<^sub>m map_of (gn_nonce_registry n')"
        using honest_add[OF E hist lower node[OF True] b] by blast
      have "net_ok E hist m (ops @ [Announce i b]) (ns[i := n'])"
        by (rule net_ok_update[OF ok True n'(2,4)]) (simp_all add: n'(3))
      then show ?thesis using n'(1) True len by (simp add: Announce)
    qed (use net_ok_skip[OF ok, of x] Announce len in auto)
  next
    case (Exchange i j)
    show ?thesis
    proof (cases "i < m \<and> j < m")
      case True
      obtain n' where n': "gn_merge_registry (gn_nonce_registry (ns ! j)) (ns ! i) = ([], n')" "honest_node E hist n'"
        "map_of (gn_nonce_registry (ns ! i)) \<subseteq>\<^sub>m map_of (gn_nonce_registry n')"
        using honest_merge[OF env_lawsD(1)[OF E] hist lower node[of i] node[of j]] True by blast
      have "net_ok E hist m (ops @ [Exchange i j]) (ns[i := n'])"
        by (rule net_ok_update[OF ok _ n'(2,3)]) (simp_all add: True)
      then show ?thesis using n'(1) True len by (simp add: Exchange)
    qed (use net_ok_skip[OF ok, of x] Exchange len in auto)
  qed
qed

lemma net_ok_run:
  assumes "env_laws E" "honest_log E hist" "\<forall>b \<in> set hist. lower_hex (b_account b)"
    and "net_ok E hist m done_ops ns" "\<forall>i b. Announce i b \<in> set ops \<longrightarrow> b \<in> set hist"
  shows "net_ok E hist m (done_ops @ ops) (fold (net_step E) ops ns)"
  using assms(4,5)
proof (induction ops arbitrary: done_ops ns)
  case (Cons x ops)
  have "net_ok E hist m (done_ops @ [x]) (net_step E x ns)"
    by (rule net_ok_step[OF assms(1-3) Cons.prems(1)]) (use Cons.prems(2) in auto)
  then show ?case using Cons.IH[of "done_ops @ [x]"] Cons.prems(2) by simp
qed simp

lemma net_start_ok:
  assumes "length hist \<le> r"
  shows "net_ok E hist (length ids) [] (map (\<lambda>i. gn_with_capacity i k r) ids)"
proof -
  have "honest_node E hist (gn_with_capacity i k r)" for i
    using assms gn_new_ok[of i k r] by (simp add: honest_node_def all_filed_def gn_with_capacity_def)
  then show ?thesis by (simp add: net_ok_def)
qed

text \<open>Two nodes that exchange their registries end up with the same one.\<close>

lemma exchange_agrees:
  assumes E: "hex_laws E" and hist: "honest_log E hist" and lower: "\<forall>b \<in> set hist. lower_hex (b_account b)"
    and ok: "net_ok E hist m ops ns" and i: "i < m" "j < m"
  shows "\<exists>reg. bt_wf reg \<and> gn_nonce_registry (fold (net_step E) [Exchange i j, Exchange j i] ns ! i) = reg \<and>
    gn_nonce_registry (fold (net_step E) [Exchange i j, Exchange j i] ns ! j) = reg \<and>
    map_of (gn_nonce_registry (ns ! i)) \<subseteq>\<^sub>m map_of reg \<and> map_of (gn_nonce_registry (ns ! j)) \<subseteq>\<^sub>m map_of reg"
proof -
  have node: "honest_node E hist (ns ! k)" if "k < m" for k using ok that by (auto simp: net_ok_def)
  have len: "length ns = m" using ok by (simp add: net_ok_def)
  have wf: "bt_wf (gn_nonce_registry n)" if "honest_node E hist n" for n
    using that by (simp add: honest_node_def node_ok_def registry_ok_def)
  obtain n1 where n1: "gn_merge_registry (gn_nonce_registry (ns ! j)) (ns ! i) = ([], n1)" "honest_node E hist n1"
    "map_of (gn_nonce_registry n1) = map_of (gn_nonce_registry (ns ! j)) ++ map_of (gn_nonce_registry (ns ! i))"
    "map_of (gn_nonce_registry (ns ! i)) \<subseteq>\<^sub>m map_of (gn_nonce_registry n1)"
    using honest_merge[OF E hist lower node[OF i(1)] node[OF i(2)]] by blast
  define ns1 where "ns1 = ns[i := n1]"
  have old: "honest_node E hist (ns1 ! j)" using node[OF i(2)] n1(2) i len by (simp add: ns1_def nth_list_update)
  obtain n2 where n2: "gn_merge_registry (gn_nonce_registry n1) (ns1 ! j) = ([], n2)" "honest_node E hist n2"
    "map_of (gn_nonce_registry n2) = map_of (gn_nonce_registry n1) ++ map_of (gn_nonce_registry (ns1 ! j))"
    using honest_merge[OF E hist lower old n1(2)] by blast
  have run: "fold (net_step E) [Exchange i j, Exchange j i] ns = ns1[j := n2]"
    using n1(1) n2(1) i len by (simp add: ns1_def)
  have agree: "map_of (gn_nonce_registry (ns ! j)) \<subseteq>\<^sub>m map_of (gn_nonce_registry n1)"
  proof (unfold map_le_def, intro ballI)
    fix k assume "k \<in> dom (map_of (gn_nonce_registry (ns ! j)))"
    then obtain h where h: "map_of (gn_nonce_registry (ns ! j)) k = Some h" by blast
    moreover have "h' = h" if "map_of (gn_nonce_registry (ns ! i)) k = Some h'" for h'
      using files_unique[OF E hist lower] all_filedD h that node[OF i(1)] node[OF i(2)] unfolding honest_node_def by metis
    ultimately show "map_of (gn_nonce_registry (ns ! j)) k = map_of (gn_nonce_registry n1) k"
      by (auto simp: n1(3) map_add_def split: option.split)
  qed
  then have "map_of (gn_nonce_registry (ns1 ! j)) \<subseteq>\<^sub>m map_of (gn_nonce_registry n1)"
    using i len by (cases "i = j") (simp_all add: ns1_def)
  then have "map_of (gn_nonce_registry n2) = map_of (gn_nonce_registry n1)"
    unfolding n2(3) by (rule map_add_subsumed2)
  then have "gn_nonce_registry n2 = gn_nonce_registry n1"
    using bt_ext[OF wf[OF n2(2)] wf[OF n1(2)]] by simp
  then show ?thesis
    using run wf[OF n1(2)] n1(4) agree i len by (intro exI[of _ "gn_nonce_registry n1"]) (auto simp: ns1_def nth_list_update)
qed

end
