(* ===== verification/Serialization.thy ===== *)
theory Serialization
  imports Block
begin

text \<open>
  Crate \<open>arxia-lattice\<close>, file \<open>serialization.rs\<close>: the 193-byte compact encoding of a block,
  \<open>[1B type][32B account][32B previous][8B balance][8B nonce][8B timestamp]
  [8B amount/initial][32B destination or source][64B signature]\<close>, and its decoder.
\<close>

definition hex_decode_32 ::
    "('sk, 'vk, 'z) crypto_scheme \<Rightarrow> string \<Rightarrow> string \<Rightarrow> (bytes, arxia_error) result" where
  "hex_decode_32 E field_name s =
     and_then (map_err HexDecode (hex_decode E s)) (\<lambda>v.
       ok_or (to_array 32 v)
         (InvalidKey (field_name @ '' must be 64 hex chars (32 bytes), got '' @ display_nat (length v)
           @ '' bytes'')))"

definition zeros :: "nat \<Rightarrow> bytes" where
  "zeros n = replicate n 0"

fun type_byte :: "block_type \<Rightarrow> u8" where
  "type_byte (Open _) = 0"
| "type_byte (Send _ _) = 1"
| "type_byte (Receive _) = 2"
| "type_byte (Revoke _) = 3"

definition previous_bytes :: "('sk, 'vk, 'z) crypto_scheme \<Rightarrow> string \<Rightarrow> (bytes, arxia_error) result" where
  "previous_bytes E previous =
     (if previous = [] then Ok (zeros 32) else hex_decode_32 E ''previous'' previous)"

fun amount_field :: "block_type \<Rightarrow> u64" where
  "amount_field (Open initial_balance) = initial_balance"
| "amount_field (Send _ amount) = amount"
| "amount_field (Receive _) = 0"
| "amount_field (Revoke _) = 0"

fun reference_bytes :: "('sk, 'vk, 'z) crypto_scheme \<Rightarrow> block_type \<Rightarrow> (bytes, arxia_error) result" where
  "reference_bytes E (Send destination _) = hex_decode_32 E ''destination'' destination"
| "reference_bytes E (Receive source_hash) = hex_decode_32 E ''source_hash'' source_hash"
| "reference_bytes E (Revoke credential_hash) = hex_decode_32 E ''credential_hash'' credential_hash"
| "reference_bytes E (Open _) = Ok (zeros 32)"

definition to_compact_bytes :: "('sk, 'vk, 'z) crypto_scheme \<Rightarrow> block \<Rightarrow> (bytes, arxia_error) result" where
  "to_compact_bytes E b =
     and_then (hex_decode_32 E ''account'' (b_account b)) (\<lambda>account_bytes.
     and_then (previous_bytes E (b_previous b)) (\<lambda>prev.
     and_then (reference_bytes E (b_type b)) (\<lambda>ref.
       Ok ([type_byte (b_type b)] @ account_bytes @ prev
         @ u64_to_be (b_balance b) @ u64_to_be (b_nonce b) @ u64_to_be (b_timestamp b)
         @ u64_to_be (amount_field (b_type b)) @ ref
         @ (if length (b_signature b) = 64 then b_signature b else zeros 64)))))"

definition to_compact_bytes_strict ::
    "('sk, 'vk, 'z) crypto_scheme \<Rightarrow> block \<Rightarrow> (bytes, arxia_error) result" where
  "to_compact_bytes_strict E b =
     (if length (b_signature b) \<noteq> 64
      then Err (SignatureInvalid (''compact-bytes serialization requires 64-byte signature, got ''
             @ display_nat (length (b_signature b))))
      else to_compact_bytes E b)"

text \<open>\<open>data[i..j]\<close>, for \<open>i \<le> j \<le> data.len()\<close>.\<close>

definition slice :: "bytes \<Rightarrow> nat \<Rightarrow> nat \<Rightarrow> bytes" where
  "slice data i j = take (j - i) (drop i data)"

definition decode_type :: "u8 \<Rightarrow> u64 \<Rightarrow> string \<Rightarrow> (block_type, arxia_error) result" where
  "decode_type tag amount dest_src =
     (if tag = 0 then Ok (Open amount)
      else if tag = 1 then Ok (Send dest_src amount)
      else if tag = 2 then Ok (Receive dest_src)
      else if tag = 3 then Ok (Revoke dest_src)
      else Err (InvalidBlockType tag))"

definition from_compact_bytes ::
    "('sk, 'vk, 'z) arxia_env_scheme \<Rightarrow> bytes \<Rightarrow> (block, arxia_error) result" where
  "from_compact_bytes E data =
     (if length data < COMPACT_BLOCK_SIZE then Err (DataTooShort (length data) COMPACT_BLOCK_SIZE)
      else
        let tag = data ! 0;
            account = hex_encode E (slice data 1 33);
            prev_raw = slice data 33 65;
            previous = (if list_all (\<lambda>b. b = 0) prev_raw then [] else hex_encode E prev_raw);
            balance = u64_from_be (slice data 65 73);
            nonce = u64_from_be (slice data 73 81);
            timestamp = u64_from_be (slice data 81 89);
            amount = u64_from_be (slice data 89 97);
            dest_src = hex_encode E (slice data 97 129);
            signature = slice data 129 193
        in and_then (decode_type tag amount dest_src) (\<lambda>bt.
           and_then (compute_hash E account previous bt balance nonce timestamp) (\<lambda>hash.
             Ok \<lparr>b_account = account, b_previous = previous, b_type = bt, b_balance = balance,
                 b_nonce = nonce, b_timestamp = timestamp, b_hash = hash, b_signature = signature\<rparr>)))"

section \<open>Layout\<close>

lemma hex_decode_32_Ok: "hex_decode_32 E f s = Ok v \<longleftrightarrow> hex_decode E s = Ok v \<and> length v = 32"
  by (auto simp: hex_decode_32_def outcome_simps)

lemma length_zeros [simp]: "length (zeros n) = n"
  by (simp add: zeros_def)

lemma previous_bytes_length: "previous_bytes E p = Ok v \<Longrightarrow> length v = 32"
  by (auto simp: previous_bytes_def hex_decode_32_Ok split: if_splits)

lemma reference_bytes_length: "reference_bytes E t = Ok v \<Longrightarrow> length v = 32"
  by (cases t) (auto simp: hex_decode_32_Ok)

lemma to_compact_bytes_Ok:
  "to_compact_bytes E b = Ok d \<longleftrightarrow>
     (\<exists>a p r. hex_decode E (b_account b) = Ok a \<and> length a = 32 \<and> previous_bytes E (b_previous b) = Ok p \<and>
        reference_bytes E (b_type b) = Ok r \<and>
        d = [type_byte (b_type b)] @ a @ p @ u64_to_be (b_balance b) @ u64_to_be (b_nonce b)
          @ u64_to_be (b_timestamp b) @ u64_to_be (amount_field (b_type b)) @ r
          @ (if length (b_signature b) = 64 then b_signature b else zeros 64))"
  by (auto simp: to_compact_bytes_def outcome_simps hex_decode_32_Ok)

lemma to_compact_bytes_length: "to_compact_bytes E b = Ok d \<Longrightarrow> length d = COMPACT_BLOCK_SIZE"
  by (auto simp: to_compact_bytes_Ok COMPACT_BLOCK_SIZE_def dest!: previous_bytes_length reference_bytes_length)

text \<open>The fields of an encoding, read back at their offsets.\<close>

lemma slice_layout:
  assumes "length a = 32" "length p = 32" "length n1 = 8" "length n2 = 8" "length n3 = 8" "length n4 = 8"
    "length r = 32" "length s = 64"
    and d: "d = [t] @ a @ p @ n1 @ n2 @ n3 @ n4 @ r @ s @ rest"
  shows "d ! 0 = t" "slice d 1 33 = a" "slice d 33 65 = p" "slice d 65 73 = n1" "slice d 73 81 = n2"
    "slice d 81 89 = n3" "slice d 89 97 = n4" "slice d 97 129 = r" "slice d 129 193 = s"
proof -
  have cut: "slice (xs @ ys @ zs) (length xs) (length xs + length ys) = ys" for xs ys zs
    by (simp add: slice_def)
  show "d ! 0 = t" using d by simp
  show "slice d 1 33 = a"
    using cut[of "[t]" a "p @ n1 @ n2 @ n3 @ n4 @ r @ s @ rest"] assms by simp
  show "slice d 33 65 = p"
    using cut[of "[t] @ a" p "n1 @ n2 @ n3 @ n4 @ r @ s @ rest"] assms by simp
  show "slice d 65 73 = n1"
    using cut[of "[t] @ a @ p" n1 "n2 @ n3 @ n4 @ r @ s @ rest"] assms by simp
  show "slice d 73 81 = n2"
    using cut[of "[t] @ a @ p @ n1" n2 "n3 @ n4 @ r @ s @ rest"] assms by simp
  show "slice d 81 89 = n3"
    using cut[of "[t] @ a @ p @ n1 @ n2" n3 "n4 @ r @ s @ rest"] assms by simp
  show "slice d 89 97 = n4"
    using cut[of "[t] @ a @ p @ n1 @ n2 @ n3" n4 "r @ s @ rest"] assms by simp
  show "slice d 97 129 = r"
    using cut[of "[t] @ a @ p @ n1 @ n2 @ n3 @ n4" r "s @ rest"] assms by simp
  show "slice d 129 193 = s"
    using cut[of "[t] @ a @ p @ n1 @ n2 @ n3 @ n4 @ r" s rest] assms by simp
qed

section \<open>Round trip\<close>

text \<open>
  A block in the form the lattice code produces: its hexadecimal fields are lower case, its
  signature has 64 bytes and its hash is its content hash. The previous hash is empty or not the
  hash of 32 zero bytes, which the encoding uses for the empty one.
\<close>

fun reference_of :: "block_type \<Rightarrow> string" where
  "reference_of (Open _) = []"
| "reference_of (Send destination _) = destination"
| "reference_of (Receive source_hash) = source_hash"
| "reference_of (Revoke credential_hash) = credential_hash"

definition canonical_block :: "('sk, 'vk, 'z) arxia_env_scheme \<Rightarrow> block \<Rightarrow> bool" where
  "canonical_block E b \<longleftrightarrow>
     lower_hex (b_account b) \<and> lower_hex (b_previous b) \<and> lower_hex (reference_of (b_type b)) \<and>
     hex_decode E (b_previous b) \<noteq> Ok (zeros 32) \<and>
     length (b_signature b) = 64 \<and> block_hash_of E b = Ok (b_hash b)"

lemma decode_type_byte:
  assumes E: "hex_laws E" and "lower_hex (reference_of t)" "reference_bytes E t = Ok r"
  shows "decode_type (type_byte t) (amount_field t) (hex_encode E r) = Ok t"
  using assms by (cases t) (auto simp: decode_type_def hex_decode_32_Ok hex_decode_lower)

lemma zeros_all: "length p = n \<Longrightarrow> list_all (\<lambda>b. b = 0) p \<longleftrightarrow> p = zeros n"
  unfolding zeros_def list_all_iff by (metis in_set_replicate replicate_eqI)

lemma previous_back:
  assumes E: "hex_laws E" and "lower_hex p" "hex_decode E p \<noteq> Ok (zeros 32)" "previous_bytes E p = Ok v"
  shows "(if list_all (\<lambda>b. b = 0) v then [] else hex_encode E v) = p"
  using assms previous_bytes_length[OF assms(4)]
  by (auto simp: previous_bytes_def hex_decode_32_Ok zeros_all hex_decode_lower split: if_splits)

lemma from_to_compact_bytes:
  assumes E: "hex_laws E" and b: "canonical_block E b" and d: "to_compact_bytes E b = Ok d"
  shows "from_compact_bytes E d = Ok b"
proof -
  obtain a p r where a: "hex_decode E (b_account b) = Ok a" "length a = 32"
    and p: "previous_bytes E (b_previous b) = Ok p" and r: "reference_bytes E (b_type b) = Ok r"
    and layout: "d = [type_byte (b_type b)] @ a @ p @ u64_to_be (b_balance b) @ u64_to_be (b_nonce b)
      @ u64_to_be (b_timestamp b) @ u64_to_be (amount_field (b_type b)) @ r @ b_signature b @ []"
    using d b by (auto simp: to_compact_bytes_Ok canonical_block_def)
  note len = a(2) previous_bytes_length[OF p] length_u64_bytes(1) length_u64_bytes(1) length_u64_bytes(1)
    length_u64_bytes(1) reference_bytes_length[OF r]
  have sig: "length (b_signature b) = 64" using b by (simp add: canonical_block_def)
  note fields = slice_layout[OF len sig layout]
  have "\<not> length d < COMPACT_BLOCK_SIZE"
    using to_compact_bytes_length[OF d] by simp
  moreover have "hex_encode E a = b_account b"
    using a E b by (simp add: hex_decode_lower canonical_block_def)
  moreover have "decode_type (type_byte (b_type b)) (amount_field (b_type b)) (hex_encode E r) = Ok (b_type b)"
    using b r E by (simp add: decode_type_byte canonical_block_def)
  moreover have "(if list_all (\<lambda>b. b = 0) p then [] else hex_encode E p) = b_previous b"
    using b p E by (intro previous_back) (simp_all add: canonical_block_def)
  moreover have "compute_hash E (b_account b) (b_previous b) (b_type b) (b_balance b) (b_nonce b)
      (b_timestamp b) = Ok (b_hash b)"
    using b by (simp add: canonical_block_def block_hash_of_def)
  ultimately show ?thesis
    by (simp add: from_compact_bytes_def Let_def fields del: One_nat_def)
qed

text \<open>The decoder reads the first 193 bytes only.\<close>

lemma slice_append: "j \<le> length d \<Longrightarrow> slice (d @ rest) i j = slice d i j"
  by (simp add: slice_def)

lemma from_compact_bytes_trailing:
  assumes "COMPACT_BLOCK_SIZE \<le> length d"
  shows "from_compact_bytes E (d @ rest) = from_compact_bytes E d"
proof -
  have "193 \<le> length d" using assms by (simp add: COMPACT_BLOCK_SIZE_def)
  then have "(d @ rest) ! 0 = d ! 0" by (cases d) auto
  moreover have "slice (d @ rest) i j = slice d i j" if "j \<le> 193" for i j
    using slice_append[of j d rest i] that \<open>193 \<le> length d\<close> by simp
  ultimately show ?thesis
    using assms by (simp add: from_compact_bytes_def)
qed

text \<open>What is decoded carries the hash of the decoded fields: the hash never travels.\<close>

lemma from_compact_bytes_hash: "from_compact_bytes E d = Ok b \<Longrightarrow> block_hash_of E b = Ok (b_hash b)"
  by (auto simp: from_compact_bytes_def block_hash_of_def Let_def outcome_simps split: if_splits)

lemma from_compact_bytes_signature:
  "from_compact_bytes E d = Ok b \<Longrightarrow> length (b_signature b) = 64"
  by (auto simp: from_compact_bytes_def Let_def slice_def COMPACT_BLOCK_SIZE_def outcome_simps split: if_splits)

text \<open>A \<open>Receive\<close> or \<open>Revoke\<close> ignores its amount field, so it has many encodings.\<close>

lemma amount_ignored:
  "decode_type 2 x s = decode_type 2 y s" "decode_type 3 x s = decode_type 3 y s"
  by (simp_all add: decode_type_def)

end
