(* ===== verification/Did.thy ===== *)
theory Did
  imports Crypto
begin

text \<open>
  Crate \<open>arxia-did\<close>: identifiers built from a public key, and the strict parser for received
  ones. The text of a decoding error of \<open>bs58\<close> is whatever the parameter returns.
\<close>

definition DID_PREFIX :: string where "DID_PREFIX = ''did:arxia:''"

definition DID_IDENTIFIER_BYTE_LEN :: nat where "DID_IDENTIFIER_BYTE_LEN = 32"

record arxia_did =
  did_text :: string
  did_public_key :: bytes

record parsed_arxia_did =
  pd_text :: string
  pd_identifier_hash :: bytes

definition strip_prefix :: "string \<Rightarrow> string \<Rightarrow> string option" where
  "strip_prefix p s = (if take (length p) s = p then Some (drop (length p) s) else None)"

definition did_from_public_key :: "('sk, 'vk, 'z) crypto_scheme \<Rightarrow> bytes \<Rightarrow> (arxia_did, arxia_error) result" where
  "did_from_public_key E public_key =
     and_then (validate_pubkey_strict E public_key) (\<lambda>_.
       let hash = hash_blake3_bytes E public_key;
           encoded = bs58_encode E hash
       in Ok \<lparr>did_text = DID_PREFIX @ encoded, did_public_key = public_key\<rparr>)"

definition did_identifier :: "arxia_did \<Rightarrow> string" where
  "did_identifier self = (case strip_prefix DID_PREFIX (did_text self) of Some i \<Rightarrow> i | None \<Rightarrow> did_text self)"

definition did_identifier_strict :: "arxia_did \<Rightarrow> (string, arxia_error) result" where
  "did_identifier_strict self =
     ok_or (strip_prefix DID_PREFIX (did_text self))
       (InvalidKey (''DID missing required prefix '' @ CHR 0x27 # DID_PREFIX @ [CHR 0x27]))"

definition parse_did :: "('sk, 'vk, 'z) crypto_scheme \<Rightarrow> string \<Rightarrow> (parsed_arxia_did, arxia_error) result" where
  "parse_did E s =
     and_then (ok_or (strip_prefix DID_PREFIX s)
       (InvalidKey (''DID missing required prefix '' @ CHR 0x27 # DID_PREFIX @ [CHR 0x27]))) (\<lambda>identifier_b58.
     and_then (map_err (\<lambda>e. InvalidKey (''DID identifier is not valid base58: '' @ e))
       (bs58_decode E identifier_b58)) (\<lambda>bytes.
     and_then (ok_or (to_array DID_IDENTIFIER_BYTE_LEN bytes)
       (InvalidKey (''DID identifier must decode to '' @ display_nat DID_IDENTIFIER_BYTE_LEN
          @ '' bytes, got '' @ display_nat (length bytes)))) (\<lambda>identifier_hash.
       Ok \<lparr>pd_text = s, pd_identifier_hash = identifier_hash\<rparr>)))"

text \<open>\<open>expect\<close>: a panic when the prefix is missing.\<close>

definition parsed_identifier :: "parsed_arxia_did \<Rightarrow> (string, unit) result" where
  "parsed_identifier self = (case strip_prefix DID_PREFIX (pd_text self) of Some i \<Rightarrow> Ok i | None \<Rightarrow> Panic)"

definition matches_pubkey :: "('sk, 'vk, 'z) crypto_scheme \<Rightarrow> parsed_arxia_did \<Rightarrow> bytes \<Rightarrow> bool" where
  "matches_pubkey E self pubkey \<longleftrightarrow> pd_identifier_hash self = hash_blake3_bytes E pubkey"

text \<open>\<open>bs58::decode\<close> inverts \<open>bs58::encode\<close>.\<close>

definition bs58_laws :: "('sk, 'vk, 'z) crypto_scheme \<Rightarrow> bool" where
  "bs58_laws E \<longleftrightarrow> (\<forall>bs. bs58_decode E (bs58_encode E bs) = Ok bs) \<and> (\<forall>s. bs58_decode E s \<noteq> Panic) \<and>
     (\<forall>s bs. bs58_decode E s = Ok bs \<longrightarrow> bs58_encode E bs = s)"

lemma strip_prefix_iff: "strip_prefix p s = Some r \<longleftrightarrow> s = p @ r"
  by (auto simp: strip_prefix_def) (metis append_take_drop_id)

lemma parse_did_Ok_iff:
  "parse_did E s = Ok d \<longleftrightarrow> (\<exists>r h. s = DID_PREFIX @ r \<and> bs58_decode E r = Ok h \<and> length h = 32 \<and>
     d = \<lparr>pd_text = s, pd_identifier_hash = h\<rparr>)"
  by (auto simp: parse_did_def outcome_simps strip_prefix_iff DID_IDENTIFIER_BYTE_LEN_def)

lemma parsed_identifier_total: "parse_did E s = Ok d \<Longrightarrow> \<exists>i. parsed_identifier d = Ok i \<and> pd_text d = DID_PREFIX @ i"
  by (auto simp: parse_did_Ok_iff parsed_identifier_def strip_prefix_def)

lemma did_parses_back:
  assumes "bs58_laws E" "blake3_laws E" "did_from_public_key E pk = Ok d"
  shows "parse_did E (did_text d) = Ok \<lparr>pd_text = did_text d, pd_identifier_hash = blake3 E pk\<rparr> \<and>
    matches_pubkey E \<lparr>pd_text = did_text d, pd_identifier_hash = blake3 E pk\<rparr> pk \<and>
    validate_pubkey_strict E pk = Ok ()"
  using assms
  by (auto simp: did_from_public_key_def outcome_simps Let_def parse_did_Ok_iff matches_pubkey_def
      hash_blake3_bytes_def bs58_laws_def blake3_laws_def)

text \<open>Two keys with one identifier are a collision of the hash.\<close>

lemma did_binds_key:
  assumes "bs58_laws E" "did_from_public_key E pk = Ok d" "did_from_public_key E pk' = Ok d'" "did_text d = did_text d'"
  shows "blake3 E pk = blake3 E pk'"
proof -
  have "bs58_encode E (blake3 E pk) = bs58_encode E (blake3 E pk')"
    using assms(2-4) by (auto simp: did_from_public_key_def outcome_simps Let_def hash_blake3_bytes_def)
  then show ?thesis using assms(1) unfolding bs58_laws_def by (metis result.inject(1))
qed

end
