(* ===== verification/Demo.thy ===== *)
theory Demo
  imports Block Did
begin

text \<open>
  A concrete environment: the real hexadecimal codec, and stand-ins for the hash, the signature
  scheme, the JSON text and base58 that satisfy every law the development assumes of them. The
  witnesses of the properties are evaluated in it. A key is a byte, its 32-byte form repeats it, a
  signature is the key followed by the digest of the message, and the digest is the end of the
  message; none of this is meant to be secure.
\<close>

section \<open>Hexadecimal\<close>

definition hex_digit :: "nat \<Rightarrow> char" where
  "hex_digit n = char_of (if n < 10 then n + 48 else n + 87)"

definition hex_value :: "char \<Rightarrow> nat option" where
  "hex_value c =
     (let n = of_char c :: nat in
      if 48 \<le> n \<and> n < 58 then Some (n - 48)
      else if 65 \<le> n \<and> n < 71 then Some (n - 55)
      else if 97 \<le> n \<and> n < 103 then Some (n - 87) else None)"

fun demo_hex_encode :: "bytes \<Rightarrow> string" where
  "demo_hex_encode [] = []"
| "demo_hex_encode (b # bs) = hex_digit (unat b div 16) # hex_digit (unat b mod 16) # demo_hex_encode bs"

fun demo_hex_decode :: "string \<Rightarrow> (bytes, string) result" where
  "demo_hex_decode [] = Ok []"
| "demo_hex_decode [c] = Err ''Odd number of digits''"
| "demo_hex_decode (c # d # s) =
     (case hex_value c of None \<Rightarrow> Err ''Invalid character''
      | Some h \<Rightarrow> (case hex_value d of None \<Rightarrow> Err ''Invalid character''
         | Some l \<Rightarrow> map_ok (\<lambda>bs. of_nat (16 * h + l) # bs) (demo_hex_decode s)))"

lemma of_char_hex_digit: "n < 16 \<Longrightarrow> (of_char (hex_digit n) :: nat) = (if n < 10 then n + 48 else n + 87)"
  by (simp add: hex_digit_def of_char_of)

lemma hex_value_digit: "n < 16 \<Longrightarrow> hex_value (hex_digit n) = Some n"
  by (simp add: hex_value_def Let_def of_char_hex_digit)

lemma hex_value_less: "hex_value c = Some n \<Longrightarrow> n < 16"
  by (auto simp: hex_value_def Let_def split: if_splits)

lemma hex_digit_lower: "n < 16 \<Longrightarrow> hex_digit n \<in> set ''0123456789abcdef''"
proof -
  have "\<forall>n \<in> set [0..<16]. hex_digit n \<in> set ''0123456789abcdef''" by (simp add: hex_digit_def upt_rec char_of_def bit_0)
  then show "n < 16 \<Longrightarrow> ?thesis" by simp
qed

lemma char_cases_hex:
  assumes "hex_value c = Some n"
  shows "c \<in> set ''0123456789abcdefABCDEF'' \<and> (c \<in> set ''0123456789abcdef'' \<longrightarrow> hex_digit n = c)"
proof -
  have table: "\<forall>k \<in> set ([48..<58] @ [65..<71] @ [97..<103]). (char_of k :: char) \<in> set ''0123456789abcdefABCDEF'' \<and>
      ((char_of k :: char) \<in> set ''0123456789abcdef'' \<longrightarrow>
        hex_digit (if k < 58 then k - 48 else if k < 71 then k - 55 else k - 87) = char_of k)"
    by (simp add: hex_digit_def upt_rec char_of_def bit_0)
  have k: "(of_char c :: nat) \<in> set ([48..<58] @ [65..<71] @ [97..<103])"
    "n = (if (of_char c :: nat) < 58 then of_char c - 48 else if (of_char c :: nat) < 71 then of_char c - 55 else of_char c - 87)"
    using assms unfolding hex_value_def Let_def set_append set_upt by (auto split: if_splits)
  from bspec[OF table k(1), folded k(2), unfolded char_of_char] show ?thesis .
qed

lemma demo_hex_round: "demo_hex_decode (demo_hex_encode bs) = Ok bs"
proof (induction bs)
  case (Cons b bs)
  have lt: "unat b < 256" using unsigned_less[of b] by simp
  then have "unat b div 16 < 16" by linarith
  moreover have "(of_nat (16 * (unat b div 16) + unat b mod 16) :: u8) = b" by simp
  ultimately show ?case using Cons by (simp add: hex_value_digit)
qed simp

lemma length_demo_hex_encode: "length (demo_hex_encode bs) = 2 * length bs"
  by (induction bs) simp_all

lemma demo_hex_encode_lower: "set (demo_hex_encode bs) \<subseteq> set ''0123456789abcdef''"
proof (induction bs)
  case (Cons b bs)
  have "unat b < 256" using unsigned_less[of b] by simp
  then have "unat b div 16 < 16" by linarith
  then have "hex_digit (unat b div 16) \<in> set ''0123456789abcdef''" "hex_digit (unat b mod 16) \<in> set ''0123456789abcdef''"
    by (simp_all only: hex_digit_lower mod_less_divisor zero_less_numeral)
  then show ?case using Cons by (simp only: demo_hex_encode.simps set_simps insert_subset)
qed simp

lemma demo_hex_decode_Ok:
  "demo_hex_decode s = Ok bs \<Longrightarrow> length s = 2 * length bs \<and> set s \<subseteq> set ''0123456789abcdefABCDEF'' \<and>
    (lower_hex s \<longrightarrow> demo_hex_encode bs = s)"
proof (induction s arbitrary: bs rule: demo_hex_decode.induct)
  case (3 c d s)
  then obtain h l cs where h: "hex_value c = Some h" "hex_value d = Some l" and
    cs: "demo_hex_decode s = Ok cs" "bs = of_nat (16 * h + l) # cs"
    by (auto simp: outcome_simps split: option.splits)
  note IH = 3(1)[OF h cs(1)]
  note small = hex_value_less[OF h(1)] hex_value_less[OF h(2)]
  note ch = char_cases_hex[OF h(1)] char_cases_hex[OF h(2)]
  have "unat (of_nat (16 * h + l) :: u8) = 16 * h + l" using small by (simp only: unat_of_nat) simp
  then have enc: "demo_hex_encode bs = hex_digit h # hex_digit l # demo_hex_encode cs"
    using small cs(2) by simp
  have "length (c # d # s) = 2 * length bs" using IH cs(2) by simp
  moreover have "set (c # d # s) \<subseteq> set ''0123456789abcdefABCDEF''" using IH ch by (simp only: set_simps insert_subset)
  moreover have "lower_hex (c # d # s) \<Longrightarrow> demo_hex_encode bs = c # d # s"
    using IH ch enc unfolding lower_hex_def by (simp only: set_simps(2)[of c] set_simps(2)[of d] insert_subset)
  ultimately show ?case by blast
qed (simp_all add: lower_hex_def)

lemma demo_hex_no_panic: "demo_hex_decode s \<noteq> Panic"
  by (induction s rule: demo_hex_decode.induct) (simp_all add: outcome_simps split: option.split)

section \<open>The environment\<close>

definition demo_digest :: "bytes \<Rightarrow> bytes" where
  "demo_digest m = take 32 (rev m @ replicate 32 0)"

definition demo_vk :: "u8 \<Rightarrow> u8" where
  "demo_vk k = (if k = 0 then 1 else k)"

definition demo_verify :: "u8 \<Rightarrow> bytes \<Rightarrow> bytes \<Rightarrow> (unit, string) result" where
  "demo_verify v m s = (if s = replicate 32 v @ demo_digest m then Ok () else Err ''signature'')"

fun demo_json :: "block_type \<Rightarrow> (string, string) result" where
  "demo_json (Open x) = Ok (CHR ''O'' # display_u64 x)"
| "demo_json (Send d x) = Ok (CHR ''S'' # display_u64 x @ CHR '':'' # d)"
| "demo_json (Receive h) = Ok (CHR ''R'' # h)"
| "demo_json (Revoke h) = Ok (CHR ''V'' # h)"

definition demo_env :: "(u8, u8) arxia_env" where
  "demo_env =
     \<lparr>hex_decode = demo_hex_decode, hex_encode = demo_hex_encode,
      blake3 = demo_digest, blake3_to_hex = demo_hex_encode,
      vk_from_bytes = (\<lambda>b. if b = replicate 32 (hd b) then Ok (hd b) else Err ''point''),
      vk_to_bytes = replicate 32, vk_is_weak = (\<lambda>v. v = 0),
      vk_verify_strict = demo_verify, vk_verify = demo_verify,
      sk_verifying_key = demo_vk, sk_sign = (\<lambda>k m. replicate 32 (demo_vk k) @ demo_digest m),
      bs58_encode = map (\<lambda>b. char_of (unat b)), bs58_decode = (\<lambda>s. Ok (str_bytes s)),
      block_type_json = demo_json\<rparr>"

lemma demo_env_simps [simp]:
  "hex_decode demo_env = demo_hex_decode" "hex_encode demo_env = demo_hex_encode"
  "blake3 demo_env = demo_digest" "blake3_to_hex demo_env = demo_hex_encode"
  "vk_to_bytes demo_env = replicate 32" "vk_is_weak demo_env = (\<lambda>v. v = 0)"
  "vk_verify_strict demo_env = demo_verify" "vk_verify demo_env = demo_verify"
  "sk_verifying_key demo_env = demo_vk" "block_type_json demo_env = demo_json"
  "sk_sign demo_env = (\<lambda>k m. replicate 32 (demo_vk k) @ demo_digest m)"
  "vk_from_bytes demo_env = (\<lambda>b. if b = replicate 32 (hd b) then Ok (hd b) else Err ''point'')"
  by (simp_all add: demo_env_def)

lemma demo_hex_laws: "hex_laws demo_env"
  using demo_hex_decode_Ok demo_hex_encode_lower
  by (simp add: hex_laws_def demo_hex_round length_demo_hex_encode demo_hex_no_panic lower_hex_def)

lemma length_demo_digest [simp]: "length (demo_digest m) = 32"
  by (auto simp: demo_digest_def min_def)

lemma demo_blake3_laws: "blake3_laws demo_env"
  by (simp add: blake3_laws_def)

lemma demo_ed25519_laws: "ed25519_laws demo_env"
  by (simp add: ed25519_laws_def demo_verify_def demo_vk_def)

lemma demo_json_laws: "json_laws demo_env"
proof -
  have "demo_json t = demo_json u \<Longrightarrow> t = u" for t u
    by (cases t; cases u) (auto simp: split_at_separator display_no_colon)
  moreover have "\<exists>j. demo_json t = Ok j" for t by (cases t) simp_all
  ultimately show ?thesis by (simp add: json_laws_def)
qed

lemma demo_env_laws: "env_laws demo_env"
  by (simp add: env_laws_def demo_hex_laws demo_blake3_laws demo_ed25519_laws demo_json_laws)

section \<open>The JSON text of serde\<close>

text \<open>The same environment with the text \<open>serde_json\<close> documents, for printable characters: a backslash
  before quotation marks and backslashes.\<close>

fun demo_escape :: "string \<Rightarrow> string" where
  "demo_escape [] = []"
| "demo_escape (c # s) = (if c = CHR 0x22 \<or> c = CHR 0x5C then [CHR 0x5C, c] else [c]) @ demo_escape s"

fun demo_serde :: "block_type \<Rightarrow> (string, string) result" where
  "demo_serde (Open x) = Ok (json_variant ''Open'' (json_member ''initial_balance'' (display_u64 x)))"
| "demo_serde (Send d x) = Ok (json_variant ''Send'' (json_member ''destination'' (quoted (demo_escape d)) @ '','' @
     json_member ''amount'' (display_u64 x)))"
| "demo_serde (Receive h) = Ok (json_variant ''Receive'' (json_member ''source_hash'' (quoted (demo_escape h))))"
| "demo_serde (Revoke h) = Ok (json_variant ''Revoke'' (json_member ''credential_hash'' (quoted (demo_escape h))))"

definition demo_serde_env :: "(u8, u8) arxia_env" where
  "demo_serde_env = demo_env\<lparr>block_type_json := demo_serde\<rparr>"

lemma demo_escape_inj: "demo_escape s = demo_escape t \<longleftrightarrow> s = t"
proof (induction s arbitrary: t)
  case Nil
  then show ?case by (cases t) auto
next
  case (Cons c s)
  then show ?case by (cases t) auto
qed

lemma demo_escape_quotes: "quotes_escaped p (demo_escape s)"
  by (induction s arbitrary: p) simp_all

lemma demo_serde_laws: "json_laws demo_serde_env" "json_text_laws demo_serde_env"
proof -
  have "t = u" if "demo_serde t = demo_serde u" for t u
  proof (cases t; cases u)
    fix d x e y assume t: "t = Send d x" "u = Send e y"
    let ?tail = "CHR 0x22 # '','' @ CHR 0x22 # ''amount'' @ [CHR 0x22]"
    have "(demo_escape d @ ?tail) @ CHR '':'' # display_u64 x = (demo_escape e @ ?tail) @ CHR '':'' # display_u64 y"
      using that t by (simp add: json_variant_def json_member_def quoted_def)
    from iffD1[OF split_at_last_separator this] show "t = u"
      using t by (simp add: display_no_colon demo_escape_inj)
  qed (use that in \<open>simp_all add: json_variant_def json_member_def quoted_def demo_escape_inj\<close>)
  moreover have "\<exists>j. demo_serde t = Ok j" for t by (cases t) simp_all
  ultimately show "json_laws demo_serde_env" by (simp add: json_laws_def demo_serde_env_def)
  show "json_text_laws demo_serde_env"
    unfolding json_text_laws_def demo_serde_env_def
    by (rule exI[of _ demo_escape]) (simp add: demo_escape_quotes)
qed

lemma demo_serde_env_laws: "hex_laws demo_serde_env" "blake3_laws demo_serde_env"
  using demo_hex_laws demo_blake3_laws by (simp_all add: hex_laws_def blake3_laws_def demo_serde_env_def)

text \<open>The digest sees the last 32 bytes.\<close>

lemma demo_digest_suffix: "32 \<le> length m \<Longrightarrow> demo_digest (p @ m) = demo_digest m"
  by (simp add: demo_digest_def)

lemma demo_bs58_laws: "bs58_laws demo_env"
proof -
  have "map (\<lambda>x. of_nat (of_char (char_of (unat x) :: char))) bs = bs" for bs :: bytes
  proof (rule map_idI)
    fix x :: u8
    have "unat x < 256" using unsigned_less[of x] by simp
    then show "of_nat (of_char (char_of (unat x) :: char)) = x" by (simp add: of_char_of)
  qed
  moreover have "map (\<lambda>c. char_of (unat (of_nat (of_char c) :: u8))) s = s" for s :: string
  proof (rule map_idI)
    fix c :: char
    show "char_of (unat (of_nat (of_char c) :: u8)) = c" by (simp add: unat_of_nat of_char_mod_256)
  qed
  ultimately show ?thesis by (simp add: bs58_laws_def demo_env_def str_bytes_def comp_def)
qed

end
