(* ===== verification/Lattice_Properties.thy ===== *)
theory Lattice_Properties
  imports Ledger Serialization Demo
begin

text \<open>
  What the lattice promises: the properties of blocks, account chains, the ledger and the compact
  form, each applied at a concrete input by its witness.
\<close>

section \<open>A concrete account\<close>

definition demo_outcome :: "(u8, u8) ac_outcome" where
  "demo_outcome = ac_open demo_env 1000 7 (ac_new demo_env 1) vc_new"

definition demo_account :: "(u8, u8) account_chain" where
  "demo_account = fst (snd demo_outcome)"

lemma demo_opened:
  "\<exists>b vc. ac_open demo_env 1000 7 (ac_new demo_env 1) vc_new = (Ok b, demo_account, vc) \<and>
    ac_chain demo_account = [b] \<and> genesis_ok b \<and> b_type b = Open 1000 \<and> verify_block demo_env b = Ok ()"
  and demo_account_ok: "ac_ok demo_env demo_account"
  and demo_account_state: "ac_balance demo_account = 1000" "ac_nonce demo_account = 1"
    "ac_chain demo_account \<noteq> []" "ac_consumed_sources demo_account = {}"
proof -
  obtain r self vc where r: "ac_open demo_env 1000 7 (ac_new demo_env 1) vc_new = (r, self, vc)"
    by (metis prod_cases3)
  note res = ac_open_result[OF demo_env_laws ac_new_ok r]
  have "is_ok r" using res by (simp add: ac_new_def MAX_INITIAL_BALANCE_PER_ACCOUNT_def ONE_ARX_def Let_def)
  then obtain b where b: "r = Ok b" by (auto simp: outcome_simps)
  have self: "self = demo_account" using r by (simp add: demo_account_def demo_outcome_def)
  have ok: "ac_ok demo_env demo_account" "ac_chain demo_account = [b]" "genesis_ok b" "b_type b = Open 1000"
    "ac_balance demo_account = 1000"
    using res by (simp_all add: b self)
  then show "ac_ok demo_env demo_account" "ac_balance demo_account = 1000" "ac_chain demo_account \<noteq> []"
    by simp_all
  show "ac_nonce demo_account = 1" "ac_consumed_sources demo_account = {}"
    using ok by (simp_all add: ac_ok_def genesis_ok_def received_sources_def)
  show "\<exists>b vc. ac_open demo_env 1000 7 (ac_new demo_env 1) vc_new = (Ok b, demo_account, vc) \<and>
      ac_chain demo_account = [b] \<and> genesis_ok b \<and> b_type b = Open 1000 \<and> verify_block demo_env b = Ok ()"
    using r b self ok by (simp add: ac_ok_def chain_valid_def)
qed

lemma demo_hex_replicate:
  "demo_hex_encode (replicate n b) = concat (replicate n [hex_digit (unat b div 16), hex_digit (unat b mod 16)])"
  by (induction n) simp_all

lemma demo_account_id: "ac_public_key_hex demo_account = concat (replicate 32 ''01'')"
proof -
  have "ac_public_key_hex demo_account = ac_public_key_hex (ac_new demo_env 1)"
    by (simp add: demo_account_def demo_outcome_def ac_open_def push_sealed_def Let_def
        split: result.split)
  also have "\<dots> = concat (replicate 32 [hex_digit 0, hex_digit 1])"
    by (simp only: ac_new_def Let_def demo_env_simps demo_vk_def account_chain.simps one_neq_zero if_False demo_hex_replicate)
      simp
  also have "[hex_digit 0, hex_digit 1] = ''01''" by (simp add: hex_digit_def char_of_def bit_0)
  finally show ?thesis .
qed

section \<open>Accounts\<close>

text \<open>C1. Whatever an opened account does, in any order and with any arguments, its chain is one that
  chain verification accepts, holds its own blocks only, receives no send twice, and ends in its
  balance and its nonce, which counts the blocks; the balance never passes the cap.\<close>

theorem account_run:
  assumes E: "env_laws E" and opened: "ac_open E x now (ac_new E k) vc = (Ok b, self, vc')"
    and run: "fold (ac_guarded_step E) ops (self, vc') = (self', vc'')"
  shows "verify_chain_integrity E (ac_chain self') = Ok () \<and>
    (\<forall>c \<in> set (ac_chain self'). b_account c = ac_public_key_hex self') \<and>
    ac_balance self' = b_balance (last (ac_chain self')) \<and> unat (ac_nonce self') = length (ac_chain self') \<and>
    ac_balance self' \<le> MAX_INITIAL_BALANCE_PER_ACCOUNT \<and> distinct (received_sources (ac_chain self'))"
proof -
  have "ac_opened E (self, vc')"
    using ac_open_result[OF E ac_new_ok opened] by (simp add: ac_opened_def)
  then have "ac_opened E (self', vc'')" using account.run_inv[of E "(self, vc')" ops] run by simp
  then have ok: "ac_ok E self'" "ac_chain self' \<noteq> []" using E by (simp_all add: ac_opened_def)
  then have "unat (b_nonce (last (ac_chain self'))) = length (ac_chain self')"
    using chain_valid_nonces[of E "ac_chain self'" "length (ac_chain self') - 1"]
    by (simp add: ac_ok_def last_conv_nth)
  then show ?thesis using ok by (simp add: ac_ok_def verify_chain_integrity_Ok_iff)
qed

theorem account_run_witness:
  "\<exists>self' vc''. verify_chain_integrity demo_env (ac_chain self') = Ok () \<and>
    fold (ac_guarded_step demo_env) [OpSend ''bob'' 400 8, OpSend ''bob'' 4000 9]
      (demo_account, snd (snd demo_outcome)) = (self', vc'')"
proof -
  obtain b vc where o: "ac_open demo_env 1000 7 (ac_new demo_env 1) vc_new = (Ok b, demo_account, vc)"
    using demo_opened by blast
  then have vc: "vc = snd (snd demo_outcome)" by (simp add: demo_outcome_def)
  obtain self' vc'' where r: "fold (ac_guarded_step demo_env) [OpSend ''bob'' 400 8, OpSend ''bob'' 4000 9]
      (demo_account, vc) = (self', vc'')" by (metis prod.exhaust)
  show ?thesis using account_run[OF demo_env_laws o r] r vc by blast
qed

text \<open>C10. A send succeeds exactly when the amount is positive, covered by the balance and not sent to
  the account itself; it appends one Send block, debits exactly the amount, and on any error changes
  neither the account nor its clock.\<close>

theorem send_spec:
  assumes "env_laws E" "ac_ok E self" "ac_nonce self \<noteq> - 1"
    and "ac_send E dest amount now self vc = (r, self', vc')"
  shows "r \<noteq> Panic \<and> ac_ok E self' \<and>
    (is_ok r \<longleftrightarrow> amount \<noteq> 0 \<and> dest \<noteq> ac_public_key_hex self \<and> amount \<le> ac_balance self) \<and>
    (case r of
       Ok b \<Rightarrow> b_type b = Send dest amount \<and> ac_chain self' = ac_chain self @ [b] \<and>
         unat (ac_balance self') + unat amount = unat (ac_balance self)
     | _ \<Rightarrow> self' = self \<and> vc' = vc)"
  using ac_send_result[OF assms(1,2,4,3)] by (cases r) auto

theorem send_spec_witness:
  "\<exists>b self' vc'. ac_send demo_env ''bob'' 400 8 demo_account vc_new = (Ok b, self', vc') \<and>
    unat (ac_balance self') = 600"
proof -
  obtain r self' vc' where r: "ac_send demo_env ''bob'' 400 8 demo_account vc_new = (r, self', vc')"
    by (metis prod_cases3)
  have n: "ac_nonce demo_account \<noteq> - 1" by (simp add: demo_account_state)
  have d: "''bob'' \<noteq> ac_public_key_hex demo_account" unfolding demo_account_id by (simp add: numeral_eq_Suc)
  note spec = send_spec[OF demo_env_laws demo_account_ok n r]
  have "is_ok r" using spec d by (simp add: demo_account_state)
  then show ?thesis using spec r by (auto simp: outcome_simps demo_account_state)
qed

text \<open>C11. A receive on an opened account succeeds exactly when the block is a Send to this account,
  its hash was not consumed before and the credit stays within the cap; it credits the amount of the
  Send once and remembers its hash; on any error nothing changes.\<close>

theorem receive_spec:
  assumes "env_laws E" "ac_ok E self" "ac_nonce self \<noteq> - 1" "ac_chain self \<noteq> []"
    and "ac_receive E sb now self vc = (r, self', vc')"
  shows "r \<noteq> Panic \<and> ac_ok E self' \<and>
    (is_ok r \<longleftrightarrow> (\<exists>amount. b_type sb = Send (ac_public_key_hex self) amount \<and>
       b_hash sb \<notin> ac_consumed_sources self \<and>
       unat (ac_balance self) + unat amount \<le> unat MAX_INITIAL_BALANCE_PER_ACCOUNT)) \<and>
    (case r of
       Ok b \<Rightarrow> \<exists>amount. b_type sb = Send (ac_public_key_hex self) amount \<and>
         b_type b = Receive (b_hash sb) \<and> ac_chain self' = ac_chain self @ [b] \<and>
         unat (ac_balance self') = unat (ac_balance self) + unat amount \<and>
         ac_consumed_sources self' = insert (b_hash sb) (ac_consumed_sources self)
     | _ \<Rightarrow> self' = self \<and> vc' = vc)"
  using ac_receive_result[OF assms(1,2,5,3,4)] by (cases r) auto

definition demo_send :: block where
  "demo_send = \<lparr>b_account = ''bob'', b_previous = ''p'', b_type = Send (ac_public_key_hex demo_account) 5,
     b_balance = 0, b_nonce = 2, b_timestamp = 8, b_hash = ''h'', b_signature = []\<rparr>"

theorem receive_spec_witness:
  "\<exists>b self' vc'. ac_receive demo_env demo_send 8 demo_account vc_new = (Ok b, self', vc') \<and>
    unat (ac_balance self') = 1005 \<and> ac_consumed_sources self' = {''h''}"
proof -
  obtain r self' vc' where r: "ac_receive demo_env demo_send 8 demo_account vc_new = (r, self', vc')"
    by (metis prod_cases3)
  have n: "ac_nonce demo_account \<noteq> - 1" by (simp add: demo_account_state)
  note spec = receive_spec[OF demo_env_laws demo_account_ok n demo_account_state(3) r]
  have "is_ok r" using spec
    by (simp add: demo_account_state demo_send_def unat_MAX_INITIAL_BALANCE)
  then show ?thesis using spec r by (auto simp: outcome_simps demo_account_state demo_send_def)
qed

text \<open>C13. A receive on an account that was never opened succeeds instead of failing: it writes a
  Receive block as the first of the chain, and the account can never be opened afterwards.\<close>

theorem receive_before_open_bricks:
  assumes "env_laws E" "b_type sb = Send (ac_public_key_hex (ac_new E k)) amount"
    and "amount \<le> MAX_INITIAL_BALANCE_PER_ACCOUNT"
  shows "\<exists>b self' vc'. ac_receive E sb now (ac_new E k) vc = (Ok b, self', vc') \<and>
    verify_chain_integrity E (ac_chain self') \<noteq> Ok () \<and>
    (\<forall>x t. ac_open E x t self' vc' = (Err AccountAlreadyOpen, self', vc'))"
proof -
  obtain b self' vc' where b: "ac_receive E sb now (ac_new E k) vc = (Ok b, self', vc')"
    "ac_chain self' = [b]" "\<not> is_open b"
    using ac_receive_unopened[OF assms(1,2) refl assms(3)] by blast
  then have "verify_chain_integrity E (ac_chain self') \<noteq> Ok ()"
    unfolding verify_chain_integrity_Ok_iff by (simp add: chain_valid_def genesis_ok_def)
  moreover have "ac_open E x t self' vc' = (Err AccountAlreadyOpen, self', vc')" for x t
    using b(2) by (simp add: ac_open_def)
  ultimately show ?thesis using b(1) by blast
qed

theorem receive_before_open_bricks_witness:
  "\<exists>b self' vc'. ac_receive demo_env (demo_send\<lparr>b_type := Send (ac_public_key_hex (ac_new demo_env 3)) 5\<rparr>) 8
      (ac_new demo_env 3) vc_new = (Ok b, self', vc') \<and>
    verify_chain_integrity demo_env (ac_chain self') \<noteq> Ok ()"
  using receive_before_open_bricks[OF demo_env_laws,
      of "demo_send\<lparr>b_type := Send (ac_public_key_hex (ac_new demo_env 3)) 5\<rparr>" 3 5]
  by (force simp: MAX_INITIAL_BALANCE_PER_ACCOUNT_def ONE_ARX_def)

section \<open>Chains and hashes\<close>

lemma links_valid_nth:
  "links_valid E a bs \<longleftrightarrow> (\<forall>b \<in> set bs. verify_block E b = Ok ()) \<and>
    (\<forall>i < length bs. linked ((a # bs) ! i) (bs ! i))"
proof (induction bs arbitrary: a)
  case (Cons b bs)
  have "(\<forall>i < Suc (length bs). linked ((a # b # bs) ! i) ((b # bs) ! i)) \<longleftrightarrow>
      linked a b \<and> (\<forall>i < length bs. linked ((b # bs) ! i) (bs ! i))"
    by (auto simp: less_Suc_eq_0_disj)
  then show ?case using Cons by auto
qed simp

text \<open>C8. Chain verification accepts exactly the chains that start with a genesis block (an Open with
  nonce 1 and no predecessor), whose every block verifies, and in which each block has the next nonce
  and names the hash of its predecessor.\<close>

theorem chain_integrity_correct:
  "verify_chain_integrity E bs = Ok () \<longleftrightarrow> bs = [] \<or>
     (b_nonce (hd bs) = 1 \<and> is_open (hd bs) \<and> b_previous (hd bs) = [] \<and>
      (\<forall>b \<in> set bs. verify_block E b = Ok ()) \<and>
      (\<forall>i. Suc i < length bs \<longrightarrow> unat (b_nonce (bs ! Suc i)) = Suc (unat (b_nonce (bs ! i))) \<and>
         b_previous (bs ! Suc i) = b_hash (bs ! i)))"
proof (cases bs)
  case (Cons b cs)
  then show ?thesis
    unfolding verify_chain_integrity_Ok_iff
    by (auto simp: chain_valid_def links_valid_nth genesis_ok_def linked_def)
qed simp

theorem chain_integrity_correct_witness:
  "verify_chain_integrity demo_env (ac_chain demo_account) = Ok ()"
  using chain_integrity_correct[of demo_env "ac_chain demo_account"] demo_opened
  by (auto simp: genesis_ok_def)

text \<open>C9. A hash binds every field of a block: two blocks with one hash agree on everything that is
  hashed, or their preimages are a collision of the hash function. The fields are joined by colons, and
  the previous hash may be any text, with colons of its own: the format of the block type's JSON text
  keeps the parts apart.\<close>

theorem hash_binds_block:
  assumes "hex_laws E" "blake3_laws E" "json_laws E" "json_text_laws E"
    and "block_hash_of E b = Ok h" "block_hash_of E c = Ok h"
  shows "same_content b c \<or>
    (\<exists>x y. block_preimage E b = Ok x \<and> block_preimage E c = Ok y \<and> x \<noteq> y \<and> blake3 E x = blake3 E y)"
  using assms by (rule block_hash_binding)

definition demo_colon_block :: "string \<Rightarrow> block" where
  "demo_colon_block previous =
     \<lparr>b_account = demo_hex_encode (replicate 32 1), b_previous = previous, b_type = Open 1000, b_balance = 1000,
      b_nonce = 1, b_timestamp = 7, b_hash = [], b_signature = []\<rparr>"

lemma demo_colon_hash:
  "block_hash_of demo_serde_env (demo_colon_block p) = block_hash_of demo_serde_env (demo_colon_block [])"
proof -
  let ?j = "json_variant ''Open'' (json_member ''initial_balance'' (display_u64 1000))"
  let ?tail = "?j @ '':'' @ display_u64 1000 @ '':'' @ display_u64 1 @ '':'' @ display_u64 7"
  have len: "32 \<le> length (str_bytes ?tail)"
    by (simp add: str_bytes_def json_variant_def json_member_def quoted_def display_u64_def display_nat.simps)
  have "str_bytes (block_content a q ?j 1000 1 7) = str_bytes (a @ '':'' @ q @ '':'') @ str_bytes ?tail" for a q
    by (simp add: block_content_def str_bytes_def)
  then have "demo_digest (str_bytes (block_content a q ?j 1000 1 7)) = demo_digest (str_bytes ?tail)" for a q
    by (simp only: demo_digest_suffix[OF len])
  then show ?thesis
    by (simp add: block_hash_of_def compute_hash_def demo_colon_block_def demo_serde_env_def)
qed

text \<open>The digest of the example environment is easy to collide: two blocks that differ in \<open>previous\<close>, one
  with a colon in it, have the same hash, and so different preimages with the same digest.\<close>

theorem hash_binds_block_witness:
  "\<exists>b c h x y. block_hash_of demo_serde_env b = Ok h \<and> block_hash_of demo_serde_env c = Ok h \<and>
    CHR '':'' \<in> set (b_previous b) \<and> b_previous b \<noteq> b_previous c \<and>
    block_preimage demo_serde_env b = Ok x \<and> block_preimage demo_serde_env c = Ok y \<and> x \<noteq> y \<and>
    blake3 demo_serde_env x = blake3 demo_serde_env y"
proof -
  let ?b = "demo_colon_block ''a:b''" and ?c = "demo_colon_block []"
  have "demo_hex_decode (demo_hex_encode (replicate 32 1)) = Ok (replicate 32 1)" by (rule demo_hex_round)
  then obtain h where h: "block_hash_of demo_serde_env ?c = Ok h"
    by (auto simp: block_hash_of_def compute_hash_def account_pubkey_def demo_colon_block_def demo_serde_env_def
        validate_pubkey_strict_def to_array_def demo_env_def outcome_simps)
  have b: "block_hash_of demo_serde_env ?b = Ok h" using h demo_colon_hash by simp
  have "\<not> same_content ?b ?c" "CHR '':'' \<in> set (b_previous ?b)" "b_previous ?b \<noteq> b_previous ?c"
    by (simp_all add: same_content_def demo_colon_block_def)
  then show ?thesis
    using hash_binds_block[OF demo_serde_env_laws demo_serde_laws b h] h b by blast
qed

section \<open>The compact form\<close>

text \<open>C12. The compact form has 193 bytes and decodes to the block it was made of, for blocks in
  canonical (lower-case) form; bytes after the first 193 are ignored.\<close>

theorem compact_roundtrip:
  assumes "hex_laws E" "canonical_block E b" "to_compact_bytes E b = Ok d"
  shows "length d = 193 \<and> from_compact_bytes E (d @ rest) = Ok b \<and>
    to_compact_bytes_strict E b = Ok d"
proof -
  have len: "length d = COMPACT_BLOCK_SIZE" using assms(3) by (rule to_compact_bytes_length)
  then have "from_compact_bytes E (d @ rest) = from_compact_bytes E d"
    by (intro from_compact_bytes_trailing) simp
  then show ?thesis
    using from_to_compact_bytes[OF assms] len assms(2,3)
    by (simp add: COMPACT_BLOCK_SIZE_def to_compact_bytes_strict_def canonical_block_def outcome_simps)
qed

lemma demo_compact: "\<exists>b d. canonical_block demo_env b \<and> to_compact_bytes demo_env b = Ok d"
proof -
  obtain b where b: "genesis_ok b" "verify_block demo_env b = Ok ()" "b_type b = Open 1000" "ac_chain demo_account = [b]"
    using demo_opened by blast
  then have acct: "b_account b = concat (replicate 32 ''01'')"
    using demo_account_ok demo_account_id by (simp add: ac_ok_def)
  have low: "lower_hex (b_account b)" unfolding acct lower_hex_def by auto
  obtain pk where pk: "demo_hex_decode (b_account b) = Ok pk" "length pk = 32"
    using b(2) by (auto simp: verify_block_Ok_iff account_pubkey_Ok)
  have canon: "canonical_block demo_env b"
    using b low by (auto simp: canonical_block_def genesis_ok_def verify_block_Ok_iff lower_hex_def zeros_def)
  obtain d where "to_compact_bytes demo_env b = Ok d"
    using pk b(1,3) by (auto simp: to_compact_bytes_Ok genesis_ok_def previous_bytes_def)
  then show ?thesis using canon by blast
qed

theorem compact_roundtrip_witness:
  "\<exists>b d. to_compact_bytes demo_env b = Ok d \<and> length d = 193 \<and> from_compact_bytes demo_env (d @ [7]) = Ok b"
  using demo_compact compact_roundtrip[OF demo_hex_laws, of _ _ "[7]"] by blast

section \<open>The ledger\<close>

text \<open>C7. A block is accepted exactly when it verifies, an Open stays within the supply, a Receive cites
  an accepted, unconsumed Send to its account, and it extends the chain of its account; then it is
  appended and the indices are updated. A refused block leaves every chain, both indices and the total
  as they were.\<close>

theorem add_block_spec:
  assumes r: "add_block E b L = (r, L')"
  shows "(r = Ok () \<longleftrightarrow> verify_block E b = Ok () \<and> supply_fits L b \<and> source_fits L b \<and>
      extends_chain (chain_of L (b_account b)) b) \<and>
    (r = Ok () \<longrightarrow> L' = accepted L b \<and>
      (\<forall>a. chain_of L' a = (if a = b_account b then chain_of L a @ [b] else chain_of L a))) \<and>
    (r \<noteq> Ok () \<longrightarrow> (\<forall>a. chain_of L' a = chain_of L a) \<and> lg_send_index L' = lg_send_index L \<and>
      lg_consumed_sends L' = lg_consumed_sends L \<and> lg_total_supply L' = lg_total_supply L)"
proof (cases "verify_block E b = Ok () \<and> supply_fits L b \<and> source_fits L b \<and>
    extends_chain (chain_of L (b_account b)) b")
  case True
  then show ?thesis using add_block_accepts[of E b L] r by (auto simp: chain_of_accepted)
next
  case False
  from add_block_rejects[OF False r] have "r \<noteq> Ok ()" "L' = L \<or> L' = L\<lparr>lg_chains := hm_entry (b_account b) [] id (lg_chains L)\<rparr>"
    by auto
  then show ?thesis using False by auto
qed

definition demo_genesis :: block where
  "demo_genesis = hd (ac_chain demo_account)"

lemma demo_genesis: "genesis_ok demo_genesis" "b_type demo_genesis = Open 1000"
    "verify_block demo_env demo_genesis = Ok ()" "ac_chain demo_account = [demo_genesis]"
  using demo_opened by (auto simp: demo_genesis_def)

lemma demo_genesis_fits:
  "supply_fits ledger_new demo_genesis" "source_fits ledger_new demo_genesis"
  "extends_chain (chain_of ledger_new a) demo_genesis"
  by (simp_all add: supply_fits_def source_fits_def extends_chain_def demo_genesis ledger_new_def
      chain_of_def get_chain_def unat_TOTAL_SUPPLY)

theorem add_block_spec_witness:
  "fst (add_block demo_env demo_genesis ledger_new) = Ok () \<and>
    chain_of (snd (add_block demo_env demo_genesis ledger_new)) (b_account demo_genesis) = [demo_genesis]"
proof -
  obtain r L' where r: "add_block demo_env demo_genesis ledger_new = (r, L')" by force
  note spec = add_block_spec[OF r]
  then have ok: "r = Ok ()" using demo_genesis(3) demo_genesis_fits by blast
  have "chain_of ledger_new (b_account demo_genesis) = []" by (simp add: ledger_new_def chain_of_def get_chain_def)
  then show ?thesis using spec r ok by (simp add: chain_of_accepted)
qed

text \<open>C2. After any blocks were offered in any order, every chain of the ledger is one that chain
  verification accepts and holds blocks of its account only; the total is exactly what the accepted
  Opens minted, within the protocol's supply; every Receive cites an accepted Send to its account, and
  no Send was received twice.\<close>

theorem ledger_run:
  assumes "L = fold (\<lambda>b L. snd (add_block E b L)) bs ledger_new"
  shows "(\<forall>a chain. get_chain L a = Some chain \<longrightarrow>
      verify_chain_integrity E chain = Ok () \<and> (\<forall>b \<in> set chain. b_account b = a)) \<and>
    unat (lg_total_supply L) = minted (ledger_blocks L) \<and> minted (ledger_blocks L) \<le> 10 ^ 15 \<and>
    (\<forall>r \<in> set (ledger_blocks L). \<forall>s. b_type r = Receive s \<longrightarrow>
      (\<exists>b \<in> set (ledger_blocks L). \<exists>x. b_hash b = s \<and> b_type b = Send (b_account r) x)) \<and>
    distinct (received_sources (ledger_blocks L))"
proof -
  have "ledger_ok E L" using ledger.run_inv[OF ledger_new_ok, of E bs] assms by simp
  then show ?thesis unfolding ledger_ok_def unat_TOTAL_SUPPLY by blast
qed

theorem ledger_run_witness:
  "\<exists>L. L = fold (\<lambda>b L. snd (add_block demo_env b L)) [demo_genesis, demo_send, demo_genesis] ledger_new \<and>
    unat (lg_total_supply L) = minted (ledger_blocks L) \<and> minted (ledger_blocks L) \<le> 10 ^ 15"
  using ledger_run[OF refl, of demo_env "[demo_genesis, demo_send, demo_genesis]"] by blast

text \<open>The ledger files chains under the account text, not under the key it decodes to: every spelling of a
  key in upper and lower case hexadecimal opens a chain of its own and mints again.\<close>

lemma spelling_opens:
  assumes E: "env_laws E" and a: "hex_decode E a = Ok (pubkey_of E k)"
  shows "\<exists>b. b_account b = a \<and> b_type b = Open x \<and> b_timestamp b = now \<and> genesis_ok b \<and> verify_block E b = Ok ()"
proof -
  note hex = hex_lawsD[OF env_lawsD(1)[OF E]] and ed = env_lawsD(3)[OF E]
  have acct: "account_pubkey E a = Ok (pubkey_of E k)" using a ed by (simp add: account_pubkey_Ok)
  obtain j where j: "block_type_json E (Open x) = Ok j"
    using env_lawsD(4)[OF E] unfolding json_laws_def by blast
  let ?d = "blake3 E (str_bytes (block_content a [] j x 1 now))"
  let ?b = "\<lparr>b_account = a, b_previous = [], b_type = Open x, b_balance = x, b_nonce = 1, b_timestamp = now,
    b_hash = hex_encode E ?d, b_signature = sk_sign E k ?d\<rparr>"
  have "compute_hash E a [] (Open x) x 1 now = Ok (hex_encode E ?d)"
    using acct validate_pubkey_of[OF ed] j env_lawsD(2)[OF E] by (simp add: compute_hash_Ok blake3_laws_def)
  then have "verify_block E ?b = Ok ()"
    using acct validate_pubkey_of[OF ed] hex(1) ed verify_signed[OF ed, of k ?d]
    by (simp add: verify_block_Ok_iff block_hash_of_def ed25519_lawsD crypto_sign_def)
  moreover have "genesis_ok ?b" by (simp add: genesis_ok_def is_open_def)
  ultimately show ?thesis by (intro exI[of _ ?b]) simp
qed

lemma spellings_mint_twice:
  assumes E: "env_laws E" and a: "hex_decode E a = Ok (pubkey_of E k)" "hex_decode E a' = Ok (pubkey_of E k)" "a \<noteq> a'"
    and x: "2 * unat (x :: u64) \<le> unat TOTAL_SUPPLY_MICRO_ARX"
  shows "\<exists>b b' L. b_account b = a \<and> b_account b' = a' \<and>
    add_block E b ledger_new = (Ok (), L) \<and> fst (add_block E b' L) = Ok () \<and>
    unat (lg_total_supply (snd (add_block E b' L))) = 2 * unat x"
proof -
  obtain b b' where b: "b_account b = a" "b_type b = Open x" "genesis_ok b" "verify_block E b = Ok ()"
    and b': "b_account b' = a'" "b_type b' = Open x" "genesis_ok b'" "verify_block E b' = Ok ()"
    using spelling_opens[OF E a(1)] spelling_opens[OF E a(2)] by blast
  let ?L = "accepted ledger_new b"
  have small: "unat x \<le> unat TOTAL_SUPPLY_MICRO_ARX" using x by simp
  have "add_block E b ledger_new = (Ok (), ?L)"
    using b small by (intro add_block_accepts)
      (simp_all add: supply_fits_def source_fits_def extends_chain_def ledger_new_def chain_of_def get_chain_def)
  moreover have "add_block E b' ?L = (Ok (), accepted ?L b')"
  proof (rule add_block_accepts[OF b'(4)])
    show "supply_fits ?L b'" using b b' x by (simp add: supply_fits_def accepted_def ledger_new_def)
    show "source_fits ?L b'" using b' by (simp add: source_fits_def)
    show "extends_chain (chain_of ?L (b_account b')) b'"
      using b b' a(3) by (simp add: chain_of_accepted extends_chain_def)
        (simp add: ledger_new_def chain_of_def get_chain_def)
  qed
  moreover have "unat (x + x) = 2 * unat x"
    using x by (simp add: unat_word_ariths unat_TOTAL_SUPPLY)
  then have "unat (lg_total_supply (accepted ?L b')) = 2 * unat x"
    using b b' by (simp add: accepted_def ledger_new_def)
  ultimately show ?thesis using b(1) b'(1) by (intro exI[of _ b] exI[of _ b'] exI[of _ ?L]) simp
qed

lemma demo_spellings:
  "demo_hex_decode (concat (replicate 32 ''0a'')) = Ok (pubkey_of demo_env 10)"
  "demo_hex_decode (concat (replicate 32 ''0A'')) = Ok (pubkey_of demo_env 10)"
proof -
  have "demo_hex_decode (concat (replicate n ''0a'')) = Ok (replicate n 10)"
    "demo_hex_decode (concat (replicate n ''0A'')) = Ok (replicate n 10)" for n
    by (induction n) (simp_all add: hex_value_def)
  then show "demo_hex_decode (concat (replicate 32 ''0a'')) = Ok (pubkey_of demo_env 10)"
    "demo_hex_decode (concat (replicate 32 ''0A'')) = Ok (pubkey_of demo_env 10)"
    by (simp_all only: pubkey_of_def demo_env_simps) (simp_all add: demo_vk_def)
qed

section \<open>A transfer, from account to account through the ledger\<close>

lemma last_account:
  "ac_ok E self \<Longrightarrow> ac_chain self \<noteq> [] \<Longrightarrow> b_account (last (ac_chain self)) = ac_public_key_hex self"
  by (simp add: ac_ok_def)

lemma sealed_extends:
  assumes ok: "ac_ok E self'" and chain: "ac_chain self' = ac_chain self @ [b]" "ac_chain self \<noteq> []"
    and sync: "chain_of L (ac_public_key_hex self) = ac_chain self"
    and old: "ac_ok E self"
  shows "verify_block E b = Ok () \<and> b_account b = ac_public_key_hex self \<and>
    ac_public_key_hex self' = ac_public_key_hex self \<and> extends_chain (chain_of L (b_account b)) b"
proof -
  have valid: "chain_valid E (ac_chain self @ [b])" using ok chain by (simp add: ac_ok_def)
  have a: "\<forall>c \<in> set (ac_chain self @ [b]). b_account c = ac_public_key_hex self'"
    using ok chain by (simp add: ac_ok_def)
  then have "b_account (last (ac_chain self)) = ac_public_key_hex self'" using chain(2) by simp
  then have id: "ac_public_key_hex self' = ac_public_key_hex self" using last_account[OF old chain(2)] by simp
  then show ?thesis using valid a chain(2) sync by (simp add: chain_valid_snoc extends_chain_def)
qed

text \<open>C6. When the sender's Send and then the receiver's Receive of it are offered to a ledger that
  holds both chains, both are accepted, the ledger again holds both chains, the sum of the two balances
  is what it was, and the same Receive is refused a second time.\<close>

theorem transfer_settles:
  assumes E: "env_laws E" and a: "ac_ok E alice" "ac_nonce alice \<noteq> - 1" and b: "ac_ok E bob" "ac_nonce bob \<noteq> - 1"
    and opened: "ac_chain alice \<noteq> []" "ac_chain bob \<noteq> []"
    and sync: "chain_of L (ac_public_key_hex alice) = ac_chain alice" "chain_of L (ac_public_key_hex bob) = ac_chain bob"
    and send: "ac_send E (ac_public_key_hex bob) amount now alice vc = (Ok s, alice', vc')"
    and receive: "ac_receive E s now' bob vc' = (Ok r, bob', vc'')"
    and fresh: "b_hash s \<notin> lg_consumed_sends L"
  shows "\<exists>L1 L2. add_block E s L = (Ok (), L1) \<and> add_block E r L1 = (Ok (), L2) \<and>
    chain_of L2 (ac_public_key_hex alice) = ac_chain alice' \<and>
    chain_of L2 (ac_public_key_hex bob) = ac_chain bob' \<and>
    unat (ac_balance alice') + unat (ac_balance bob') = unat (ac_balance alice) + unat (ac_balance bob) \<and>
    fst (add_block E r L2) \<noteq> Ok ()"
proof -
  have s: "ac_ok E alice'" "b_type s = Send (ac_public_key_hex bob) amount" "ac_chain alice' = ac_chain alice @ [s]"
    "unat (ac_balance alice') + unat amount = unat (ac_balance alice)" "ac_public_key_hex bob \<noteq> ac_public_key_hex alice"
    using ac_send_result[OF E a(1) send a(2)] by simp_all
  have r: "ac_ok E bob'" "b_type r = Receive (b_hash s)" "ac_chain bob' = ac_chain bob @ [r]"
    "unat (ac_balance bob') = unat (ac_balance bob) + unat amount"
    using ac_receive_result[OF E b(1) receive b(2) opened(2)] s(2) by auto
  note es = sealed_extends[OF s(1,3) opened(1) sync(1) a(1)]
  let ?L1 = "accepted L s"
  have "supply_fits L s" "source_fits L s" using s(2) by (simp_all add: supply_fits_def source_fits_def)
  then have acc1: "add_block E s L = (Ok (), ?L1)" using es by (intro add_block_accepts) blast+
  have sync1: "chain_of ?L1 (ac_public_key_hex bob) = ac_chain bob"
    using sync(2) es s(5) by (simp add: chain_of_accepted)
  note er = sealed_extends[OF r(1,3) opened(2) sync1 b(1)]
  have "map_of (lg_send_index ?L1) (b_hash s) = Some \<lparr>si_destination = ac_public_key_hex bob, si_amount = amount\<rparr>"
    "lg_consumed_sends ?L1 = lg_consumed_sends L"
    using s(2) by (simp_all add: accepted_def)
  then have "source_fits ?L1 r" using r(2) er fresh by (simp add: source_fits_def)
  moreover have "supply_fits ?L1 r" using r(2) by (simp add: supply_fits_def)
  ultimately have acc2: "add_block E r ?L1 = (Ok (), accepted ?L1 r)" using er by (intro add_block_accepts) blast+
  have "b_hash s \<in> lg_consumed_sends (accepted ?L1 r)" using r(2) by (simp add: accepted_def[of ?L1])
  then have "\<not> source_fits (accepted ?L1 r) r" using r(2) by (simp add: source_fits_def)
  then have "fst (add_block E r (accepted ?L1 r)) \<noteq> Ok ()"
    using add_block_rejects[of E r "accepted ?L1 r"] by (metis is_ok.simps(1) prod.collapse)
  moreover have "chain_of (accepted ?L1 r) (ac_public_key_hex alice) = ac_chain alice'"
    using er es s(3,5) sync(1) by (simp add: chain_of_accepted)
  moreover have "chain_of (accepted ?L1 r) (ac_public_key_hex bob) = ac_chain bob'"
    using er sync1 r(3) by (simp add: chain_of_accepted)
  ultimately show ?thesis using acc1 acc2 s(4) r(4) by auto
qed

definition demo_bob :: "(u8, u8) account_chain" where
  "demo_bob = fst (snd (ac_open demo_env 0 7 (ac_new demo_env 2) vc_new))"

lemma demo_bob:
  "ac_ok demo_env demo_bob" "ac_nonce demo_bob = 1" "ac_balance demo_bob = 0" "ac_consumed_sources demo_bob = {}"
  "\<exists>b. ac_chain demo_bob = [b] \<and> genesis_ok b \<and> b_type b = Open 0 \<and> verify_block demo_env b = Ok ()"
proof -
  obtain r self vc where r: "ac_open demo_env 0 7 (ac_new demo_env 2) vc_new = (r, self, vc)"
    by (metis prod_cases3)
  note res = ac_open_result[OF demo_env_laws ac_new_ok r]
  have self: "self = demo_bob" using r by (simp add: demo_bob_def)
  have "is_ok r" using res by (simp add: ac_new_def Let_def)
  then obtain b where b: "r = Ok b" by (auto simp: outcome_simps)
  have ok: "ac_ok demo_env demo_bob" "ac_chain demo_bob = [b]" "genesis_ok b" "b_type b = Open 0" "ac_balance demo_bob = 0"
    using res by (simp_all add: b self)
  then show "ac_ok demo_env demo_bob" "ac_balance demo_bob = 0"
    "\<exists>b. ac_chain demo_bob = [b] \<and> genesis_ok b \<and> b_type b = Open 0 \<and> verify_block demo_env b = Ok ()"
    by (simp_all add: ac_ok_def chain_valid_def)
  show "ac_nonce demo_bob = 1" "ac_consumed_sources demo_bob = {}"
    using ok by (simp_all add: ac_ok_def genesis_ok_def received_sources_def)
qed

lemma demo_bob_id: "ac_public_key_hex demo_bob = concat (replicate 32 ''02'')"
proof -
  have "ac_public_key_hex demo_bob = ac_public_key_hex (ac_new demo_env 2)"
    by (simp add: demo_bob_def ac_open_def push_sealed_def Let_def split: result.split)
  also have "\<dots> = concat (replicate 32 [hex_digit 0, hex_digit 2])"
    by (simp only: ac_new_def Let_def demo_env_simps demo_vk_def account_chain.simps demo_hex_replicate) simp
  also have "[hex_digit 0, hex_digit 2] = ''02''" by (simp add: hex_digit_def char_of_def bit_0)
  finally show ?thesis .
qed

lemma demo_ids_differ: "ac_public_key_hex demo_bob \<noteq> ac_public_key_hex demo_account"
proof
  assume "ac_public_key_hex demo_bob = ac_public_key_hex demo_account"
  then have "take 2 (ac_public_key_hex demo_bob) = take 2 (ac_public_key_hex demo_account)" by simp
  then show False unfolding demo_bob_id demo_account_id by (simp add: numeral_eq_Suc)
qed

definition demo_ledger :: ledger where
  "demo_ledger = accepted (accepted ledger_new demo_genesis) (hd (ac_chain demo_bob))"

lemma demo_ledger:
  "chain_of demo_ledger (ac_public_key_hex demo_account) = ac_chain demo_account"
  "chain_of demo_ledger (ac_public_key_hex demo_bob) = ac_chain demo_bob"
  "lg_consumed_sends demo_ledger = {}"
proof -
  obtain b where b: "ac_chain demo_bob = [b]" "b_type b = Open 0" "b_account b = ac_public_key_hex demo_bob"
    using demo_bob(5) demo_bob(1) by (auto simp: ac_ok_def)
  have a: "b_account demo_genesis = ac_public_key_hex demo_account"
    using demo_account_ok demo_genesis(4) by (simp add: ac_ok_def)
  have new: "chain_of ledger_new c = []" for c by (simp add: ledger_new_def chain_of_def get_chain_def)
  show "chain_of demo_ledger (ac_public_key_hex demo_account) = ac_chain demo_account"
    "chain_of demo_ledger (ac_public_key_hex demo_bob) = ac_chain demo_bob"
    using b a demo_ids_differ by (simp_all add: demo_ledger_def chain_of_accepted new demo_genesis(4))
  show "lg_consumed_sends demo_ledger = {}"
    using b by (simp add: demo_ledger_def accepted_def demo_genesis(2) ledger_new_def)
qed

theorem transfer_settles_witness:
  "\<exists>s r alice' bob' vc' vc'' L1 L2.
    ac_send demo_env (ac_public_key_hex demo_bob) 400 8 demo_account vc_new = (Ok s, alice', vc') \<and>
    ac_receive demo_env s 9 demo_bob vc' = (Ok r, bob', vc'') \<and>
    add_block demo_env s demo_ledger = (Ok (), L1) \<and> add_block demo_env r L1 = (Ok (), L2) \<and>
    unat (ac_balance alice') + unat (ac_balance bob') = 1000"
proof -
  have n: "ac_nonce demo_account \<noteq> - 1" "ac_nonce demo_bob \<noteq> - 1" by (simp_all add: demo_account_state demo_bob)
  obtain q alice' vc' where q: "ac_send demo_env (ac_public_key_hex demo_bob) 400 8 demo_account vc_new = (q, alice', vc')"
    by (metis prod_cases3)
  note res = ac_send_result[OF demo_env_laws demo_account_ok q n(1)]
  have "is_ok q" using res demo_ids_differ by (simp add: demo_account_state)
  then obtain s where s: "q = Ok s" by (auto simp: outcome_simps)
  have st: "b_type s = Send (ac_public_key_hex demo_bob) 400" using res s by simp
  obtain p bob' vc'' where p: "ac_receive demo_env s 9 demo_bob vc' = (p, bob', vc'')" by (metis prod_cases3)
  have bne: "ac_chain demo_bob \<noteq> []" using demo_bob(5) by auto
  note res2 = ac_receive_result[OF demo_env_laws demo_bob(1) p n(2) bne]
  have "is_ok p" using res2 st by (simp add: demo_bob unat_MAX_INITIAL_BALANCE)
  then obtain r where r: "p = Ok r" by (auto simp: outcome_simps)
  have "b_hash s \<notin> lg_consumed_sends demo_ledger" by (simp add: demo_ledger)
  from transfer_settles[OF demo_env_laws demo_account_ok n(1) demo_bob(1) n(2) demo_account_state(3) bne
      demo_ledger(1,2) q[unfolded s] p[unfolded r] this]
  obtain L1 L2 where "add_block demo_env s demo_ledger = (Ok (), L1)" "add_block demo_env r L1 = (Ok (), L2)"
    "unat (ac_balance alice') + unat (ac_balance bob') = unat (ac_balance demo_account) + unat (ac_balance demo_bob)"
    by blast
  then show ?thesis using q p s r by (auto simp: demo_account_state demo_bob)
qed

end
