(* ===== verification/World_Properties.thy ===== *)
theory World_Properties
  imports Participants Network Lattice_Properties
begin

text \<open>
  The properties of many accounts at once: what a ledger makes of the blocks that honest participants
  produce, that no money is created or lost, what reconciliation makes of the same blocks, and that a
  network of gossip nodes agrees on them.
\<close>

section \<open>Helpers\<close>

lemma total_for_cover:
  "distinct ids \<Longrightarrow> \<forall>b \<in> set bs. b_account b \<in> set ids \<Longrightarrow> (\<Sum>a\<leftarrow>ids. total_for a f bs) = (\<Sum>b\<leftarrow>bs. f b)"
proof (induction bs)
  case (Cons b bs)
  have "(\<Sum>a\<leftarrow>ids. total_for a f (b # bs)) = (\<Sum>a\<leftarrow>ids. (if a = b_account b then f b else 0) + total_for a f bs)"
    by (intro arg_cong[where f = sum_list] map_cong) (simp_all add: total_for_def)
  also have "\<dots> = (\<Sum>a\<leftarrow>ids. if a = b_account b then f b else 0) + (\<Sum>a\<leftarrow>ids. total_for a f bs)"
    by (simp add: sum_list_addf)
  also have "(\<Sum>a\<leftarrow>ids. if a = b_account b then f b else 0) = f b"
    using Cons.prems by (simp add: sum_list_distinct_conv_sum_set)
  finally show ?case using Cons by simp
qed (simp add: total_for_def)

lemma total_for_outside: "\<forall>b \<in> set bs. b_account b \<noteq> a \<Longrightarrow> total_for a f bs = 0"
  by (induction bs) (simp_all add: total_for_def)

lemma participants_run:
  assumes "env_laws E" "distinct (map (\<lambda>k. ac_public_key_hex (ac_new E k)) keys)"
    and "w = fold (participants_step E) ops (participants_new E keys)"
  shows "participants_ok E (map (\<lambda>k. ac_public_key_hex (ac_new E k)) keys) w"
  using participants.run_inv[of E "map (\<lambda>k. ac_public_key_hex (ac_new E k)) keys" "participants_new E keys" ops]
    participants_new_ok[OF assms(2)] assms(1,3) by simp

lemma participants_balances:
  assumes ok: "participants_ok E ids w" and inj: "inj_on b_hash (set (pt_log w))"
  shows "(\<Sum>a\<leftarrow>pt_accounts w. uint (ac_balance a)) + (\<Sum>s \<in> in_flight (pt_log w). debit s) = int (minted (pt_log w))"
proof -
  have "(\<Sum>a\<leftarrow>pt_accounts w. uint (ac_balance a)) = (\<Sum>i\<leftarrow>ids. flow (pt_log w) i)"
  proof -
    have "map (\<lambda>a. uint (ac_balance a)) (pt_accounts w) = map (flow (pt_log w) \<circ> ac_public_key_hex) (pt_accounts w)"
      using ok inj by (intro map_cong) (simp_all add: participants_ok_def account_follows_def)
    also have "\<dots> = map (flow (pt_log w)) ids" using ok by (simp add: participants_ok_def flip: map_map)
    finally show ?thesis by simp
  qed
  also have "\<dots> = (\<Sum>i\<leftarrow>ids. total_for i (\<lambda>b. credit (send_table (pt_log w)) b - debit b) (pt_log w))"
    by (intro arg_cong[where f = sum_list] map_cong) (simp_all add: flow_def total_for_def sum_list_subtractf)
  also have "\<dots> = (\<Sum>b\<leftarrow>pt_log w. credit (send_table (pt_log w)) b - debit b)"
    using ok by (intro total_for_cover) (simp_all add: participants_ok_def)
  finally show ?thesis using honest_conservation[of E "pt_log w"] ok inj by (simp add: participants_ok_def)
qed

text \<open>A run of two accounts in the demonstration environment: two openings, a send and its receive.\<close>

definition demo_ops :: "participant_op list" where
  "demo_ops = [OpenAccount 0 1000 1, OpenAccount 1 0 2,
     SendFrom 0 (ac_public_key_hex (ac_new demo_env 2)) 400 3, ReceiveLogged 1 2 4]"

definition demo_world :: "(u8, u8) participants" where
  "demo_world = fold (participants_step demo_env) demo_ops (participants_new demo_env [1, 2])"

lemma demo_hex_inj: "demo_hex_encode a = demo_hex_encode b \<longleftrightarrow> a = b"
proof
  assume "demo_hex_encode a = demo_hex_encode b"
  then have "demo_hex_decode (demo_hex_encode a) = demo_hex_decode (demo_hex_encode b)" by (rule arg_cong)
  then show "a = b" by (simp only: demo_hex_round result.inject)
qed simp

lemma demo_new_ids: "distinct (map (\<lambda>k. ac_public_key_hex (ac_new demo_env k)) [1, 2])"
proof -
  have ids: "ac_public_key_hex (ac_new demo_env k) = demo_hex_encode (replicate 32 (demo_vk k))" for k
    by (simp only: ac_new_def Let_def account_chain.select_convs demo_env_simps)
  show ?thesis by (simp only: list.map distinct.simps ids set_simps) (simp add: demo_vk_def demo_hex_inj)
qed

text \<open>In that environment the hash of a block shows the last digit of its timestamp.\<close>

definition demo_mark :: "block \<Rightarrow> char" where
  "demo_mark b = last (display_u64 (b_timestamp b))"

lemma demo_hash_mark:
  assumes "verify_block demo_env b = Ok ()" "verify_block demo_env c = Ok ()" "b_hash b = b_hash c"
  shows "demo_mark b = demo_mark c"
proof -
  have digest: "\<exists>x. b_hash a = demo_hex_encode (demo_digest (str_bytes x)) \<and> x \<noteq> [] \<and> last x = demo_mark a"
    if a: "verify_block demo_env a = Ok ()" for a
  proof -
    obtain x where "block_preimage demo_env a = Ok x" "b_hash a = demo_hex_encode (demo_digest x)"
      using a demo_blake3_laws by (auto simp: verify_block_Ok_iff block_hash_of_Ok)
    moreover from this(1) obtain j where "x = str_bytes (block_content (b_account a) (b_previous a) j (b_balance a) (b_nonce a) (b_timestamp a))"
      by (auto simp: block_preimage_def outcome_simps)
    ultimately show ?thesis
      using display_nat_nonempty by (auto simp: block_content_def demo_mark_def display_u64_def)
  qed
  have hd_digest: "hd (demo_digest (str_bytes x)) = of_nat (of_char (last x))" if "x \<noteq> []" for x
    using that by (cases x rule: rev_cases) (simp_all add: demo_digest_def str_bytes_def)
  obtain x y where x: "b_hash b = demo_hex_encode (demo_digest (str_bytes x))" "x \<noteq> []" "last x = demo_mark b"
    and y: "b_hash c = demo_hex_encode (demo_digest (str_bytes y))" "y \<noteq> []" "last y = demo_mark c"
    using digest[OF assms(1)] digest[OF assms(2)] by blast
  have "demo_digest (str_bytes x) = demo_digest (str_bytes y)"
    using x(1) y(1) assms(3) by (simp add: demo_hex_inj)
  then have "(of_nat (of_char (demo_mark b)) :: u8) = of_nat (of_char (demo_mark c))"
    using hd_digest[OF x(2)] hd_digest[OF y(2)] x(3) y(3) by simp
  then show ?thesis by (rule injD[OF inj_of_char_word])
qed

lemma demo_world:
  "map b_type (pt_log demo_world) = [Open 1000, Open 0, Send (ac_public_key_hex (ac_new demo_env 2)) 400,
     Receive (b_hash (pt_log demo_world ! 2))]"
  "map b_timestamp (pt_log demo_world) = [1, 2, 3, 4]"
  "map ac_balance (pt_accounts demo_world) = [600, 400]"
  "\<forall>a \<in> set (pt_accounts demo_world). ac_chain a \<noteq> []"
proof -
  let ?a = "ac_new demo_env 1" and ?b = "ac_new demo_env 2"
  have ids: "ac_public_key_hex ?b \<noteq> ac_public_key_hex ?a" using demo_new_ids by auto
  have caps: "1000 \<le> MAX_INITIAL_BALANCE_PER_ACCOUNT" "0 \<le> MAX_INITIAL_BALANCE_PER_ACCOUNT"
    by (simp_all add: MAX_INITIAL_BALANCE_PER_ACCOUNT_def ONE_ARX_def)
  have fresh: "ac_nonce (ac_new demo_env k) \<noteq> - 1" for k by (simp add: ac_new_def Let_def)
  obtain g a1 c1 where a1: "ac_open demo_env 1000 1 ?a vc_new = (Ok g, a1, c1)" "ac_ok demo_env a1" "ac_chain a1 = [g]"
    "ac_balance a1 = 1000" "b_type g = Open 1000" "ac_nonce a1 = 1" "ac_public_key_hex a1 = ac_public_key_hex ?a"
    by (rule opened_fresh[OF demo_env_laws caps(1), of 1 1 vc_new]) (rule that)
  obtain h b2 c2 where b2: "ac_open demo_env 0 2 ?b c1 = (Ok h, b2, c2)" "ac_ok demo_env b2" "ac_chain b2 = [h]"
    "ac_balance b2 = 0" "b_type h = Open 0" "ac_nonce b2 = 1" "ac_consumed_sources b2 = {}"
    "ac_public_key_hex b2 = ac_public_key_hex ?b"
    by (rule opened_fresh[OF demo_env_laws caps(2), of 2 2 c1]) (rule that)
  have ready: "ac_nonce a1 \<noteq> - 1" "ac_nonce b2 \<noteq> - 1" "ac_chain b2 \<noteq> []" "400 \<le> ac_balance a1"
    "unat (ac_balance b2) + unat (400 :: u64) \<le> unat MAX_INITIAL_BALANCE_PER_ACCOUNT" "(400 :: u64) \<noteq> 0"
    by (simp_all add: a1(4,6) b2(3,4,6) unat_MAX_INITIAL_BALANCE)
  have differ: "ac_public_key_hex b2 \<noteq> ac_public_key_hex a1" using ids a1(7) b2(8) by simp
  obtain s a3 c3 v b4 c4 where pay: "ac_send demo_env (ac_public_key_hex ?b) 400 3 a1 c2 = (Ok s, a3, c3)"
    "ac_receive demo_env s 4 b2 c3 = (Ok v, b4, c4)" "b_type s = Send (ac_public_key_hex ?b) 400"
    "b_type v = Receive (b_hash s)" "ac_chain a3 = [g] @ [s]" "ac_chain b4 = [h] @ [v]"
    "unat (ac_balance a3) + unat (400 :: u64) = unat (1000 :: u64)"
    "unat (ac_balance b4) = unat (0 :: u64) + unat (400 :: u64)"
    by (rule first_payment[OF demo_env_laws a1(2) ready(1) b2(2) ready(2,3) b2(7) differ ready(6,4,5), of 3 c2 4])
      (rule that; simp only: b2(3,4,8) a1(3,4))
  have world: "demo_world = \<lparr>pt_accounts = [a3, b4], pt_clock = c4, pt_log = [g, h, s, v]\<rparr>"
    using fresh[of 1] fresh[of 2]
    by (simp add: demo_world_def demo_ops_def participants_new_def account_call_def a1 b2 pay)
  have "ac_balance a3 = 600" "ac_balance b4 = 400" using pay(7,8) by (simp_all add: word_unat_eq_iff)
  then show "map b_type (pt_log demo_world) = [Open 1000, Open 0, Send (ac_public_key_hex (ac_new demo_env 2)) 400,
     Receive (b_hash (pt_log demo_world ! 2))]" "map ac_balance (pt_accounts demo_world) = [600, 400]"
    "\<forall>a \<in> set (pt_accounts demo_world). ac_chain a \<noteq> []"
    using a1(5) b2(5) pay by (simp_all add: world)
  show "map b_timestamp (pt_log demo_world) = [1, 2, 3, 4]"
    using ac_calls_time(1)[OF a1(1)] ac_calls_time(1)[OF b2(1)] ac_calls_time(2)[OF pay(1)] ac_calls_time(3)[OF pay(2)]
    by (simp add: world)
qed

lemma demo_run: "participants_ok demo_env (map (\<lambda>k. ac_public_key_hex (ac_new demo_env k)) [1, 2]) demo_world"
  by (rule participants_run[OF demo_env_laws demo_new_ids demo_world_def])

lemma demo_world_hashes: "inj_on b_hash (set (pt_log demo_world))"
proof (rule inj_onI)
  fix b c assume b: "b \<in> set (pt_log demo_world)" "c \<in> set (pt_log demo_world)" "b_hash b = b_hash c"
  have hist: "honest_log demo_env (pt_log demo_world)" using demo_run by (simp add: participants_ok_def)
  obtain b1 b2 b3 b4 where bs: "pt_log demo_world = [b1, b2, b3, b4]" "b_timestamp b1 = 1" "b_timestamp b2 = 2"
    "b_timestamp b3 = 3" "b_timestamp b4 = 4"
    using demo_world(2) by (auto simp: map_eq_Cons_conv)
  have "verify_block demo_env a = Ok ()" if "a \<in> set (pt_log demo_world)" for a
    using chain_valid_verified[OF honest_chain_valid[OF hist, of "b_account a"]] that by simp
  then have "demo_mark b = demo_mark c" using demo_hash_mark b by blast
  moreover have "display_u64 1 = ''1''" "display_u64 2 = ''2''" "display_u64 3 = ''3''" "display_u64 4 = ''4''"
    by (simp_all add: display_u64_def display_nat.simps char_of_def bit_0)
  ultimately show "b = c" using b(1,2) bs by (auto simp: demo_mark_def)
qed

lemma demo_types: "\<exists>b1 b2 b3 b4. pt_log demo_world = [b1, b2, b3, b4] \<and> b_type b1 = Open 1000 \<and> b_type b2 = Open 0 \<and>
    (\<exists>d. b_type b3 = Send d 400) \<and> b_type b4 = Receive (b_hash b3)"
proof -
  obtain b1 b2 b3 b4 where bs: "pt_log demo_world = [b1, b2, b3, b4]"
    using demo_world(1) by (auto simp: map_eq_Cons_conv)
  show ?thesis using demo_world(1) unfolding bs by simp
qed

lemma demo_minted: "minted (pt_log demo_world) = 1000"
  using demo_types by (auto simp: minted_def)

lemma demo_credits: "total_for i (credit (send_table (pt_log demo_world))) (pt_log demo_world) < 2 ^ 64"
proof -
  obtain b1 b2 b3 b4 d where bs: "pt_log demo_world = [b1, b2, b3, b4]" "b_type b1 = Open 1000" "b_type b2 = Open 0"
    "b_type b3 = Send d 400" "b_type b4 = Receive (b_hash b3)" using demo_types by blast
  have "map_of (send_table (pt_log demo_world)) (b_hash b3) = Some b3"
    using bs(1,4) by (intro iffD2[OF send_table_lookup[OF demo_world_hashes]]) (simp add: is_send_def)
  then show ?thesis using bs by (simp add: total_for_def credit_def)
qed

section \<open>The ledger\<close>

text \<open>C3. Whatever honest accounts do, in any interleaving, a ledger accepts every block they produce, in the
  order of production: its chains are theirs, and what was minted is the sum of their balances and of
  the sends not yet received (as long as no two blocks collide in their hash and the supply suffices).\<close>

theorem honest_ledger:
  assumes "env_laws E" "distinct (map (\<lambda>k. ac_public_key_hex (ac_new E k)) keys)"
    and "w = fold (participants_step E) ops (participants_new E keys)"
    and "inj_on b_hash (set (pt_log w))" "minted (pt_log w) \<le> 10 ^ 15"
  shows "\<exists>L. offer E (pt_log w) ledger_new = (replicate (length (pt_log w)) (Ok ()), L) \<and>
    (\<forall>a \<in> set (pt_accounts w). chain_of L (ac_public_key_hex a) = ac_chain a) \<and>
    int (unat (lg_total_supply L)) =
      (\<Sum>a\<leftarrow>pt_accounts w. uint (ac_balance a)) + (\<Sum>s \<in> in_flight (pt_log w). debit s)"
proof -
  note ok = participants_run[OF assms(1-3)]
  have hist: "honest_log E (pt_log w)" using ok by (simp add: participants_ok_def)
  obtain L where L: "offer E (pt_log w) ledger_new = (replicate (length (pt_log w)) (Ok ()), L)" "follows_log L (pt_log w)"
    using honest_offer[OF hist assms(4)] assms(5) by (auto simp: unat_TOTAL_SUPPLY)
  have "chain_of L (ac_public_key_hex a) = ac_chain a" if "a \<in> set (pt_accounts w)" for a
    using L(2) ok that by (simp add: follows_log_def participants_ok_def account_follows_def)
  moreover have "int (unat (lg_total_supply L)) = int (minted (pt_log w))" using L(2) by (simp add: follows_log_def)
  ultimately show ?thesis using L(1) participants_balances[OF ok assms(4)] by auto
qed

theorem honest_ledger_witness:
  "\<exists>L. offer demo_env (pt_log demo_world) ledger_new = ([Ok (), Ok (), Ok (), Ok ()], L) \<and>
    (\<forall>a \<in> set (pt_accounts demo_world). chain_of L (ac_public_key_hex a) = ac_chain a) \<and>
    int (unat (lg_total_supply L)) =
      (\<Sum>a\<leftarrow>pt_accounts demo_world. uint (ac_balance a)) + (\<Sum>s \<in> in_flight (pt_log demo_world). debit s)"
proof -
  have len: "length (pt_log demo_world) = 4" using arg_cong[OF demo_world(1), of length] by simp
  have "replicate 4 x = [x, x, x, x]" for x :: "(unit, arxia_error) result" by (simp add: numeral_eq_Suc)
  then show ?thesis
    using honest_ledger[OF demo_env_laws demo_new_ids demo_world_def demo_world_hashes] by (simp add: len demo_minted)
qed

section \<open>Reconciliation\<close>

text \<open>C15. Split over two partitions in any way and with any iteration order of the hash maps, the blocks of
  honest accounts reconcile to exactly the balances the accounts have: without conflicts, rejected
  receives or rejected openings. Different blocks must have different hashes, and what each account was
  ever credited must sum to less than \<open>2 ^ 64\<close>, the largest total a counter holds.\<close>

theorem honest_reconciliation:
  assumes "hash_orders_ok H" "env_laws E" "distinct (map (\<lambda>k. ac_public_key_hex (ac_new E k)) keys)"
    and "w = fold (participants_step E) ops (participants_new E keys)"
    and "inj_on b_hash (set (pt_log w))" "set pa \<union> set pb = set (pt_log w)"
    and "\<forall>a \<in> set (pt_accounts w). total_for (ac_public_key_hex a) (credit (send_table (pt_log w))) (pt_log w) < 2 ^ 64"
  shows "\<exists>rep. reconcile_partitions H pa pb = Ok rep \<and> rep_conflicts rep = [] \<and>
    rep_rejected_receives rep = [] \<and> rep_rejected_genesis rep = [] \<and>
    (\<forall>a \<in> set (pt_accounts w). ac_chain a \<noteq> [] \<longrightarrow>
      map_of (rep_balances rep) (ac_public_key_hex a) = Some (uint (ac_balance a)))"
proof -
  note ok = participants_run[OF assms(2-4)]
  let ?hist = "pt_log w" and ?credit = "credit (send_table (pt_log w))"
  have hist: "honest_log E ?hist" using ok by (simp add: participants_ok_def)
  have follows: "ac_ok E a" "ac_chain a = blocks_of (ac_public_key_hex a) ?hist"
    "uint (ac_balance a) = flow ?hist (ac_public_key_hex a)" if "a \<in> set (pt_accounts w)" for a
    using ok that assms(5) by (simp_all add: participants_ok_def account_follows_def)
  have owner: "\<exists>a \<in> set (pt_accounts w). ac_public_key_hex a = b_account b" if "b \<in> set ?hist" for b
  proof -
    have "b_account b \<in> set (map ac_public_key_hex (pt_accounts w))" using ok that unfolding participants_ok_def by metis
    then show ?thesis by auto
  qed
  have ids: "\<exists>sid. first8 (b_account b) = (Ok sid :: (string, arxia_error) result)" if "b \<in> set ?hist" for b
    using owner[OF that] follows(1) keys_first8[OF assms(2)] by (auto simp: ac_ok_def) metis
  have totals: "total_for i ?credit ?hist < 2 ^ 64 \<and> total_for i debit ?hist \<le> total_for i ?credit ?hist" for i
  proof (cases "\<exists>a \<in> set (pt_accounts w). ac_public_key_hex a = i")
    case True
    then obtain a where a: "a \<in> set (pt_accounts w)" "ac_public_key_hex a = i" by blast
    have "0 \<le> flow ?hist i" using follows(3)[OF a(1)] a(2) by (metis uint_ge_0)
    then show ?thesis using assms(7) a by (auto simp: flow_def)
  next
    case False
    then have "\<forall>b \<in> set ?hist. b_account b \<noteq> i" using owner by blast
    then show ?thesis by (simp add: total_for_outside)
  qed
  obtain rep where rep: "reconcile_partitions H pa pb = Ok rep" "rep_conflicts rep = []"
    "rep_rejected_receives rep = []" "rep_rejected_genesis rep = []"
    "\<forall>a. blocks_of a ?hist \<noteq> [] \<longrightarrow> map_of (rep_balances rep) a =
      Some (min i64_MAX (total_for a ?credit ?hist - total_for a debit ?hist))"
    using honest_reconciles[OF assms(1) hist assms(5,6) ids] totals by blast
  have "map_of (rep_balances rep) (ac_public_key_hex a) = Some (uint (ac_balance a))"
    if a: "a \<in> set (pt_accounts w)" "ac_chain a \<noteq> []" for a
  proof -
    have "ac_balance a \<le> MAX_INITIAL_BALANCE_PER_ACCOUNT" using follows(1)[OF a(1)] by (simp add: ac_ok_def)
    then have "int (unat (ac_balance a)) \<le> int (10 ^ 14)"
      unfolding word_le_nat_alt unat_MAX_INITIAL_BALANCE of_nat_le_iff .
    then have "uint (ac_balance a) \<le> i64_MAX" by (simp add: i64_MAX_def)
    then show ?thesis using rep(5) a follows[OF a(1)] by (simp add: flow_def min_absorb2)
  qed
  then show ?thesis using rep(1-4) by blast
qed

theorem honest_reconciliation_witness:
  "\<exists>rep. reconcile_partitions in_reverse (pt_log demo_world) [] = Ok rep \<and> rep_conflicts rep = [] \<and>
    rep_rejected_receives rep = [] \<and> rep_rejected_genesis rep = [] \<and>
    (\<forall>a \<in> set (pt_accounts demo_world). ac_chain a \<noteq> [] \<longrightarrow>
      map_of (rep_balances rep) (ac_public_key_hex a) = Some (uint (ac_balance a)))"
  by (rule honest_reconciliation[OF in_reverse_ok demo_env_laws demo_new_ids demo_world_def demo_world_hashes])
    (simp, use demo_credits in blast)

section \<open>The network\<close>

text \<open>Without votes, a successful sync gives L1.\<close>

lemma synced_level: "assess_finality E amount h cs SyncSuccess [] reg = Ok L1"
proof -
  have "\<not> saturating_mul x 67 \<le> 0" if "0 < x" for x :: u64
    using that by (simp add: word_le_nat_alt word_less_nat_alt unat_saturating_mul)
  then show ?thesis by (simp add: assess_finality_def Let_def saturating_mul_def)
qed

text \<open>C4. In a network of gossip nodes that are given the blocks of an honest log and exchange registries, in
  any order and however often, and whose registries have room for the log, no node ever reports a
  conflict, evicts an entry or refuses a block of the log. Any two nodes that then exchange their
  registries hold the same one, with every block that either was given, so that their check before L1
  succeeds and any block reaches at least level L1.\<close>

theorem honest_network:
  assumes E: "env_laws E" and hist: "honest_log E hist" and lower: "\<forall>b \<in> set hist. lower_hex (b_account b)"
    and room: "length hist \<le> r" and given: "\<forall>i b. Announce i b \<in> set ops \<longrightarrow> b \<in> set hist"
    and run: "ns = fold (net_step E) ops (map (\<lambda>i. gn_with_capacity i k r) ids)"
    and ij: "i < length ids" "j < length ids"
    and after: "fin = fold (net_step E) [Exchange i j, Exchange j i] ns"
  shows "(\<forall>n \<in> set ns. gn_pending_conflicts n = [] \<and> gn_nonce_registry_dropped n = 0 \<and>
      (\<forall>b \<in> set hist. fst (gn_add_block E b n) = Ok ())) \<and>
    gn_nonce_registry (fin ! i) = gn_nonce_registry (fin ! j) \<and>
    (\<forall>b. Announce i b \<in> set ops \<or> Announce j b \<in> set ops \<longrightarrow> registers E b (fin ! i)) \<and>
    (gn_nonce_registry (fin ! i) \<noteq> [] \<longrightarrow>
      gn_check_sync (fin ! i) (gn_nonce_registry (fin ! j)) = SyncSuccess \<and>
      assess_finality E amount h cs (gn_check_sync (fin ! i) (gn_nonce_registry (fin ! j))) [] reg = Ok L1)"
proof -
  have ok: "net_ok E hist (length ids) ops ns"
    using net_ok_run[OF E hist lower net_start_ok[OF room] given, of ids k] by (simp add: run)
  have node: "\<forall>n \<in> set ns. honest_node E hist n" and given_to: "\<forall>i < length ids. \<forall>b. Announce i b \<in> set ops \<longrightarrow> registers E b (ns ! i)"
    using ok by (simp_all add: net_ok_def)
  have quiet: "\<forall>n \<in> set ns. gn_pending_conflicts n = [] \<and> gn_nonce_registry_dropped n = 0 \<and>
      (\<forall>b \<in> set hist. fst (gn_add_block E b n) = Ok ())"
    using node honest_add[OF E hist lower] by (metis fst_conv honest_node_def)
  obtain m where m: "bt_wf m" "gn_nonce_registry (fin ! i) = m" "gn_nonce_registry (fin ! j) = m"
    "map_of (gn_nonce_registry (ns ! i)) \<subseteq>\<^sub>m map_of m" "map_of (gn_nonce_registry (ns ! j)) \<subseteq>\<^sub>m map_of m"
    using exchange_agrees[OF env_lawsD(1)[OF E] hist lower ok ij] unfolding after by blast
  have "\<forall>b. Announce i b \<in> set ops \<or> Announce j b \<in> set ops \<longrightarrow> registers E b (fin ! i)"
    using given_to ij registers_mono[of E _ _ "fin ! i"] m by blast
  moreover have "gn_check_sync (fin ! i) m = SyncSuccess" if "m \<noteq> []"
    using sync_Success_iff[OF m(1) m(1)] that by (simp add: gn_check_sync_def m(2))
  ultimately show ?thesis using quiet m(2,3) by (simp add: synced_level)
qed

theorem honest_network_witness:
  "\<exists>b1 b2 b3 b4 fin. pt_log demo_world = [b1, b2, b3, b4] \<and>
    fin = fold (net_step demo_env) [Exchange 0 1, Exchange 1 0]
      (fold (net_step demo_env) [Announce 0 b1, Announce 1 b2, Exchange 1 0, Announce 1 b1, Announce 0 b3]
        (map (\<lambda>i. gn_with_capacity i 1 4) [''x'', ''y''])) \<and>
    registers demo_env b2 (fin ! 0) \<and> gn_check_sync (fin ! 0) (gn_nonce_registry (fin ! 1)) = SyncSuccess"
proof -
  have hist: "honest_log demo_env (pt_log demo_world)" using demo_run by (simp add: participants_ok_def)
  obtain b1 b2 b3 b4 where log: "pt_log demo_world = [b1, b2, b3, b4]" using demo_types by blast
  have lower: "\<forall>b \<in> set (pt_log demo_world). lower_hex (b_account b)"
  proof
    fix b assume "b \<in> set (pt_log demo_world)"
    then have "b_account b \<in> (\<lambda>k. ac_public_key_hex (ac_new demo_env k)) ` {1, 2}"
      using demo_run by (auto simp: participants_ok_def)
    then show "lower_hex (b_account b)"
      using hex_lawsD(3)[OF demo_hex_laws] by (auto simp: ac_new_def Let_def)
  qed
  let ?ops = "[Announce 0 b1, Announce 1 b2, Exchange 1 0, Announce 1 b1, Announce 0 b3]"
  have given: "\<forall>i b. Announce i b \<in> set ?ops \<longrightarrow> b \<in> set (pt_log demo_world)" by (auto simp: log)
  define fin where "fin = fold (net_step demo_env) [Exchange 0 1, Exchange 1 0]
      (fold (net_step demo_env) ?ops (map (\<lambda>i. gn_with_capacity i 1 4) [''x'', ''y'']))"
  have room: "length (pt_log demo_world) \<le> 4" by (simp add: log)
  have two: "0 < length [''x'', ''y'']" "1 < length [''x'', ''y'']" by simp_all
  note spec = honest_network[OF demo_env_laws hist lower room given refl two fin_def]
  have reg: "registers demo_env b2 (fin ! 0)" using spec by simp
  then have "gn_nonce_registry (fin ! 0) \<noteq> []" by (auto simp: registers_def)
  then show ?thesis using log reg spec fin_def by blast
qed

section \<open>Dishonest accounts among gossip nodes\<close>

text \<open>C5. An account that signs two blocks for one position is found out: when two nodes each accepted one
  of them, the check before L1 between them fails and blocks L1 for every block, each refuses the other
  block as a double spend, and a node that merges the registry of the other reports the two hashes at
  that position and keeps the report until it is drained.\<close>

theorem equivocation_reported:
  assumes E: "env_laws E" and ok: "node_ok x" "node_ok y"
    and v: "verify_block E b = Ok ()" "verify_block E c = Ok ()"
    and pos: "hex_decode E (b_account b) = Ok a" "hex_decode E (b_account c) = Ok a" "b_nonce c = b_nonce b"
    and h: "hex_decode E (b_hash b) = Ok h" "hex_decode E (b_hash c) = Ok h'" "b_hash b \<noteq> b_hash c"
    and run: "gn_add_block E b x = (Ok (), x')" "gn_add_block E c y = (Ok (), y')"
    and merge: "gn_merge_registry (gn_nonce_registry y') x' = (conflicts, x'')"
    and conflict: "conflict = \<lparr>nc_key = (a, b_nonce b), nc_local_hash = h, nc_remote_hash = h'\<rparr>"
  shows "gn_check_sync x' (gn_nonce_registry y') \<noteq> SyncSuccess \<and>
    assess_finality E amount hash cs (gn_check_sync x' (gn_nonce_registry y')) vs reg \<noteq> Ok L1 \<and>
    gn_add_block E c x' = (Err (DoubleSpend (b_nonce b)), x') \<and>
    conflict \<in> set conflicts \<and> conflict \<in> set (fst (gn_drain_pending_conflicts x''))"
proof -
  have ok': "node_ok x'" "node_ok y'"
    using gn_add_block_ok[OF ok(1), of E b] gn_add_block_ok[OF ok(2), of E c] run by simp_all
  then have wf: "bt_wf (gn_nonce_registry x')" "bt_wf (gn_nonce_registry y')"
    by (simp_all add: node_ok_def registry_ok_def)
  have len: "length a = 32" "length h = 32" "b_hash b = hex_encode E h" "length h' = 32" "b_hash c = hex_encode E h'"
    using verified_block_keys[OF E v(1)] verified_block_keys[OF E v(2)] pos h by (metis result.inject(1))+
  then have neq: "h \<noteq> h'" using h(3) by auto
  have filed: "map_of (gn_nonce_registry x') (a, b_nonce b) = Some h"
    "map_of (gn_nonce_registry y') (a, b_nonce b) = Some h'"
    using gn_add_block_registers[OF v(1) h(1) _ pos(1) _ ok(1) run(1)]
      gn_add_block_registers[OF v(2) h(2) _ pos(2) _ ok(2) run(2)] len pos(3) by simp_all
  have unsynced: "gn_check_sync x' (gn_nonce_registry y') \<noteq> SyncSuccess"
    using filed neq sync_Success_iff[OF wf] by (auto simp: gn_check_sync_def)
  obtain r s where other: "gn_add_block E c x' = (r, s)" by force
  have refused: "gn_add_block E c x' = (Err (DoubleSpend (b_nonce b)), x')"
    using gn_add_block_cases[OF v(2) h(2) len(4) pos(2) len(1) ok'(1) other] filed neq pos(3) other by simp
  have mem: "conflict \<in> set (fst (merge_nonce_registries (gn_nonce_registry x') (gn_nonce_registry y')))"
    using filed neq by (simp add: merge_conflicts[OF wf(2)] conflict)
  then have "conflict \<in> set conflicts \<and> conflict \<in> set (gn_pending_conflicts x'')"
    using merge by (auto simp: gn_merge_registry_def Let_def evict_to_capacity_pending split: prod.splits)
  moreover have "assess_finality E amount hash cs (gn_check_sync x' (gn_nonce_registry y')) vs reg \<noteq> Ok L1"
    using unsynced by (auto simp: assess_finality_def Let_def outcome_simps split: if_splits)
  ultimately show ?thesis using unsynced refused by (simp add: gn_drain_pending_conflicts_def)
qed

theorem equivocation_reported_witness:
  "\<exists>b c x y. gn_add_block demo_env b (gn_new ''x'') = (Ok (), x) \<and> gn_add_block demo_env c (gn_new ''y'') = (Ok (), y) \<and>
    gn_check_sync x (gn_nonce_registry y) \<noteq> SyncSuccess \<and> fst (gn_merge_registry (gn_nonce_registry y) x) \<noteq> []"
proof -
  obtain b c where b: "verify_block demo_env b = Ok ()" "genesis_ok b" "b_timestamp b = 1"
      "hex_decode demo_env (b_account b) = Ok (pubkey_of demo_env 10)"
    and c: "verify_block demo_env c = Ok ()" "genesis_ok c" "b_timestamp c = 2"
      "hex_decode demo_env (b_account c) = Ok (pubkey_of demo_env 10)"
    using spelling_opens[OF demo_env_laws, of _ 10 5 1] spelling_opens[OF demo_env_laws, of _ 10 5 2] demo_spellings
    by (metis demo_env_simps(1))
  have "demo_mark b \<noteq> demo_mark c"
    using b(3) c(3) by (simp add: demo_mark_def display_u64_def display_nat.simps char_of_def bit_0)
  then have hashes: "b_hash b \<noteq> b_hash c" using demo_hash_mark[OF b(1) c(1)] by blast
  obtain h h' where h: "hex_decode demo_env (b_hash b) = Ok h" "length h = 32"
    "hex_decode demo_env (b_hash c) = Ok h'" "length h' = 32"
    using verified_block_keys[OF demo_env_laws b(1)] verified_block_keys[OF demo_env_laws c(1)] by metis
  have ok: "node_ok (gn_new i)" for i unfolding gn_new_def by (rule gn_new_ok)
  have fresh: "gn_nonce_registry (gn_new i) = []" for i by (simp add: gn_new_def gn_with_capacity_def)
  obtain r x s y where runs: "gn_add_block demo_env b (gn_new ''x'') = (r, x)" "gn_add_block demo_env c (gn_new ''y'') = (s, y)"
    by (metis surj_pair)
  have pk: "length (pubkey_of demo_env 10) = 32" by (simp add: pubkey_of_def)
  have "r = Ok ()" "s = Ok ()"
    using gn_add_block_cases[OF b(1) h(1,2) b(4) pk ok runs(1)] gn_add_block_cases[OF c(1) h(3,4) c(4) pk ok runs(2)] fresh
    by simp_all
  moreover obtain cs x' where merge: "gn_merge_registry (gn_nonce_registry y) x = (cs, x')" by force
  moreover have "b_nonce c = b_nonce b" using b(2) c(2) by (simp add: genesis_ok_def)
  ultimately have "gn_check_sync x (gn_nonce_registry y) \<noteq> SyncSuccess \<and>
      \<lparr>nc_key = (pubkey_of demo_env 10, b_nonce b), nc_local_hash = h, nc_remote_hash = h'\<rparr> \<in> set cs"
    using equivocation_reported[OF demo_env_laws ok ok b(1) c(1) b(4) c(4) _ h(1,3) hashes _ _ merge refl] runs by blast
  then show ?thesis using runs \<open>r = Ok ()\<close> \<open>s = Ok ()\<close> merge by fastforce
qed

end
