(* ===== verification/State_Properties.thy ===== *)
theory State_Properties
  imports Reconciliation Demo
begin

text \<open>
  What replicas and partitions agree on: the properties of the CRDTs, of the clocks, of pruning and
  of the reconciliation of two partitions, with their witnesses.
\<close>

section \<open>Reconciliation\<close>

definition demo_block :: "string \<Rightarrow> u64 \<Rightarrow> block_type \<Rightarrow> string \<Rightarrow> block" where
  "demo_block account nonce bt hash =
     \<lparr>b_account = account, b_previous = [], b_type = bt, b_balance = 0, b_nonce = nonce, b_timestamp = 0,
      b_hash = hash, b_signature = []\<rparr>"

definition demo_partition :: "block list" where
  "demo_partition =
     [demo_block ''alice-01'' 1 (Open 1000) ''a1'', demo_block ''bob-0002'' 1 (Open 0) ''b1'',
      demo_block ''alice-01'' 2 (Send ''bob-0002'' 100) ''a2'',
      demo_block ''bob-0002'' 2 (Receive ''a2'') ''b2'', demo_block ''bob-0002'' 3 (Receive ''a2'') ''b3'']"

lemma demo_dedup: "dedup_by_hash {} demo_partition = demo_partition"
  by (simp add: demo_partition_def demo_block_def)

lemma demo_groups: "group_blocks demo_partition = map (\<lambda>b. (block_key_of b, [b])) demo_partition"
  by (simp add: demo_partition_def demo_block_def group_blocks_def hm_entry_def hm_insert_def block_key_of_def)

lemma demo_winners: "pick_winners (group_blocks demo_partition) = (map (\<lambda>b. (block_key_of b, b)) demo_partition, [])"
  unfolding demo_groups
  by (simp add: demo_partition_def demo_block_def pick_winners_def pick_winner_def conflict_of_def hm_insert_def block_key_of_def)

lemma demo_sends: "index_sends (map (\<lambda>b. (block_key_of b, b)) demo_partition) =
    [(''a2'', demo_block ''alice-01'' 2 (Send ''bob-0002'' 100) ''a2'')]"
  by (simp add: demo_partition_def demo_block_def index_sends_def is_send_def hm_insert_def)

lemma demo_keys: "sort (map fst (group_blocks demo_partition)) =
    [(''alice-01'', 1), (''alice-01'', 2), (''bob-0002'', 1), (''bob-0002'', 2), (''bob-0002'', 3)]"
  unfolding demo_groups
  by (simp add: demo_partition_def demo_block_def block_key_of_def less_eq_prod_def less_prod_def less_char_def)

lemmas demo_counters = demo_partition_def demo_block_def block_key_of_def apply_winner_def update_counter_def first8_def
  str_prefix_def hm_entry_def hm_insert_def bt_entry_def pn_increment_def pn_decrement_def pn_new_def
  pn_value_def saturating_sum_def saturating_add_def i64_try_from_def i64_MAX_def

lemma demo_reconciled:
  "map_ok (\<lambda>rep. (map_of (rep_balances rep) ''alice-01'', map_of (rep_balances rep) ''bob-0002'',
      rep_rejected_receives rep)) (reconcile_partitions in_order demo_partition []) = Ok (Some 900, Some 200, [])"
  unfolding reconcile_partitions_def Let_def append_Nil2 demo_dedup demo_winners prod.case demo_sends demo_keys
    in_order_def hash_orders.simps
  by (simp add: demo_counters Let_def)

lemma demo_distinct_hashes: "inj_on b_hash (set demo_partition \<union> set [])"
  by (simp add: demo_partition_def demo_block_def)

text \<open>Two Receives of one Send at different nonces are both credited: balances of 900 and 200 come
  out of an issue of 1000, and no Receive is reported as rejected, in whatever order maps iterate.\<close>

lemma reconcile_double_credit:
  assumes "hash_orders_ok H"
  shows "map_ok (\<lambda>rep. (map_of (rep_balances rep) ''alice-01'', map_of (rep_balances rep) ''bob-0002'',
      rep_rejected_receives rep)) (reconcile_partitions H demo_partition []) = Ok (Some 900, Some 200, [])"
proof -
  have "same_outcome (reconcile_partitions H demo_partition []) (reconcile_partitions in_order demo_partition [])"
    by (rule reconcile_set[OF assms in_order_ok demo_distinct_hashes refl])
  then show ?thesis using demo_reconciled
    by (cases "reconcile_partitions H demo_partition []"; cases "reconcile_partitions in_order demo_partition []")
      (simp_all add: same_outcome_def same_report_def)
qed

text \<open>The error of a failed reconciliation is not determined by the blocks: two accounts that both spent
  what they did not have are named in turn, each by a run whose map happens to visit it first.\<close>

definition demo_overdrawn :: "block list" where
  "demo_overdrawn = [demo_block ''alice-01'' 1 (Send ''carol-03'' 5) ''a1'', demo_block ''bob-0002'' 1 (Send ''carol-03'' 7) ''b1'']"

lemma demo_overdrawn_counters:
  "applied_counters demo_overdrawn = Ok \<lparr>rs_crdts =
      [(''alice-01'', \<lparr>pn_p = [], pn_n = [(''alice-01'', 5)]\<rparr>), (''bob-0002'', \<lparr>pn_p = [], pn_n = [(''bob-0002'', 7)]\<rparr>)],
     rs_rejected_receives = [], rs_rejected_genesis = []\<rparr>"
proof -
  have groups: "group_blocks demo_overdrawn = map (\<lambda>b. (block_key_of b, [b])) demo_overdrawn"
    by (simp add: demo_overdrawn_def demo_block_def group_blocks_def hm_entry_def hm_insert_def block_key_of_def)
  then have "winners_of demo_overdrawn = map (\<lambda>b. (block_key_of b, b)) demo_overdrawn"
    by (simp add: winners_of_def demo_overdrawn_def demo_block_def pick_winners_def pick_winner_def hm_insert_def block_key_of_def)
  moreover have "ordered_keys demo_overdrawn = [(''alice-01'', 1), (''bob-0002'', 1)]"
    unfolding ordered_keys_def groups
    by (simp add: demo_overdrawn_def demo_block_def block_key_of_def less_eq_prod_def less_prod_def less_char_def)
  ultimately show ?thesis
    by (simp add: applied_counters_def demo_overdrawn_def demo_counters Let_def)
qed

lemma reconcile_error_order:
  "reconcile_partitions in_order demo_overdrawn [] = Err (NegativeBalance ''alice-01'' (- 5))"
  "reconcile_partitions in_reverse demo_overdrawn [] = Err (NegativeBalance ''bob-0002'' (- 7))"
proof -
  have "dedup_by_hash {} (demo_overdrawn @ []) = demo_overdrawn" by (simp add: demo_overdrawn_def demo_block_def)
  then show "reconcile_partitions in_order demo_overdrawn [] = Err (NegativeBalance ''alice-01'' (- 5))"
    "reconcile_partitions in_reverse demo_overdrawn [] = Err (NegativeBalance ''bob-0002'' (- 7))"
    unfolding reconcile_unfold[OF in_order_ok] reconcile_unfold[OF in_reverse_ok] Let_def
    by (simp_all add: demo_overdrawn_counters in_order_def in_reverse_def demo_counters Let_def)
qed

text \<open>C14. A reconciliation depends only on the set of blocks of the two partitions, not on how they were
  split, ordered or repeated nor on the order in which its hash maps iterate, as long as different
  blocks have different hashes: any two runs both panic, both fail for a negative balance, or both
  report the same balances and rejections and the same conflicts with the same multiplicities.
  The conflicts are listed in the order of a map, and when several balances are negative the order of a
  map chooses the one that is named; the errors that can come out are those of any other split.\<close>

theorem reconcile_agree:
  assumes "hash_orders_ok H" "hash_orders_ok J"
    and "inj_on b_hash (set pa \<union> set pb)" "set pa \<union> set pb = set pc \<union> set pd"
  shows "same_outcome (reconcile_partitions H pa pb) (reconcile_partitions J pc pd) \<and>
    (\<forall>e. (\<exists>K. hash_orders_ok K \<and> reconcile_partitions K pa pb = Err e) \<longleftrightarrow>
      (\<exists>K. hash_orders_ok K \<and> reconcile_partitions K pc pd = Err e))"
  using reconcile_set(1)[OF assms] reconcile_set(2)[OF _ _ assms(3,4)] by blast

theorem reconcile_agree_witness:
  "same_outcome (reconcile_partitions in_order demo_partition []) (reconcile_partitions in_reverse (rev demo_partition) demo_partition) \<and>
    (\<exists>K. hash_orders_ok K \<and>
      reconcile_partitions K [demo_overdrawn ! 1] [demo_overdrawn ! 0] = Err (NegativeBalance ''bob-0002'' (- 7)))"
proof
  show "same_outcome (reconcile_partitions in_order demo_partition []) (reconcile_partitions in_reverse (rev demo_partition) demo_partition)"
    using reconcile_agree[OF in_order_ok in_reverse_ok demo_distinct_hashes, of "rev demo_partition" demo_partition] by simp
  have "inj_on b_hash (set demo_overdrawn \<union> set [])" by (simp add: demo_overdrawn_def demo_block_def)
  from reconcile_agree[OF in_order_ok in_order_ok this, of "[demo_overdrawn ! 1]" "[demo_overdrawn ! 0]"]
  show "\<exists>K. hash_orders_ok K \<and>
      reconcile_partitions K [demo_overdrawn ! 1] [demo_overdrawn ! 0] = Err (NegativeBalance ''bob-0002'' (- 7))"
    using reconcile_error_order(2) in_reverse_ok by (auto simp: demo_overdrawn_def)
qed

text \<open>C16. A reported balance is never negative and is the difference of the account's credits and debits
  over the winning blocks (each total capped at the largest unsigned value, the difference at the
  largest signed one); the winning blocks are those with the least hash at their account and nonce.
  This is so in whatever order the hash maps iterate.\<close>

theorem reconcile_balance_exact:
  assumes "hash_orders_ok H"
    and "reconcile_partitions H pa pb = Ok rep" "map_of (rep_balances rep) a = Some v"
  shows "0 \<le> v \<and> (\<exists>all w. all = dedup_by_hash {} (pa @ pb) \<and> w = winning_blocks all \<and>
    set w = {b \<in> set all. \<forall>c \<in> set all. block_key_of c = block_key_of b \<longrightarrow> b_hash b \<le> b_hash c} \<and>
    v = min i64_MAX (min (total_for a (credit (index_sends (winners_of all))) w) (2 ^ 64 - 1)
      - min (total_for a debit w) (2 ^ 64 - 1)))"
proof -
  let ?all = "dedup_by_hash {} (pa @ pb)"
  have "set (winning_blocks ?all) = {b \<in> set ?all. \<forall>c \<in> set ?all. block_key_of c = block_key_of b \<longrightarrow> b_hash b \<le> b_hash c}"
    using winning_blocks_iff[OF dedup_distinct] by (auto simp: wins_def)
  then show ?thesis using reconcile_balance[OF assms] by blast
qed

theorem reconcile_balance_exact_witness:
  "\<exists>rep. reconcile_partitions in_reverse demo_partition [] = Ok rep \<and> map_of (rep_balances rep) ''bob-0002'' = Some 200 \<and>
    (0 :: int) \<le> 200"
proof -
  obtain rep where "reconcile_partitions in_reverse demo_partition [] = Ok rep" "map_of (rep_balances rep) ''bob-0002'' = Some 200"
    using reconcile_double_credit[OF in_reverse_ok] by (auto simp: outcome_simps)
  then show ?thesis using reconcile_balance_exact[OF in_reverse_ok, of demo_partition "[]" rep] by blast
qed

section \<open>Replicas converge\<close>

text \<open>Replicas of a counter that absorbed the same states agree, whatever the order and the number of
  times each was absorbed; the value is the difference of the two totals, capped at the unsigned range
  and clamped to the signed one.\<close>

lemma pn_convergence:
  assumes "pn_ok s" "\<forall>x \<in> set xs. pn_ok x" "set xs = set ys"
  shows "foldl pn_merge s xs = foldl pn_merge s ys \<and>
    (\<forall>c. pn_value c = max i64_MIN (min i64_MAX
      (min (entry_total (pn_p c)) (2 ^ 64 - 1) - min (entry_total (pn_n c)) (2 ^ 64 - 1))))"
  using pn.convergence[OF assms] pn_value_clamped by blast

lemma or_elements_fold: "or_elements (foldl or_merge s xs) = foldl union_entries (or_elements s) (map or_elements xs)"
  by (induction xs arbitrary: s) (simp_all add: or_merge_def)

lemma or_contains_fold:
  "or_ok s \<Longrightarrow> \<forall>t \<in> set xs. or_ok t \<Longrightarrow>
    or_contains (foldl or_merge s xs) x \<longleftrightarrow> or_contains s x \<or> (\<exists>t \<in> set xs. or_contains t x)"
  by (induction xs arbitrary: s) (auto simp: or_merge_ok or_contains_merge)

text \<open>Replicas of a set that absorbed the same states hold the same elements with the same tags; an
  element is in the result exactly when it was in one of the states.\<close>

lemma or_set_convergence:
  assumes "or_ok s" "\<forall>t \<in> set xs. or_ok t" "set xs = set ys"
  shows "or_elements (foldl or_merge s xs) = or_elements (foldl or_merge s ys) \<and>
    (\<forall>x. or_contains (foldl or_merge s xs) x \<longleftrightarrow> or_contains s x \<or> (\<exists>t \<in> set xs. or_contains t x))"
proof -
  have "foldl union_entries (or_elements s) (map or_elements xs) = foldl union_entries (or_elements s) (map or_elements ys)"
    using assms by (intro tag_map.convergence) (auto simp: or_ok_def)
  then show ?thesis using or_contains_fold[OF assms(1,2)] by (simp add: or_elements_fold)
qed

text \<open>A removal does not survive a merge: an element removed here is back after merging with any
  replica that still has it, even when that replica only ever held the tags that were removed.\<close>

lemma or_remove_resurrected:
  assumes "or_ok s" "or_contains s x"
  shows "fst (or_remove x s) \<and> \<not> or_contains (snd (or_remove x s)) x \<and> or_contains (or_merge (snd (or_remove x s)) s) x"
  using assms by (simp add: or_remove_signal or_contains_remove or_contains_merge or_ops_ok)

section \<open>Clocks\<close>

text \<open>The comparison loops of a vector clock decide the pointwise order (at most everywhere, less
  somewhere, absent entries read as zero), which is irreflexive and transitive.\<close>

lemma happened_before_order:
  assumes "bt_wf (clocks a)" "bt_wf (clocks b)" "bt_wf (clocks c)"
  shows "(vc_happened_before a b \<longleftrightarrow> (\<forall>k. clock_at (clocks a) k \<le> clock_at (clocks b) k) \<and>
      (\<exists>k. clock_at (clocks a) k < clock_at (clocks b) k)) \<and>
    \<not> vc_happened_before a a \<and>
    (vc_happened_before a b \<and> vc_happened_before b c \<longrightarrow> vc_happened_before a c)"
  using assms clock_before_trans[OF assms]
  by (simp add: vc_happened_before_def clock_before_irrefl clock_before_iff[symmetric])

lemma clock_at_fold:
  "bt_wf m \<Longrightarrow> \<forall>e \<in> set ms. bt_wf e \<Longrightarrow>
    clock_at (foldl max_entries m ms) k = foldl max (clock_at m k) (map (\<lambda>e. clock_at e k) ms)"
  by (induction ms arbitrary: m) (auto simp: clock_at_max_entries max_entries_wf)

lemma crdt_clocks_fold: "crdt_clocks (foldl cvc_merge s xs) = foldl max_entries (crdt_clocks s) (map crdt_clocks xs)"
  by (induction xs arbitrary: s) (simp_all add: cvc_merge_simp)

text \<open>Replicas of an uncapped clock that absorbed the same clocks agree, and the result is at every
  node the largest value seen.\<close>

lemma clock_convergence:
  assumes "cvc_ok s" "\<forall>x \<in> set xs. cvc_ok x" "set xs = set ys"
  shows "foldl cvc_merge s xs = foldl cvc_merge s ys \<and>
    clock_at (crdt_clocks (foldl cvc_merge s xs)) k =
      foldl max (clock_at (crdt_clocks s) k) (map (\<lambda>x. clock_at (crdt_clocks x) k) xs)"
proof
  show "foldl cvc_merge s xs = foldl cvc_merge s ys" by (rule crdt_clock.convergence[OF assms])
  show "clock_at (crdt_clocks (foldl cvc_merge s xs)) k =
      foldl max (clock_at (crdt_clocks s) k) (map (\<lambda>x. clock_at (crdt_clocks x) k) xs)"
    using assms(1,2) by (simp add: crdt_clocks_fold clock_at_fold cvc_ok_def comp_def)
qed

text \<open>C35. Replicas that absorbed the same states agree, whatever the order and the number of times each was
  absorbed. A counter then reads the difference of its totals, capped at the unsigned and clamped to
  the signed range; a set holds an element exactly when one of the states held it; a clock is at every
  node the largest value seen.\<close>

theorem replicas_converge:
  assumes "pn_ok s" "\<forall>x \<in> set xs. pn_ok x" "set xs = set ys"
    and "or_ok t" "\<forall>x \<in> set us. or_ok x" "set us = set vs"
    and "cvc_ok c" "\<forall>x \<in> set cs. cvc_ok x" "set cs = set ds"
  shows "foldl pn_merge s xs = foldl pn_merge s ys \<and>
    or_elements (foldl or_merge t us) = or_elements (foldl or_merge t vs) \<and>
    foldl cvc_merge c cs = foldl cvc_merge c ds \<and>
    pn_value s = max i64_MIN (min i64_MAX
      (min (entry_total (pn_p s)) (2 ^ 64 - 1) - min (entry_total (pn_n s)) (2 ^ 64 - 1))) \<and>
    (or_contains (foldl or_merge t us) e \<longleftrightarrow> or_contains t e \<or> (\<exists>x \<in> set us. or_contains x e)) \<and>
    clock_at (crdt_clocks (foldl cvc_merge c cs)) k =
      foldl max (clock_at (crdt_clocks c) k) (map (\<lambda>x. clock_at (crdt_clocks x) k) cs)"
  using pn_convergence[OF assms(1-3)] or_set_convergence[OF assms(4-6)] clock_convergence[OF assms(7-9), of k] by blast

theorem replicas_converge_witness:
  "foldl pn_merge pn_new [pn_increment ''a'' 5 pn_new, pn_decrement ''b'' 2 pn_new] =
     foldl pn_merge pn_new [pn_decrement ''b'' 2 pn_new, pn_increment ''a'' 5 pn_new, pn_decrement ''b'' 2 pn_new] \<and>
   or_contains (foldl or_merge (or_new ''n'') [or_add (1 :: nat) (or_new ''m'')]) 1 \<and>
   foldl cvc_merge cvc_new [\<lparr>crdt_clocks = [(''a'', 3)]\<rparr>, \<lparr>crdt_clocks = [(''b'', 1)]\<rparr>] =
     foldl cvc_merge cvc_new [\<lparr>crdt_clocks = [(''b'', 1)]\<rparr>, \<lparr>crdt_clocks = [(''a'', 3)]\<rparr>]"
proof -
  let ?xs = "[pn_increment ''a'' 5 pn_new, pn_decrement ''b'' 2 pn_new]"
  let ?us = "[or_add (1 :: nat) (or_new ''m'')]"
  let ?cs = "[\<lparr>crdt_clocks = [(''a'', 3 :: u64)]\<rparr>, \<lparr>crdt_clocks = [(''b'', 1)]\<rparr>]"
  have pn: "pn_ok pn_new" "\<forall>x \<in> set ?xs. pn_ok x" by (auto simp: pn_ops_ok)
  have ors: "or_ok (or_new ''n'' :: nat or_set)" "\<forall>x \<in> set ?us. or_ok x" by (auto intro: or_ops_ok)
  have cvc: "cvc_ok cvc_new" "\<forall>x \<in> set ?cs. cvc_ok x" by (auto simp: cvc_ok_def cvc_new_def bt_wf_def)
  have same: "set ?xs = set [pn_decrement ''b'' 2 pn_new, pn_increment ''a'' 5 pn_new, pn_decrement ''b'' 2 pn_new]"
    "set ?cs = set [\<lparr>crdt_clocks = [(''b'', 1)]\<rparr>, \<lparr>crdt_clocks = [(''a'', 3)]\<rparr>]" by auto
  from replicas_converge[OF pn same(1) ors refl cvc same(2), of 1] show ?thesis
    by (simp add: or_contains_add or_ops_ok)
qed

text \<open>Pruning to a cap keeps exactly as many entries as fit; every entry it drops has a counter no
  larger than any it keeps (ties by identifier), and it reports how many it dropped. Pruning by age
  keeps exactly the entries younger than the limit.\<close>

lemma pruning_spec:
  assumes "bt_wf clock" "prune_to_cap clock cap = (res, clock')" "prune_expired clock days now = (res2, clock2)"
  shows "length clock' = min cap (length clock) \<and> set clock' \<subseteq> set clock \<and>
    (\<forall>(i, e) \<in> set clock - set clock'. \<forall>(j, f) \<in> set clock'. (vce_counter e, i) \<le> (vce_counter f, j)) \<and>
    res = (if length clock \<le> cap then Clean else ForcedPruning (length clock - cap)) \<and>
    (\<forall>i e. (i, e) \<in> set clock2 \<longleftrightarrow> (i, e) \<in> set clock \<and>
      unat now - unat (vce_last_seen_unix e) < min (unat days * 86400) (2 ^ 64 - 1))"
  using prune_to_cap_spec[OF assms(1,2)] prune_expired_spec[OF assms(1,3)] by blast

end
