(* ===== verification/Consensus.thy ===== *)
theory Consensus
  imports Block Interfaces "HOL-Library.Product_Lexorder"
begin

text \<open>
  Crate \<open>arxia-consensus\<close>: votes (\<open>vote.rs\<close>), their eligibility (\<open>orv.rs\<close>), the quorum check
  (\<open>quorum.rs\<close>) and the resolution of two competing blocks (\<open>conflict.rs\<close>). The lemmas give the
  exact rule each decision follows, over the natural numbers, and where the 64-bit arithmetic
  departs from it.
\<close>

section \<open>Votes\<close>

record vote_orv =
  v_block_hash :: bytes
  v_voter_pubkey :: bytes
  v_delegated_stake :: u64
  v_nonce :: u64
  v_signature :: bytes

definition vote_bytes :: "bytes \<Rightarrow> bytes \<Rightarrow> u64 \<Rightarrow> u64 \<Rightarrow> bytes" where
  "vote_bytes block_hash voter_pubkey delegated_stake nonce =
     block_hash @ voter_pubkey @ u64_to_le delegated_stake @ u64_to_le nonce"

definition compute_vote_hash ::
    "('sk, 'vk, 'z) crypto_scheme \<Rightarrow> bytes \<Rightarrow> bytes \<Rightarrow> u64 \<Rightarrow> u64 \<Rightarrow> bytes" where
  "compute_vote_hash E block_hash voter_pubkey delegated_stake nonce =
     blake3 E (vote_bytes block_hash voter_pubkey delegated_stake nonce)"

definition verify_vote :: "('sk, 'vk, 'z) crypto_scheme \<Rightarrow> vote_orv \<Rightarrow> (unit, arxia_error) result" where
  "verify_vote E vote =
     crypto_verify E (v_voter_pubkey vote)
       (compute_vote_hash E (v_block_hash vote) (v_voter_pubkey vote) (v_delegated_stake vote) (v_nonce vote))
       (v_signature vote)"

definition verify_vote_known ::
    "('sk, 'vk, 'z) crypto_scheme \<Rightarrow> vote_orv \<Rightarrow> bytes set \<Rightarrow> (unit, arxia_error) result" where
  "verify_vote_known E vote known_blocks =
     and_then (verify_vote E vote) (\<lambda>_.
       fail_if (v_block_hash vote \<notin> known_blocks) (UnknownVoteTarget (hex_encode E (v_block_hash vote))))"

definition cast_vote ::
    "('sk, 'vk, 'z) crypto_scheme \<Rightarrow> 'sk \<Rightarrow> bytes \<Rightarrow> u64 \<Rightarrow> u64 \<Rightarrow> vote_orv" where
  "cast_vote E signing_key block_hash delegated_stake nonce =
     (let voter_pubkey = vk_to_bytes E (sk_verifying_key E signing_key);
          hash = compute_vote_hash E block_hash voter_pubkey delegated_stake nonce
      in \<lparr>v_block_hash = block_hash, v_voter_pubkey = voter_pubkey,
          v_delegated_stake = delegated_stake, v_nonce = nonce,
          v_signature = crypto_sign E signing_key hash\<rparr>)"

text \<open>A vote is its four signed fields: the hashed bytes determine them.\<close>

lemma vote_bytes_inj:
  assumes "length h = 32" "length h' = 32" "length k = 32" "length k' = 32"
    and "vote_bytes h k s n = vote_bytes h' k' s' n'"
  shows "h = h' \<and> k = k' \<and> s = s' \<and> n = n'"
  using assms by (simp add: vote_bytes_def append_eq_append_conv)

lemma verify_cast_vote:
  "ed25519_laws E \<Longrightarrow> verify_vote E (cast_vote E k h s n) = Ok ()"
  using verify_signed[of E k] by (simp add: verify_vote_def cast_vote_def Let_def pubkey_of_def)

interpretation vote_envelope: signed_envelope
  "\<lambda>v. Some (compute_vote_hash E (v_block_hash v) (v_voter_pubkey v) (v_delegated_stake v) (v_nonce v))"
  "\<lambda>v. Some (v_voter_pubkey v)" v_signature "\<lambda>v. verify_vote_known E v known = Ok ()"
  "\<lambda>pk m s. crypto_verify E pk m s = Ok ()" for E known
  by unfold_locales (auto simp: verify_vote_known_def verify_vote_def outcome_simps)

section \<open>Eligible representatives\<close>

definition MIN_REPRESENTATIVE_STAKE_DENOM :: u64 where
  "MIN_REPRESENTATIVE_STAKE_DENOM = 1000"

record collected_votes =
  cv_accepted :: "vote_orv list"
  cv_filtered :: "vote_orv list"
  cv_min_stake :: u64

fun collect_loop :: "u64 \<Rightarrow> vote_orv list \<Rightarrow> vote_orv list \<Rightarrow> vote_orv list \<Rightarrow> vote_orv list \<times> vote_orv list" where
  "collect_loop min_stake [] accepted filtered = (accepted, filtered)"
| "collect_loop min_stake (v # vs) accepted filtered =
     (if v_delegated_stake v \<ge> min_stake then collect_loop min_stake vs (accepted @ [v]) filtered
      else collect_loop min_stake vs accepted (filtered @ [v]))"

definition collect_votes_with_audit :: "vote_orv list \<Rightarrow> u64 \<Rightarrow> collected_votes" where
  "collect_votes_with_audit votes total_supply =
     (let min_stake = total_supply div MIN_REPRESENTATIVE_STAKE_DENOM;
          (accepted, filtered) = collect_loop min_stake votes [] []
      in \<lparr>cv_accepted = accepted, cv_filtered = filtered, cv_min_stake = min_stake\<rparr>)"

definition collect_votes :: "vote_orv list \<Rightarrow> u64 \<Rightarrow> vote_orv list" where
  "collect_votes votes total_supply = cv_accepted (collect_votes_with_audit votes total_supply)"

lemma collect_loop_filter:
  "collect_loop m vs acc rej =
     (acc @ filter (\<lambda>v. m \<le> v_delegated_stake v) vs, rej @ filter (\<lambda>v. \<not> m \<le> v_delegated_stake v) vs)"
  by (induction m vs acc rej rule: collect_loop.induct) auto

text \<open>Nothing is lost, and a vote is accepted exactly with 0.1 % of the supply or more.\<close>

lemma collect_votes_spec:
  "mset (cv_accepted (collect_votes_with_audit vs t)) + mset (cv_filtered (collect_votes_with_audit vs t)) = mset vs
   \<and> (v \<in> set (collect_votes vs t) \<longleftrightarrow>
        v \<in> set vs \<and> unat t < 1000 * Suc (unat (v_delegated_stake v)))"
proof -
  have "t div 1000 \<le> s \<longleftrightarrow> unat t < 1000 * Suc (unat s)" for s :: u64
    by (simp add: word_le_nat_alt unat_div_distrib)
      (simp add: div_less_iff_less_mult less_Suc_eq_le[symmetric] mult.commute)
  then show ?thesis
    by (simp add: collect_votes_def collect_votes_with_audit_def Let_def collect_loop_filter
        MIN_REPRESENTATIVE_STAKE_DENOM_def multiset_partition[symmetric])
qed

section \<open>Quorum\<close>

record quorum_result =
  q_reached :: bool
  q_voted_reps :: u64
  q_total_reps :: u64
  q_voted_stake :: u64
  q_total_supply :: u64

text \<open>The counts are \<open>usize\<close> values of a 64-bit target; both products of the code are plain
  multiplications, evaluated as soon as there is a representative.\<close>

definition rep_quorum :: "u64 \<Rightarrow> u64 \<Rightarrow> (bool, 'e) result" where
  "rep_quorum voted_reps total_reps =
     (if total_reps = 0 then Ok False
      else and_then (plain_mul voted_reps 3) (\<lambda>x. and_then (plain_mul total_reps 2) (\<lambda>y. Ok (x \<ge> y))))"

definition check_quorum :: "u64 \<Rightarrow> u64 \<Rightarrow> u64 \<Rightarrow> u64 \<Rightarrow> (quorum_result, 'e) result" where
  "check_quorum voted_reps total_reps voted_stake total_supply =
     and_then (rep_quorum voted_reps total_reps) (\<lambda>reps.
       let stake_quorum = (if total_supply = 0 then False
            else case checked_mul voted_stake 5 of None \<Rightarrow> False | Some fivex \<Rightarrow> fivex \<ge> total_supply)
       in Ok \<lparr>q_reached = reps \<and> stake_quorum, q_voted_reps = voted_reps, q_total_reps = total_reps,
             q_voted_stake = voted_stake, q_total_supply = total_supply\<rparr>)"

lemma rep_quorum_value:
  "rep_quorum vr tr =
     (if tr \<noteq> 0 \<and> (2 ^ 64 \<le> 3 * unat vr \<or> 2 ^ 64 \<le> 2 * unat tr) then Panic
      else Ok (0 < tr \<and> 2 * unat tr \<le> 3 * unat vr))"
proof (cases "tr \<noteq> 0 \<and> 3 * unat vr < 2 ^ 64 \<and> 2 * unat tr < 2 ^ 64")
  case True
  then have "checked_mul vr 3 = Some (vr * 3)" "checked_mul tr 2 = Some (tr * 2)"
      "unat (vr * 3) = unat vr * 3" "unat (tr * 2) = unat tr * 2"
    by (simp_all add: checked_mul_def unat_word_ariths mult.commute)
  with True show ?thesis
    by (simp add: rep_quorum_def plain_mul_def word_le_nat_alt word_gt_0 mult.commute)
next
  case False
  then show ?thesis
    by (auto simp: rep_quorum_def plain_mul_def checked_mul_def word_gt_0 mult.commute)
qed

lemma stake_quorum_iff:
  "(case checked_mul vs 5 of None \<Rightarrow> False | Some x \<Rightarrow> (ts :: u64) \<le> x) \<longleftrightarrow>
    unat ts \<le> 5 * unat vs \<and> 5 * unat vs < 2 ^ 64"
proof (cases "checked_mul vs 5")
  case None
  then show ?thesis by (simp add: checked_mul_def mult.commute split: if_splits)
next
  case (Some x)
  then have "5 * unat vs < 2 ^ 64" "unat x = 5 * unat vs" by (simp_all add: checked_mul_Some mult.commute)
  then show ?thesis by (simp add: Some word_le_nat_alt)
qed

lemma check_quorum_value:
  "check_quorum vr tr vs ts =
     (if tr \<noteq> 0 \<and> (2 ^ 64 \<le> 3 * unat vr \<or> 2 ^ 64 \<le> 2 * unat tr) then Panic
      else Ok \<lparr>q_reached = (0 < tr \<and> 2 * unat tr \<le> 3 * unat vr \<and>
                 0 < ts \<and> unat ts \<le> 5 * unat vs \<and> 5 * unat vs < 2 ^ 64),
               q_voted_reps = vr, q_total_reps = tr, q_voted_stake = vs, q_total_supply = ts\<rparr>)"
  by (auto simp: check_quorum_def rep_quorum_value stake_quorum_iff word_gt_0)

section \<open>Two competing blocks\<close>

definition conflict_block_type_tag :: "block \<Rightarrow> string" where
  "conflict_block_type_tag b =
     (case b_type b of Open _ \<Rightarrow> ''Open'' | Send _ _ \<Rightarrow> ''Send'' | Receive _ \<Rightarrow> ''Receive'' | Revoke _ \<Rightarrow> ''Revoke'')"

definition is_eligible_for_orv :: "block \<Rightarrow> bool" where
  "is_eligible_for_orv b =
     (case b_type b of Open _ \<Rightarrow> True | Send _ _ \<Rightarrow> True | Receive _ \<Rightarrow> True | Revoke _ \<Rightarrow> False)"

text \<open>\<open>.sum()\<close>, which panics on overflow in a checked build.\<close>

fun plain_sum :: "u64 \<Rightarrow> u64 list \<Rightarrow> (u64, 'e) result" where
  "plain_sum acc [] = Ok acc"
| "plain_sum acc (x # xs) = and_then (plain_add acc x) (\<lambda>acc'. plain_sum acc' xs)"

definition resolve_conflict_orv ::
    "block \<Rightarrow> block \<Rightarrow> vote_orv list \<Rightarrow> vote_orv list \<Rightarrow> (block \<times> string, arxia_error) result" where
  "resolve_conflict_orv block_a block_b votes_a votes_b =
     and_then (fail_if (\<not> is_eligible_for_orv block_a)
       (IneligibleConflictBlockType (b_hash block_a) (conflict_block_type_tag block_a))) (\<lambda>_.
     and_then (fail_if (\<not> is_eligible_for_orv block_b)
       (IneligibleConflictBlockType (b_hash block_b) (conflict_block_type_tag block_b))) (\<lambda>_.
     and_then (plain_sum 0 (map v_delegated_stake votes_a)) (\<lambda>stake_a.
     and_then (plain_sum 0 (map v_delegated_stake votes_b)) (\<lambda>stake_b.
       let total_stake = saturating_add stake_a stake_b;
           gap = abs_diff stake_a stake_b
       in if total_stake > 0 \<and> saturating_mul gap 20 > total_stake
          then Ok (if stake_a > stake_b then block_a else block_b, ''stake_weighted'')
          else Ok (if b_hash block_a \<le> b_hash block_b then block_a else block_b, ''hash_tiebreaker'')))))"

definition stake_total :: "vote_orv list \<Rightarrow> nat" where
  "stake_total vs = (\<Sum>v\<leftarrow>vs. unat (v_delegated_stake v))"

lemma plain_add_exact:
  "unat a + unat (x :: u64) < 2 ^ 64 \<Longrightarrow> plain_add a x = Ok (a + x)"
  "2 ^ 64 \<le> unat a + unat (x :: u64) \<Longrightarrow> plain_add a x = Panic"
  by (simp_all add: plain_add_def checked_add_def)

lemma plain_sum_Ok:
  "unat a + sum_list (map unat xs) < 2 ^ 64 \<Longrightarrow>
    \<exists>s. plain_sum a xs = Ok s \<and> unat s = unat a + sum_list (map unat xs)"
proof (induction xs arbitrary: a)
  case (Cons x xs)
  have "unat (a + x) = unat a + unat x" using Cons.prems by (simp add: unat_word_ariths)
  then show ?case using Cons.IH[of "a + x"] Cons.prems by (simp add: add.assoc plain_add_exact)
qed simp

lemma plain_sum_Panic:
  "2 ^ 64 \<le> unat a + sum_list (map unat xs) \<Longrightarrow> plain_sum a xs = Panic"
proof (induction xs arbitrary: a)
  case Nil
  then show ?case using unat_u64_less[of a] by simp
next
  case (Cons x xs)
  show ?case
  proof (cases "unat a + unat x < 2 ^ 64")
    case True
    then have "unat (a + x) = unat a + unat x" by (simp add: unat_word_ariths)
    then show ?thesis
      using True Cons.IH[of "a + x"] Cons.prems by (simp add: plain_add_exact add.assoc)
  next
    case False
    then show ?thesis by (simp add: plain_add_exact)
  qed
qed

text \<open>
  The rule, as long as the two stakes together stay below \<open>u64::MAX\<close>: the heavier block wins when
  the gap is more than 5 % of the total, otherwise the smaller hash does.
\<close>

lemma resolve_conflict_rule:
  assumes el: "is_eligible_for_orv a" "is_eligible_for_orv b"
    and bound: "stake_total va + stake_total vb < 2 ^ 64 - 1"
  shows "resolve_conflict_orv a b va vb =
    Ok (if stake_total va + stake_total vb < 20 * (stake_total va - stake_total vb) then (a, ''stake_weighted'')
        else if stake_total va + stake_total vb < 20 * (stake_total vb - stake_total va) then (b, ''stake_weighted'')
        else (if b_hash a \<le> b_hash b then a else b, ''hash_tiebreaker''))"
proof -
  obtain sa where sa: "plain_sum 0 (map v_delegated_stake va) = (Ok sa :: (u64, arxia_error) result)"
    "unat sa = stake_total va"
    using plain_sum_Ok[of 0 "map v_delegated_stake va"] bound by (auto simp: stake_total_def comp_def)
  obtain sb where sb: "plain_sum 0 (map v_delegated_stake vb) = (Ok sb :: (u64, arxia_error) result)"
    "unat sb = stake_total vb"
    using plain_sum_Ok[of 0 "map v_delegated_stake vb"] bound by (auto simp: stake_total_def comp_def)
  have total: "unat (saturating_add sa sb) = stake_total va + stake_total vb"
    using bound sa sb by (simp add: unat_saturating_add)
  have gap: "unat (saturating_mul (abs_diff sa sb) 20)
      = min (20 * ((stake_total va - stake_total vb) + (stake_total vb - stake_total va))) (2 ^ 64 - 1)"
    using sa sb by (simp add: unat_saturating_mul unat_abs_diff mult.commute)
  have "(saturating_add sa sb > 0 \<and> saturating_mul (abs_diff sa sb) 20 > saturating_add sa sb) \<longleftrightarrow>
      stake_total va + stake_total vb
        < 20 * ((stake_total va - stake_total vb) + (stake_total vb - stake_total va))"
    using bound by (auto simp: word_less_nat_alt total gap)
  moreover have "sa > sb \<longleftrightarrow> stake_total vb < stake_total va"
    using sa sb by (simp add: word_less_nat_alt)
  ultimately show ?thesis
    using el sa(1) sb(1) by (auto simp: resolve_conflict_orv_def Let_def)
qed

text \<open>The verdict does not depend on which block is named first.\<close>

lemma resolve_conflict_symmetric:
  assumes "is_eligible_for_orv a" "is_eligible_for_orv b" "b_hash a \<noteq> b_hash b"
    and "stake_total va + stake_total vb < 2 ^ 64 - 1"
  shows "resolve_conflict_orv a b va vb = resolve_conflict_orv b a vb va"
  using assms resolve_conflict_rule[of a b va vb] resolve_conflict_rule[of b a vb va]
  by (auto simp: add.commute)

lemma resolve_conflict_overflow:
  "is_eligible_for_orv a \<Longrightarrow> is_eligible_for_orv b \<Longrightarrow> 2 ^ 64 \<le> stake_total va \<Longrightarrow>
    resolve_conflict_orv a b va vb = Panic"
  by (simp add: resolve_conflict_orv_def stake_total_def plain_sum_Panic comp_def)

section \<open>Double spends\<close>

definition group_by_position :: "block list \<Rightarrow> (string \<times> u64, block list) btree" where
  "group_by_position blocks =
     fold (\<lambda>b. bt_entry (b_account b, b_nonce b) [] (\<lambda>g. g @ [b])) blocks []"

definition detect_double_spend :: "block list \<Rightarrow> (block \<times> block list \<times> string) list" where
  "detect_double_spend blocks =
     map (\<lambda>g. (g ! 0, tl g, ''same_nonce''))
       (filter (\<lambda>g. length g > 1) (map snd (group_by_position blocks)))"

definition position_group :: "block list \<Rightarrow> string \<times> u64 \<Rightarrow> block list" where
  "position_group blocks k = filter (\<lambda>b. (b_account b, b_nonce b) = k) blocks"

lemma group_by_position_wf: "bt_wf (group_by_position bs)"
  by (induction bs rule: rev_induct) (simp_all add: group_by_position_def)

lemma group_by_position_lookup:
  "map_of (group_by_position bs) k = (if position_group bs k = [] then None else Some (position_group bs k))"
proof (induction bs rule: rev_induct)
  case (snoc b bs)
  have "group_by_position (bs @ [b]) =
      bt_entry (b_account b, b_nonce b) [] (\<lambda>g. g @ [b]) (group_by_position bs)"
    by (simp add: group_by_position_def)
  then show ?case using snoc by (auto simp: map_of_bt_entry position_group_def split: if_splits)
qed (simp add: group_by_position_def position_group_def)

text \<open>
  Every position with two or more blocks is reported, with all its blocks: the first one as the
  winner, the others, in input order, as losers; and nothing else is reported.
\<close>

lemma detect_double_spend_iff:
  "(w, ls, m) \<in> set (detect_double_spend bs) \<longleftrightarrow>
     m = ''same_nonce'' \<and> (\<exists>k. position_group bs k = w # ls \<and> ls \<noteq> [])"
proof -
  have mem: "g \<in> snd ` set (group_by_position bs) \<longleftrightarrow> (\<exists>k. g = position_group bs k \<and> g \<noteq> [])" for g
  proof -
    have "g \<in> snd ` set (group_by_position bs) \<longleftrightarrow> (\<exists>k. map_of (group_by_position bs) k = Some g)"
      unfolding bt_mem_iff[OF group_by_position_wf, symmetric] by force
    also have "\<dots> \<longleftrightarrow> (\<exists>k. g = position_group bs k \<and> g \<noteq> [])"
      by (rule iff_exI) (auto simp: group_by_position_lookup split: if_splits)
    finally show ?thesis .
  qed
  have shape: "(w, ls, m) = (g ! 0, tl g, ''same_nonce'') \<and> length g > 1 \<longleftrightarrow>
      m = ''same_nonce'' \<and> g = w # ls \<and> ls \<noteq> []" for g
    by (cases g) auto
  have detect: "(w, ls, m) \<in> set (detect_double_spend bs) \<longleftrightarrow>
      (\<exists>g \<in> snd ` set (group_by_position bs). (w, ls, m) = (g ! 0, tl g, ''same_nonce'') \<and> length g > 1)"
    unfolding detect_double_spend_def set_map set_filter image_iff Bex_def mem_Collect_eq
    by (simp only: conj_ac)
  then have "(w, ls, m) \<in> set (detect_double_spend bs) \<longleftrightarrow>
      m = ''same_nonce'' \<and> w # ls \<in> snd ` set (group_by_position bs) \<and> ls \<noteq> []"
  proof -
    have "(\<exists>g \<in> S. m = ''same_nonce'' \<and> g = w # ls \<and> ls \<noteq> []) \<longleftrightarrow>
        m = ''same_nonce'' \<and> w # ls \<in> S \<and> ls \<noteq> []" for S
      by blast
    then show ?thesis using detect unfolding shape by (simp only:)
  qed
  also have "w # ls \<in> snd ` set (group_by_position bs) \<longleftrightarrow> (\<exists>k. position_group bs k = w # ls)"
    unfolding mem by (rule iff_exI) auto
  finally show ?thesis by simp
qed

end
