(* ===== verification/Delegation.thy ===== *)
theory Delegation
  imports Crypto Interfaces
begin

text \<open>
  Crate \<open>arxia-consensus\<close>, file \<open>delegation.rs\<close>: the delegation graph, its bounded depth-first
  cycle check, signed revocations and stake snapshots. The adjacency \<open>HashSet\<close>s are distinct
  lists in iteration order. The invariant: the adjacency is that of the edge map, and it has no
  cycle; the depth-first search is a total function with a termination proof.
\<close>

section \<open>Data\<close>

definition MAX_DELEGATION_DEPTH :: nat where "MAX_DELEGATION_DEPTH = 8"

definition DELEGATION_REVOCATION_DOMAIN :: bytes where
  "DELEGATION_REVOCATION_DOMAIN = str_bytes ''arxia-delegation-revocation-v1''"

datatype delegation_error =
    SelfDelegation
  | CycleDetected string string
  | DepthExceeded nat nat
  | InvalidRevocationSignature
  | EdgeNotFound string string

record delegation =
  d_delegator :: string
  d_representative :: string
  d_amount :: u64
  d_created_at :: u64

record revocation =
  rv_delegator_pubkey :: bytes
  rv_delegator :: string
  rv_representative :: string
  rv_nonce :: u64
  rv_signature :: bytes

record delegation_graph =
  dg_edges :: "(string \<times> string, delegation) hmap"
  dg_adjacency :: "(string, string list) hmap"

definition revocation_canonical_bytes :: "bytes \<Rightarrow> string \<Rightarrow> string \<Rightarrow> u64 \<Rightarrow> bytes" where
  "revocation_canonical_bytes delegator_pubkey delegator representative nonce =
     DELEGATION_REVOCATION_DOMAIN @ delegator_pubkey @ str_bytes delegator @ str_bytes representative
       @ u64_to_le nonce"

definition revocation_verify :: "('sk, 'vk, 'z) crypto_scheme \<Rightarrow> revocation \<Rightarrow> (unit, delegation_error) result" where
  "revocation_verify E rvc =
     map_err (\<lambda>_. InvalidRevocationSignature)
       (crypto_verify E (rv_delegator_pubkey rvc)
         (revocation_canonical_bytes (rv_delegator_pubkey rvc) (rv_delegator rvc) (rv_representative rvc)
           (rv_nonce rvc)) (rv_signature rvc))"

definition dg_new :: delegation_graph where
  "dg_new = \<lparr>dg_edges = [], dg_adjacency = []\<rparr>"

definition dg_edge_count :: "delegation_graph \<Rightarrow> nat" where
  "dg_edge_count self = length (dg_edges self)"

definition dg_is_empty :: "delegation_graph \<Rightarrow> bool" where
  "dg_is_empty self \<longleftrightarrow> dg_edges self = []"

section \<open>The cycle check\<close>

definition neighbors :: "(string, string list) hmap \<Rightarrow> string \<Rightarrow> string list" where
  "neighbors adj node = (case map_of adj node of None \<Rightarrow> [] | Some ns \<Rightarrow> ns)"

text \<open>\<open>while let Some((node, depth)) = stack.pop()\<close>; the top of the stack is the head of the list.\<close>

function dfs ::
    "(string, string list) hmap \<Rightarrow> string \<Rightarrow> string \<Rightarrow> nat \<Rightarrow> string set \<Rightarrow> (string \<times> nat) list
      \<Rightarrow> (unit, delegation_error) result" where
  "dfs adj start target max_depth visited [] = Ok ()"
| "dfs adj start target max_depth visited ((node, depth) # stack) =
     (if node = target then Err (CycleDetected target start)
      else if depth \<ge> max_depth then Err (DepthExceeded depth max_depth)
      else if node \<in> visited then dfs adj start target max_depth visited stack
      else dfs adj start target max_depth (insert node visited)
             (rev (map (\<lambda>n. (n, depth + 1)) (neighbors adj node)) @ stack))"
  by pat_completeness auto

termination
proof (relation "measures [\<lambda>(adj, s, t, m, visited, stack). card (fst ` set adj - visited),
    \<lambda>(adj, s, t, m, visited, stack). length stack]", goal_cases)
  case (3 adj start target max_depth visited node depth stack)
  show ?case
  proof (cases "node \<in> fst ` set adj")
    case True
    then have "card (fst ` set adj - insert node visited) < card (fst ` set adj - visited)"
      using 3(3) by (intro psubset_card_mono) auto
    then show ?thesis by simp
  next
    case False
    then have "neighbors adj node = []" by (simp add: neighbors_def map_of_eq_None_iff[THEN iffD2])
    moreover have "fst ` set adj - insert node visited = fst ` set adj - visited" using False by blast
    ultimately show ?thesis by simp
  qed
qed auto

definition check_no_path_within_depth ::
    "delegation_graph \<Rightarrow> string \<Rightarrow> string \<Rightarrow> nat \<Rightarrow> (unit, delegation_error) result" where
  "check_no_path_within_depth self start target max_depth =
     dfs (dg_adjacency self) start target max_depth {} [(start, 0)]"

section \<open>Operations\<close>

definition dg_delegate ::
    "delegation \<Rightarrow> delegation_graph \<Rightarrow> (unit, delegation_error) result \<times> delegation_graph" where
  "dg_delegate d self =
     (let key = (d_delegator d, d_representative d) in
      if d_delegator d = d_representative d then (Err SelfDelegation, self)
      else if map_of (dg_edges self) key \<noteq> None
      then (Ok (), self\<lparr>dg_edges := hm_insert key d (dg_edges self)\<rparr>)
      else case check_no_path_within_depth self (d_representative d) (d_delegator d) MAX_DELEGATION_DEPTH of
          Err e \<Rightarrow> (Err e, self)
        | Panic \<Rightarrow> (Panic, self)
        | Ok _ \<Rightarrow>
            (Ok (), self\<lparr>dg_adjacency := hm_entry (d_delegator d) [] (List.insert (d_representative d)) (dg_adjacency self),
                        dg_edges := hm_insert key d (dg_edges self)\<rparr>))"

definition dg_revoke ::
    "('sk, 'vk, 'z) crypto_scheme \<Rightarrow> revocation \<Rightarrow> delegation_graph
      \<Rightarrow> (unit, delegation_error) result \<times> delegation_graph" where
  "dg_revoke E rvc self =
     (let key = (rv_delegator rvc, rv_representative rvc) in
      case revocation_verify E rvc of
        Err e \<Rightarrow> (Err e, self)
      | Panic \<Rightarrow> (Panic, self)
      | Ok _ \<Rightarrow>
          if map_of (dg_edges self) key = None
          then (Err (EdgeNotFound (rv_delegator rvc) (rv_representative rvc)), self)
          else (Ok (), self\<lparr>dg_edges := hm_remove key (dg_edges self),
                 dg_adjacency :=
                   (case map_of (dg_adjacency self) (rv_delegator rvc) of
                      None \<Rightarrow> dg_adjacency self
                    | Some ns \<Rightarrow>
                        let ns' = remove1 (rv_representative rvc) ns
                        in if ns' = [] then hm_remove (rv_delegator rvc) (dg_adjacency self)
                           else hm_insert (rv_delegator rvc) ns' (dg_adjacency self))\<rparr>))"

definition total_delegated_stake :: "string \<Rightarrow> delegation list \<Rightarrow> u64" where
  "total_delegated_stake representative delegations =
     saturating_sum (map d_amount (filter (\<lambda>d. d_representative d = representative) delegations))"

definition total_for_representative :: "delegation_graph \<Rightarrow> string \<Rightarrow> u64" where
  "total_for_representative self representative =
     saturating_sum (map d_amount (filter (\<lambda>d. d_representative d = representative) (map snd (dg_edges self))))"

record delegation_snapshot =
  ds_totals :: "(string, u64) hmap"

definition dg_snapshot :: "delegation_graph \<Rightarrow> delegation_snapshot" where
  "dg_snapshot self =
     \<lparr>ds_totals = fold (\<lambda>d. hm_entry (d_representative d) 0 (\<lambda>entry. saturating_add entry (d_amount d)))
        (map snd (dg_edges self)) []\<rparr>"

definition snapshot_total_for :: "delegation_snapshot \<Rightarrow> string \<Rightarrow> u64" where
  "snapshot_total_for self representative =
     (case map_of (ds_totals self) representative of None \<Rightarrow> 0 | Some x \<Rightarrow> x)"

definition representative_count :: "delegation_snapshot \<Rightarrow> nat" where
  "representative_count self = length (ds_totals self)"

section \<open>The depth-first search\<close>

definition adj_rel :: "(string, string list) hmap \<Rightarrow> (string \<times> string) set" where
  "adj_rel adj = {(a, b). b \<in> set (neighbors adj a)}"

text \<open>
  When the search returns \<open>Ok\<close>, everything reachable from the stack was visited and the target was
  not among it; when it reports a cycle, the target is reachable; a depth error means a walk as
  long as the bound.
\<close>

lemma dfs_Ok_closed:
  assumes "dfs adj s t m visited stack = Ok ()"
    and "\<forall>a \<in> visited. \<forall>b. (a, b) \<in> adj_rel adj \<longrightarrow> b \<in> visited \<union> fst ` set stack" "t \<notin> visited"
  shows "\<exists>W. visited \<union> fst ` set stack \<subseteq> W \<and> (\<forall>a \<in> W. \<forall>b. (a, b) \<in> adj_rel adj \<longrightarrow> b \<in> W) \<and> t \<notin> W"
  using assms
proof (induction adj s t m visited stack rule: dfs.induct)
  case (1 adj s t m visited)
  then show ?case by auto
next
  case (2 adj s t m visited node depth stack)
  have n: "node \<noteq> t" "depth < m" using 2(3) by (auto split: if_splits)
  show ?case
  proof (cases "node \<in> visited")
    case True
    have "\<exists>W. visited \<union> fst ` set stack \<subseteq> W \<and> (\<forall>a \<in> W. \<forall>b. (a, b) \<in> adj_rel adj \<longrightarrow> b \<in> W) \<and> t \<notin> W"
      using 2(3-5) n True by (intro 2(1)) auto
    then obtain W where "visited \<union> fst ` set stack \<subseteq> W"
      "\<forall>a \<in> W. \<forall>b. (a, b) \<in> adj_rel adj \<longrightarrow> b \<in> W" "t \<notin> W" by blast
    moreover from this(1) have "visited \<union> fst ` set ((node, depth) # stack) \<subseteq> W" using True by auto
    ultimately show ?thesis by (intro exI[of _ W] conjI)
  next
    case False
    let ?stack = "rev (map (\<lambda>n. (n, depth + 1)) (neighbors adj node)) @ stack"
    have fst_stack: "fst ` set ?stack = set (neighbors adj node) \<union> fst ` set stack" by force
    have "\<exists>W. insert node visited \<union> fst ` set ?stack \<subseteq> W \<and>
        (\<forall>a \<in> W. \<forall>b. (a, b) \<in> adj_rel adj \<longrightarrow> b \<in> W) \<and> t \<notin> W"
    proof (rule 2(2))
      show "dfs adj s t m (insert node visited) ?stack = Ok ()" using 2(3) n False by simp
      show "\<forall>a \<in> insert node visited. \<forall>b. (a, b) \<in> adj_rel adj \<longrightarrow>
          b \<in> insert node visited \<union> fst ` set ?stack"
        using 2(4) unfolding fst_stack by (auto simp: adj_rel_def)
      show "t \<notin> insert node visited" using 2(5) n by simp
    qed (use n False in auto)
    then obtain W where W: "insert node visited \<union> fst ` set ?stack \<subseteq> W"
      "\<forall>a \<in> W. \<forall>b. (a, b) \<in> adj_rel adj \<longrightarrow> b \<in> W" "t \<notin> W" by blast
    moreover have "visited \<union> fst ` set ((node, depth) # stack) \<subseteq> W"
      using W(1) unfolding fst_stack by auto
    ultimately show ?thesis by (intro exI[of _ W] conjI)
  qed
qed

lemma closed_rtrancl:
  "\<forall>a \<in> W. \<forall>b. (a, b) \<in> R \<longrightarrow> b \<in> W \<Longrightarrow> (a, b) \<in> R\<^sup>* \<Longrightarrow> a \<in> W \<Longrightarrow> b \<in> W"
  by (rotate_tac 1, induction rule: rtrancl_induct) auto

lemma check_Ok_no_path:
  assumes "check_no_path_within_depth self s t m = Ok ()"
  shows "(s, t) \<notin> (adj_rel (dg_adjacency self))\<^sup>*"
proof -
  have "\<exists>W. {} \<union> fst ` set [(s, 0 :: nat)] \<subseteq> W \<and>
      (\<forall>a \<in> W. \<forall>b. (a, b) \<in> adj_rel (dg_adjacency self) \<longrightarrow> b \<in> W) \<and> t \<notin> W"
  proof (rule dfs_Ok_closed)
    show "dfs (dg_adjacency self) s t m {} [(s, 0)] = Ok ()"
      using assms by (simp only: check_no_path_within_depth_def)
  qed simp_all
  then obtain W where W: "{} \<union> fst ` set [(s, 0 :: nat)] \<subseteq> W" "t \<notin> W"
    and closed: "\<forall>a \<in> W. \<forall>b. (a, b) \<in> adj_rel (dg_adjacency self) \<longrightarrow> b \<in> W" by blast
  show ?thesis
  proof
    assume "(s, t) \<in> (adj_rel (dg_adjacency self))\<^sup>*"
    moreover have "s \<in> W" using W(1) by simp
    ultimately have "t \<in> W" by (rule closed_rtrancl[OF closed])
    then show False using W(2) by simp
  qed
qed

lemma dfs_Err:
  assumes "dfs adj s t m visited stack = Err e"
    and "\<forall>(n, d) \<in> set stack. (s, n) \<in> adj_rel adj ^^ d \<and> d \<le> m"
  shows "(e = CycleDetected t s \<and> (s, t) \<in> (adj_rel adj)\<^sup>*) \<or>
    (e = DepthExceeded m m \<and> (\<exists>n. (s, n) \<in> adj_rel adj ^^ m))"
  using assms
proof (induction adj s t m visited stack rule: dfs.induct)
  case (1 adj s t m visited)
  then show ?case by simp
next
  case (2 adj s t m visited node depth stack)
  note run = 2(3)
  have node: "(s, node) \<in> adj_rel adj ^^ depth" "depth \<le> m" using 2(4) by auto
  consider "node = t" | "node \<noteq> t" "m \<le> depth" | "node \<noteq> t" "depth < m" "node \<in> visited"
    | "node \<noteq> t" "depth < m" "node \<notin> visited" by fastforce
  then show ?case
  proof cases
    case 1
    then have "e = CycleDetected t s" using 2(3) by simp
    moreover have "(s, t) \<in> (adj_rel adj)\<^sup>*" using node(1) 1 relpow_imp_rtrancl by blast
    ultimately show ?thesis by blast
  next
    case 2
    then show ?thesis using run node by auto
  next
    case 3
    then show ?thesis using 2(1)[of] 2(3,4) by auto
  next
    case 4
    have "\<forall>(n, d) \<in> set (rev (map (\<lambda>n. (n, depth + 1)) (neighbors adj node)) @ stack).
        (s, n) \<in> adj_rel adj ^^ d \<and> d \<le> m"
      using 2(4) node 4 by (auto simp: adj_rel_def)
    then show ?thesis using 2(2) 2(3) 4 by auto
  qed
qed

lemma dfs_no_panic: "dfs adj s t m visited stack \<noteq> Panic"
  by (induction adj s t m visited stack rule: dfs.induct) simp_all

section \<open>The search as a loop\<close>

text \<open>
  One iteration of the \<open>while\<close> loop that goes on: a node seen before is skipped, a new one is
  marked and its neighbours pushed. The loop is left on an empty stack or with an error.
\<close>

inductive dfs_step ::
    "(string, string list) hmap \<Rightarrow> string \<Rightarrow> nat \<Rightarrow> string set \<times> (string \<times> nat) list
      \<Rightarrow> string set \<times> (string \<times> nat) list \<Rightarrow> bool"
  for adj target max_depth where
  seen: "node \<noteq> target \<Longrightarrow> depth < max_depth \<Longrightarrow> node \<in> visited \<Longrightarrow>
    dfs_step adj target max_depth (visited, (node, depth) # stack) (visited, stack)"
| new: "node \<noteq> target \<Longrightarrow> depth < max_depth \<Longrightarrow> node \<notin> visited \<Longrightarrow>
    dfs_step adj target max_depth (visited, (node, depth) # stack)
      (insert node visited, rev (map (\<lambda>n. (n, depth + 1)) (neighbors adj node)) @ stack)"

inductive_cases dfs_stepE: "dfs_step adj target max_depth st st'"

definition dfs_exit :: "string \<Rightarrow> string \<Rightarrow> nat \<Rightarrow> (string \<times> nat) list \<Rightarrow> (unit, delegation_error) result option" where
  "dfs_exit start target max_depth stack =
     (case stack of
        [] \<Rightarrow> Some (Ok ())
      | (node, depth) # _ \<Rightarrow>
          if node = target then Some (Err (CycleDetected target start))
          else if depth \<ge> max_depth then Some (Err (DepthExceeded depth max_depth))
          else None)"

text \<open>The loop reaches an exit, and what it returns there is the value of \<open>dfs\<close>.\<close>

lemma dfs_reaches_exit:
  "\<exists>n visited' stack'. (dfs_step adj t m ^^ n) (visited, stack) (visited', stack') \<and>
    dfs_exit s t m stack' = Some (dfs adj s t m visited stack)"
proof (induction adj s t m visited stack rule: dfs.induct)
  case (1 adj s t m visited)
  have "(dfs_step adj t m ^^ 0) (visited, []) (visited, [])" by simp
  moreover have "dfs_exit s t m [] = Some (dfs adj s t m visited [])" by (simp add: dfs_exit_def)
  ultimately show ?case by blast
next
  case (2 adj s t m visited node depth stack)
  show ?case
  proof (cases "node = t \<or> depth \<ge> m")
    case True
    have "(dfs_step adj t m ^^ 0) (visited, (node, depth) # stack) (visited, (node, depth) # stack)" by simp
    moreover have "dfs_exit s t m ((node, depth) # stack) = Some (dfs adj s t m visited ((node, depth) # stack))"
      using True by (auto simp: dfs_exit_def)
    ultimately show ?thesis by blast
  next
    case False
    let ?next = "if node \<in> visited then (visited, stack)
      else (insert node visited, rev (map (\<lambda>n. (n, depth + 1)) (neighbors adj node)) @ stack)"
    have "dfs_step adj t m (visited, (node, depth) # stack) ?next"
      using False dfs_step.seen[of node t depth m visited adj stack] dfs_step.new[of node t depth m visited adj stack] by simp
    moreover have "\<exists>n visited' stack'. (dfs_step adj t m ^^ n) ?next (visited', stack') \<and>
        dfs_exit s t m stack' = Some (dfs adj s t m visited ((node, depth) # stack))"
      using 2 False by auto
    ultimately show ?thesis by (meson relpowp_Suc_I2)
  qed
qed

text \<open>Every iteration takes one entry off the stack or one adjacency list into it, each list once.\<close>

definition pending_edges :: "(string, string list) hmap \<Rightarrow> string set \<Rightarrow> nat" where
  "pending_edges adj visited = (\<Sum>a \<in> fst ` set adj - visited. length (neighbors adj a))"

lemma pending_edges_insert:
  assumes "node \<notin> visited"
  shows "pending_edges adj visited = length (neighbors adj node) + pending_edges adj (insert node visited)"
proof (cases "node \<in> fst ` set adj")
  case True
  then have "fst ` set adj - visited = insert node (fst ` set adj - insert node visited)" using assms by blast
  then show ?thesis 
    unfolding pending_edges_def by (metis (no_types, lifting) DiffE finite_Diff finite_imageI finite_set insertI1 sum.insert)
next
  case False
  then have "neighbors adj node = []" by (simp add: neighbors_def map_of_eq_None_iff[THEN iffD2])
  moreover have "fst ` set adj - insert node visited = fst ` set adj - visited" using False by blast
  ultimately show ?thesis by (simp add: pending_edges_def)
qed

lemma dfs_step_measure:
  "dfs_step adj t m st st' \<Longrightarrow>
    length (snd st) + pending_edges adj (fst st) = Suc (length (snd st') + pending_edges adj (fst st'))"
  by (erule dfs_stepE) (simp_all add: pending_edges_insert)

lemma dfs_steps_measure:
  "(dfs_step adj t m ^^ n) st st' \<Longrightarrow>
    length (snd st) + pending_edges adj (fst st) = n + (length (snd st') + pending_edges adj (fst st'))"
  by (induction n arbitrary: st') (auto dest: dfs_step_measure)

section \<open>The invariant of the graph\<close>

definition edge_rel :: "delegation_graph \<Rightarrow> (string \<times> string) set" where
  "edge_rel self = {k. map_of (dg_edges self) k \<noteq> None}"

text \<open>Every record is filed under its own two names.\<close>

definition edges_named :: "(string \<times> string, delegation) hmap \<Rightarrow> bool" where
  "edges_named m \<longleftrightarrow> (\<forall>k d. map_of m k = Some d \<longrightarrow> (d_delegator d, d_representative d) = k)"

definition sets_distinct :: "(string, string list) hmap \<Rightarrow> bool" where
  "sets_distinct adj \<longleftrightarrow> (\<forall>a ns. map_of adj a = Some ns \<longrightarrow> distinct ns)"

definition graph_ok :: "delegation_graph \<Rightarrow> bool" where
  "graph_ok self \<longleftrightarrow>
     hm_wf (dg_edges self) \<and> hm_wf (dg_adjacency self) \<and>
     sets_distinct (dg_adjacency self) \<and>
     adj_rel (dg_adjacency self) = edge_rel self \<and> acyclic (edge_rel self) \<and>
     edges_named (dg_edges self)"

lemma sets_distinct_ops:
  "sets_distinct []" "sets_distinct adj \<Longrightarrow> sets_distinct (hm_remove a adj)"
  "sets_distinct adj \<Longrightarrow> distinct ns \<Longrightarrow> sets_distinct (hm_insert a ns adj)"
  "sets_distinct adj \<Longrightarrow> map_of adj a = Some ns \<Longrightarrow> distinct ns"
  unfolding sets_distinct_def map_of_hm_remove map_of_hm_insert fun_upd_def
  by (metis map_of.simps(1) option.distinct(1) option.inject)+

lemma sets_distinct_entry:
  "sets_distinct adj \<Longrightarrow> sets_distinct (hm_entry a [] (List.insert r) adj)"
  unfolding hm_entry_def
  by (rule sets_distinct_ops(3)) (auto intro: distinct_insert sets_distinct_ops(4) split: option.split)

lemma edges_named_ops:
  "edges_named []" "edges_named m \<Longrightarrow> edges_named (hm_remove k m)"
  "edges_named m \<Longrightarrow> edges_named (hm_insert (d_delegator d, d_representative d) d m)"
  unfolding edges_named_def map_of_hm_remove map_of_hm_insert fun_upd_def
  by (metis map_of.simps(1) option.distinct(1) option.inject)+

lemma pending_edges_all:
  assumes "graph_ok self"
  shows "pending_edges (dg_adjacency self) {} = dg_edge_count self"
proof -
  let ?adj = "dg_adjacency self"
  have ok: "sets_distinct ?adj" "adj_rel ?adj = edge_rel self" "hm_wf (dg_edges self)"
    using assms unfolding graph_ok_def by blast+
  have distinct: "distinct (neighbors ?adj a)" for a
  proof (cases "map_of ?adj a")
    case (Some ns)
    then have "neighbors ?adj a = ns" by (simp add: neighbors_def)
    then show ?thesis using sets_distinct_ops(4)[OF ok(1) Some] by simp
  qed (simp add: neighbors_def)
  have "pending_edges ?adj {} = (\<Sum>a \<in> fst ` set ?adj. card (set (neighbors ?adj a)))"
    using distinct_card[OF distinct] by (simp add: pending_edges_def)
  also have "\<dots> = card (SIGMA a : fst ` set ?adj. set (neighbors ?adj a))" by (rule card_SigmaI[symmetric]) auto
  also have "(SIGMA a : fst ` set ?adj. set (neighbors ?adj a)) = adj_rel ?adj"
    by (auto simp: adj_rel_def neighbors_def split: option.splits) (metis fst_conv image_eqI map_of_SomeD)
  also have "adj_rel ?adj = fst ` set (dg_edges self)"
    unfolding ok(2) by (auto simp: edge_rel_def map_of_eq_None_iff)
  also have "card \<dots> = length (dg_edges self)"
    using ok(3) distinct_card[of "map fst (dg_edges self)"] by (simp add: hm_wf_def)
  finally show ?thesis by (simp add: dg_edge_count_def)
qed

lemma graph_new_ok: "graph_ok dg_new"
proof -
  have "adj_rel [] = {}" "edge_rel dg_new = {}"
    by (simp_all add: adj_rel_def neighbors_def edge_rel_def dg_new_def)
  then show ?thesis by (simp add: graph_ok_def dg_new_def acyclic_def edges_named_ops sets_distinct_ops)
qed

lemma neighbors_entry:
  "neighbors (hm_entry a [] f adj) b = (if b = a then f (neighbors adj a) else neighbors adj b)"
  by (auto simp: neighbors_def map_of_hm_entry split: option.splits)

lemma adj_rel_insert:
  "adj_rel (hm_entry a [] (List.insert r) adj) = insert (a, r) (adj_rel adj)"
  by (auto simp: adj_rel_def neighbors_entry split: if_splits)

lemma edge_rel_insert:
  "edge_rel (self\<lparr>dg_edges := hm_insert k d (dg_edges self)\<rparr>) = insert k (edge_rel self)"
  by (auto simp: edge_rel_def)

lemma dg_delegate_ok: "graph_ok self \<Longrightarrow> graph_ok (snd (dg_delegate d self))"
proof -
  assume ok: "graph_ok self"
  let ?k = "(d_delegator d, d_representative d)"
  consider (update) "d_delegator d \<noteq> d_representative d" "map_of (dg_edges self) ?k \<noteq> None"
    | (new) "d_delegator d \<noteq> d_representative d" "map_of (dg_edges self) ?k = None"
        "check_no_path_within_depth self (d_representative d) (d_delegator d) MAX_DELEGATION_DEPTH = Ok ()"
    | (same) "snd (dg_delegate d self) = self"
  proof (cases "check_no_path_within_depth self (d_representative d) (d_delegator d) MAX_DELEGATION_DEPTH")
    case (Ok u)
    then show ?thesis using that
      by (cases "d_delegator d = d_representative d"; cases "map_of (dg_edges self) ?k")
        (simp_all add: dg_delegate_def)
  next
    case (Err e)
    then show ?thesis using that
      by (cases "d_delegator d = d_representative d"; cases "map_of (dg_edges self) ?k")
        (simp_all add: dg_delegate_def)
  next
    case Panic
    then show ?thesis using that
      by (cases "d_delegator d = d_representative d"; cases "map_of (dg_edges self) ?k")
        (simp_all add: dg_delegate_def)
  qed
  then show ?thesis
  proof cases
    case update
    have "edge_rel (self\<lparr>dg_edges := hm_insert ?k d (dg_edges self)\<rparr>) = edge_rel self"
      using update(2) by (subst edge_rel_insert) (auto simp: edge_rel_def)
    then show ?thesis using ok update by (simp add: graph_ok_def dg_delegate_def Let_def edges_named_ops)
  next
    case new
    let ?adj = "hm_entry (d_delegator d) [] (List.insert (d_representative d)) (dg_adjacency self)"
    let ?new = "self\<lparr>dg_adjacency := ?adj, dg_edges := hm_insert ?k d (dg_edges self)\<rparr>"
    have res: "snd (dg_delegate d self) = ?new" using new by (simp add: dg_delegate_def Let_def)
    have "edge_rel ?new = edge_rel (self\<lparr>dg_edges := hm_insert ?k d (dg_edges self)\<rparr>)"
      by (simp add: edge_rel_def)
    then have rel: "edge_rel ?new = insert ?k (edge_rel self)" by (simp only: edge_rel_insert)
    have "(d_representative d, d_delegator d) \<notin> (edge_rel self)\<^sup>*"
      using check_Ok_no_path[OF new(3)] ok by (simp add: graph_ok_def)
    then have "acyclic (edge_rel ?new)" using ok unfolding rel acyclic_insert by (simp add: graph_ok_def)
    moreover have "adj_rel ?adj = edge_rel ?new" using ok unfolding rel adj_rel_insert by (simp add: graph_ok_def)
    moreover have "sets_distinct ?adj" using ok by (simp add: graph_ok_def sets_distinct_entry)
    ultimately show ?thesis using ok unfolding res by (simp add: graph_ok_def edges_named_ops)
  next
    case same
    then show ?thesis using ok by simp
  qed
qed

lemma dg_revoke_ok: "graph_ok self \<Longrightarrow> graph_ok (snd (dg_revoke E rvc self))"
proof -
  assume ok: "graph_ok self"
  let ?a = "rv_delegator rvc" and ?b = "rv_representative rvc"
  show ?thesis
  proof (cases "revocation_verify E rvc = Ok () \<and> map_of (dg_edges self) (?a, ?b) \<noteq> None")
    case False
    then have "snd (dg_revoke E rvc self) = self"
      by (cases "revocation_verify E rvc"; cases "map_of (dg_edges self) (?a, ?b)") (simp_all add: dg_revoke_def)
    then show ?thesis using ok by simp
  next
    case True
    let ?new = "snd (dg_revoke E rvc self)"
    have "(?a, ?b) \<in> adj_rel (dg_adjacency self)" using True ok by (simp add: graph_ok_def edge_rel_def)
    then obtain ns where some: "map_of (dg_adjacency self) ?a = Some ns"
      by (cases "map_of (dg_adjacency self) ?a") (simp_all add: adj_rel_def neighbors_def)
    moreover have "sets_distinct (dg_adjacency self)" using ok by (simp add: graph_ok_def)
    ultimately have ns: "map_of (dg_adjacency self) ?a = Some ns" "distinct ns"
      using sets_distinct_ops(4) by blast+
    let ?adj = "if remove1 ?b ns = [] then hm_remove ?a (dg_adjacency self)
      else hm_insert ?a (remove1 ?b ns) (dg_adjacency self)"
    have new: "?new = self\<lparr>dg_edges := hm_remove (?a, ?b) (dg_edges self), dg_adjacency := ?adj\<rparr>"
      using True ns by (cases "map_of (dg_edges self) (?a, ?b)") (simp_all add: dg_revoke_def Let_def)
    have rel: "edge_rel ?new = edge_rel self - {(?a, ?b)}" by (auto simp: new edge_rel_def)
    have "neighbors ?adj c = (if c = ?a then remove1 ?b ns else neighbors (dg_adjacency self) c)" for c
      by (simp add: neighbors_def)
    moreover have "neighbors (dg_adjacency self) ?a = ns" using ns by (simp add: neighbors_def)
    ultimately have "adj_rel ?adj = adj_rel (dg_adjacency self) - {(?a, ?b)}"
      using ns(2) by (auto simp: adj_rel_def split: if_splits)
    then have "adj_rel ?adj = edge_rel ?new" using ok unfolding rel by (simp add: graph_ok_def)
    moreover have "acyclic (edge_rel ?new)"
      using ok unfolding rel graph_ok_def by (meson Diff_subset acyclic_subset)
    moreover have "sets_distinct ?adj" using ok ns(2) by (simp add: graph_ok_def sets_distinct_ops)
    ultimately show ?thesis using ok by (simp add: graph_ok_def new edges_named_ops)
  qed
qed

text \<open>The outcome of \<open>delegate\<close>: refusals change nothing, and what is refused is a cycle or too deep a walk.\<close>

lemma check_cases:
  obtains "check_no_path_within_depth self s t m = Ok ()" "(s, t) \<notin> (adj_rel (dg_adjacency self))\<^sup>*"
  | "check_no_path_within_depth self s t m = Err (CycleDetected t s)" "(s, t) \<in> (adj_rel (dg_adjacency self))\<^sup>*"
  | n where "check_no_path_within_depth self s t m = Err (DepthExceeded m m)"
      "(s, n) \<in> adj_rel (dg_adjacency self) ^^ m"
proof (cases "check_no_path_within_depth self s t m")
  case (Ok u)
  then show ?thesis using that(1) check_Ok_no_path by simp
next
  case (Err e)
  then have "dfs (dg_adjacency self) s t m {} [(s, 0)] = Err e" by (simp only: check_no_path_within_depth_def)
  then have "(e = CycleDetected t s \<and> (s, t) \<in> (adj_rel (dg_adjacency self))\<^sup>*) \<or>
      (e = DepthExceeded m m \<and> (\<exists>n. (s, n) \<in> adj_rel (dg_adjacency self) ^^ m))"
    by (rule dfs_Err) simp
  then show ?thesis using that(2,3) Err by blast
next
  case Panic
  then show ?thesis using dfs_no_panic unfolding check_no_path_within_depth_def by blast
qed

lemma dg_delegate_refused: "fst (dg_delegate d self) \<noteq> Ok () \<Longrightarrow> snd (dg_delegate d self) = self"
  by (auto simp: dg_delegate_def Let_def split: result.splits)

lemma dg_delegate_accepted:
  assumes "fst (dg_delegate d self) = Ok ()"
  shows "d_delegator d \<noteq> d_representative d \<and>
    dg_edges (snd (dg_delegate d self)) = hm_insert (d_delegator d, d_representative d) d (dg_edges self)"
  using assms by (auto simp: dg_delegate_def Let_def split: if_splits result.splits)

datatype delegation_op = OpDelegate delegation | OpRevoke revocation

fun delegation_step :: "('sk, 'vk, 'z) crypto_scheme \<Rightarrow> delegation_op \<Rightarrow> delegation_graph \<Rightarrow> delegation_graph" where
  "delegation_step E (OpDelegate d) self = snd (dg_delegate d self)"
| "delegation_step E (OpRevoke rvc) self = snd (dg_revoke E rvc self)"

interpretation delegation_graph: state_inv graph_ok "delegation_step E" for E
proof unfold_locales
  fix x self assume "graph_ok self"
  then show "graph_ok (delegation_step E x self)"
    by (cases x) (simp_all add: dg_delegate_ok dg_revoke_ok)
qed

section \<open>Stake\<close>

lemma fold_snapshot:
  "snapshot_total_for \<lparr>ds_totals = fold (\<lambda>d. hm_entry (d_representative d) 0 (\<lambda>e. saturating_add e (d_amount d))) ds acc\<rparr> r
    = foldl saturating_add (snapshot_total_for \<lparr>ds_totals = acc\<rparr> r)
        (map d_amount (filter (\<lambda>d. d_representative d = r) ds))"
proof (induction ds arbitrary: acc)
  case (Cons d ds)
  have "snapshot_total_for \<lparr>ds_totals = hm_entry (d_representative d) 0 (\<lambda>e. saturating_add e (d_amount d)) acc\<rparr> r =
      (if d_representative d = r then saturating_add (snapshot_total_for \<lparr>ds_totals = acc\<rparr> r) (d_amount d)
       else snapshot_total_for \<lparr>ds_totals = acc\<rparr> r)"
    by (simp add: snapshot_total_for_def map_of_hm_entry)
  then show ?case by (simp add: Cons)
qed simp

text \<open>A snapshot reports the live total of every representative, whatever the iteration order.\<close>

lemma snapshot_total: "snapshot_total_for (dg_snapshot self) r = total_for_representative self r"
  by (simp add: dg_snapshot_def fold_snapshot total_for_representative_def saturating_sum_def)
    (simp add: snapshot_total_for_def)

lemma total_for_order:
  "mset ds = mset es \<Longrightarrow> total_delegated_stake r ds = total_delegated_stake r es"
  unfolding total_delegated_stake_def by (rule saturating_sum_mset) (simp add: mset_filter)

section \<open>Revocations\<close>

interpretation revocation_envelope: signed_envelope
  "\<lambda>r. Some (revocation_canonical_bytes (rv_delegator_pubkey r) (rv_delegator r) (rv_representative r) (rv_nonce r))"
  "\<lambda>r. Some (rv_delegator_pubkey r)" rv_signature "\<lambda>r. revocation_verify E r = Ok ()"
  "\<lambda>pk m s. crypto_verify E pk m s = Ok ()" for E
  by unfold_locales (simp add: revocation_verify_def outcome_simps)

text \<open>The key in a revocation is not tied to the delegator it names: any key removes any edge.\<close>

lemma revoke_any_key:
  assumes E: "ed25519_laws E" and edge: "map_of (dg_edges self) (a, b) \<noteq> None"
    and r: "r = \<lparr>rv_delegator_pubkey = pubkey_of E k, rv_delegator = a, rv_representative = b, rv_nonce = n,
    rv_signature = crypto_sign E k (revocation_canonical_bytes (pubkey_of E k) a b n)\<rparr>"
  shows "fst (dg_revoke E r self) = Ok () \<and> map_of (dg_edges (snd (dg_revoke E r self))) (a, b) = None"
proof -
  have "revocation_verify E r = Ok ()"
    using verify_signed[OF E] by (simp add: r revocation_verify_def)
  then show ?thesis using edge by (simp add: dg_revoke_def r Let_def)
qed

text \<open>The two names are not delimited in the signed bytes.\<close>

lemma revocation_bytes_ambiguous:
  "revocation_canonical_bytes pk (a @ b) c n = revocation_canonical_bytes pk a (b @ c) n"
  by (simp add: revocation_canonical_bytes_def str_bytes_def)

end
