(* ===== verification/Consensus_Properties.thy ===== *)
theory Consensus_Properties
  imports Consensus Delegation Finality Demo
begin

text \<open>
  How competing blocks are settled and when a block is final: the properties of votes, of conflict
  resolution, of the delegation graph and of finality, with their witnesses.
\<close>

section \<open>Conflicts\<close>

text \<open>C19. Of two competing blocks the one with more stake wins when the gap exceeds a twentieth of the
  stake cast, and the one with the smaller hash otherwise; the verdict does not depend on the order
  the two are named in, and a Revoke is refused on either side. The stakes cast must sum to less than
  \<open>2 ^ 64 - 1\<close>, beyond which the sum overflows, and the hashes must differ.\<close>

theorem conflict_rule:
  assumes "is_eligible_for_orv a" "is_eligible_for_orv b" "b_hash a \<noteq> b_hash b"
    and "stake_total va + stake_total vb < 2 ^ 64 - 1" and "b_type r = Revoke c"
  shows "resolve_conflict_orv a b va vb =
      Ok (if stake_total va + stake_total vb < 20 * (stake_total va - stake_total vb) then (a, ''stake_weighted'')
          else if stake_total va + stake_total vb < 20 * (stake_total vb - stake_total va) then (b, ''stake_weighted'')
          else (if b_hash a \<le> b_hash b then a else b, ''hash_tiebreaker'')) \<and>
    resolve_conflict_orv b a vb va = resolve_conflict_orv a b va vb \<and>
    resolve_conflict_orv r b va vb = Err (IneligibleConflictBlockType (b_hash r) ''Revoke'') \<and>
    resolve_conflict_orv a r va vb = Err (IneligibleConflictBlockType (b_hash r) ''Revoke'')"
proof (intro conjI)
  show "resolve_conflict_orv b a vb va = resolve_conflict_orv a b va vb"
    by (rule resolve_conflict_symmetric[OF assms(1-4), symmetric])
qed (use assms in \<open>simp_all add: resolve_conflict_rule, simp_all add: resolve_conflict_orv_def is_eligible_for_orv_def
  conflict_block_type_tag_def\<close>)

definition demo_rival :: "string \<Rightarrow> block_type \<Rightarrow> block" where
  "demo_rival hash bt =
     \<lparr>b_account = ''a'', b_previous = [], b_type = bt, b_balance = 0, b_nonce = 2, b_timestamp = 0,
      b_hash = hash, b_signature = []\<rparr>"

definition demo_vote :: "u64 \<Rightarrow> vote_orv" where
  "demo_vote x = cast_vote demo_env 7 (replicate 32 0) x 1"

theorem conflict_rule_witness:
  "resolve_conflict_orv (demo_rival ''a'' (Send ''b'' 1)) (demo_rival ''b'' (Send ''c'' 1)) [demo_vote 10] [demo_vote 12]
    = Ok (demo_rival ''b'' (Send ''c'' 1), ''stake_weighted'')"
proof -
  have "resolve_conflict_orv (demo_rival ''a'' (Send ''b'' 1)) (demo_rival ''b'' (Send ''c'' 1)) [demo_vote 10] [demo_vote 12]
      = Ok (if stake_total [demo_vote 10] + stake_total [demo_vote 12] < 20 * (stake_total [demo_vote 10] - stake_total [demo_vote 12])
            then (demo_rival ''a'' (Send ''b'' 1), ''stake_weighted'')
          else if stake_total [demo_vote 10] + stake_total [demo_vote 12] < 20 * (stake_total [demo_vote 12] - stake_total [demo_vote 10])
            then (demo_rival ''b'' (Send ''c'' 1), ''stake_weighted'')
          else (if b_hash (demo_rival ''a'' (Send ''b'' 1)) \<le> b_hash (demo_rival ''b'' (Send ''c'' 1))
            then demo_rival ''a'' (Send ''b'' 1) else demo_rival ''b'' (Send ''c'' 1), ''hash_tiebreaker''))"
    by (rule conflict_rule[where r = "demo_rival [] (Revoke [])" and c = "[]", THEN conjunct1])
      (simp_all add: is_eligible_for_orv_def demo_rival_def stake_total_def demo_vote_def cast_vote_def Let_def)
  also have "\<dots> = Ok (demo_rival ''b'' (Send ''c'' 1), ''stake_weighted'')"
    by (simp add: stake_total_def demo_vote_def cast_vote_def Let_def)
  finally show ?thesis .
qed

text \<open>A double spend is reported for exactly the positions (account and nonce) with two or more
  blocks; the report has the first as winner and all the others, in order, as losers.\<close>

lemma double_spends_reported:
  "(w, ls, m) \<in> set (detect_double_spend bs) \<longleftrightarrow>
     m = ''same_nonce'' \<and> (\<exists>account nonce. filter (\<lambda>b. b_account b = account \<and> b_nonce b = nonce) bs = w # ls \<and> ls \<noteq> [])"
  by (simp add: detect_double_spend_iff position_group_def)

section \<open>Votes\<close>

text \<open>A cast vote verifies, and is accepted exactly when its target is known; two votes whose hashes
  agree are for the same block, voter, stake and nonce, or the hash function collides on their bytes.\<close>

lemma vote_binding:
  fixes v v' :: vote_orv
  assumes "ed25519_laws E" "length (v_block_hash v) = 32" "length (v_voter_pubkey v) = 32"
    and "length (v_block_hash v') = 32" "length (v_voter_pubkey v') = 32"
    and "compute_vote_hash E (v_block_hash v) (v_voter_pubkey v) (v_delegated_stake v) (v_nonce v) =
         compute_vote_hash E (v_block_hash v') (v_voter_pubkey v') (v_delegated_stake v') (v_nonce v')"
  shows "verify_vote E (cast_vote E k h s n) = Ok () \<and>
    (verify_vote_known E (cast_vote E k h s n) known = Ok () \<longleftrightarrow> h \<in> known) \<and>
    (v' = v\<lparr>v_signature := v_signature v'\<rparr> \<or>
     (\<exists>m m'. m = vote_bytes (v_block_hash v) (v_voter_pubkey v) (v_delegated_stake v) (v_nonce v) \<and>
       m' = vote_bytes (v_block_hash v') (v_voter_pubkey v') (v_delegated_stake v') (v_nonce v') \<and>
       m \<noteq> m' \<and> blake3 E m = blake3 E m'))"
proof -
  have cast: "verify_vote E (cast_vote E k h s n) = Ok ()" by (rule verify_cast_vote[OF assms(1)])
  moreover have "verify_vote_known E (cast_vote E k h s n) known = Ok () \<longleftrightarrow> h \<in> known"
    using cast by (simp add: verify_vote_known_def cast_vote_def Let_def outcome_simps)
  moreover have "v' = v\<lparr>v_signature := v_signature v'\<rparr>"
    if "vote_bytes (v_block_hash v) (v_voter_pubkey v) (v_delegated_stake v) (v_nonce v) =
       vote_bytes (v_block_hash v') (v_voter_pubkey v') (v_delegated_stake v') (v_nonce v')"
    using vote_bytes_inj[OF assms(2,4,3,5) that] by (cases v; cases v') simp
  ultimately show ?thesis using assms(6) unfolding compute_vote_hash_def by blast
qed

text \<open>A quorum is reached exactly with two thirds of the representatives and a fifth of the supply,
  both totals positive, provided five times the voted stake fits 64 bits; counts whose plain products
  do not fit are a panic. A vote is collected exactly with a thousandth of the supply or more, and none
  is lost.\<close>

lemma quorum_rule:
  "((\<exists>q. check_quorum vr tr vs ts = Ok q \<and> q_reached q) \<longleftrightarrow>
     0 < tr \<and> 2 * unat tr \<le> 3 * unat vr \<and> 3 * unat vr < 2 ^ 64 \<and>
     0 < ts \<and> unat ts \<le> 5 * unat vs \<and> 5 * unat vs < 2 ^ 64) \<and>
   mset (cv_accepted (collect_votes_with_audit votes t)) + mset (cv_filtered (collect_votes_with_audit votes t)) = mset votes \<and>
   (v \<in> set (collect_votes votes t) \<longleftrightarrow> v \<in> set votes \<and> unat t < 1000 * Suc (unat (v_delegated_stake v)))"
proof -
  have "(\<exists>q. check_quorum vr tr vs ts = Ok q \<and> q_reached q) \<longleftrightarrow>
     0 < tr \<and> 2 * unat tr \<le> 3 * unat vr \<and> 3 * unat vr < 2 ^ 64 \<and>
     0 < ts \<and> unat ts \<le> 5 * unat vs \<and> 5 * unat vs < 2 ^ 64"
    by (auto simp: check_quorum_value word_gt_0)
  then show ?thesis using collect_votes_spec[of votes t v] by blast
qed

section \<open>The delegation graph\<close>

text \<open>C20. Whatever delegations and revocations a new graph is given, its edges have no cycle, its adjacency
  lists are those of its edges, and every record is filed under its own two names.\<close>

theorem delegation_run:
  "graph = fold (delegation_step E) ops dg_new \<Longrightarrow>
    acyclic (edge_rel graph) \<and> adj_rel (dg_adjacency graph) = edge_rel graph \<and>
    (\<forall>a b d. map_of (dg_edges graph) (a, b) = Some d \<longrightarrow> d_delegator d = a \<and> d_representative d = b) \<and>
    (\<forall>r. snapshot_total_for (dg_snapshot graph) r = total_for_representative graph r)"
  using delegation_graph.run_inv[OF graph_new_ok, of E ops]
  by (auto simp: graph_ok_def edges_named_def snapshot_total)

definition demo_delegation :: "string \<Rightarrow> string \<Rightarrow> delegation" where
  "demo_delegation a b = \<lparr>d_delegator = a, d_representative = b, d_amount = 5, d_created_at = 0\<rparr>"

theorem delegation_run_witness:
  "\<exists>graph. graph = fold (delegation_step demo_env)
      [OpDelegate (demo_delegation ''a'' ''b''), OpDelegate (demo_delegation ''b'' ''a'')] dg_new \<and>
    acyclic (edge_rel graph) \<and> edge_rel graph = {(''a'', ''b'')}"
proof -
  let ?graph = "fold (delegation_step demo_env)
      [OpDelegate (demo_delegation ''a'' ''b''), OpDelegate (demo_delegation ''b'' ''a'')] dg_new"
  have "dg_edges ?graph = [((''a'', ''b''), demo_delegation ''a'' ''b'')]"
    by (simp add: demo_delegation_def dg_delegate_def check_no_path_within_depth_def dg_new_def
        MAX_DELEGATION_DEPTH_def neighbors_def hm_insert_def hm_entry_def Let_def)
  then have "edge_rel ?graph = {(''a'', ''b'')}" by (auto simp: edge_rel_def split: if_splits)
  then show ?thesis using delegation_run[OF refl, of demo_env
      "[OpDelegate (demo_delegation ''a'' ''b''), OpDelegate (demo_delegation ''b'' ''a'')]"] by blast
qed

text \<open>C21. \<open>delegate\<close> refuses without any effect a delegation to oneself and a new edge that would close a
  cycle; it accepts an update of an existing edge, and a new one that closes no cycle unless the
  representative starts a walk of eight edges; what it accepts becomes the edge's record.\<close>

theorem delegate_spec:
  assumes ok: "graph_ok self" and k: "k = (d_delegator d, d_representative d)"
    and run: "dg_delegate d self = (res, self')"
  shows "(res = Ok () \<longrightarrow> edge_rel self' = insert k (edge_rel self) \<and> map_of (dg_edges self') = (map_of (dg_edges self))(k \<mapsto> d)) \<and>
    (res \<noteq> Ok () \<longrightarrow> self' = self) \<and>
    (d_delegator d = d_representative d \<longrightarrow> res = Err SelfDelegation) \<and>
    (d_delegator d \<noteq> d_representative d \<and> k \<in> edge_rel self \<longrightarrow> res = Ok ()) \<and>
    (k \<notin> edge_rel self \<and> (d_representative d, d_delegator d) \<in> (edge_rel self)\<^sup>* \<longrightarrow> res \<noteq> Ok ()) \<and>
    (k \<notin> edge_rel self \<and> (d_representative d, d_delegator d) \<notin> (edge_rel self)\<^sup>* \<and>
       (\<forall>n. (d_representative d, n) \<notin> edge_rel self ^^ 8) \<longrightarrow> res = Ok ())"
proof -
  have adj: "adj_rel (dg_adjacency self) = edge_rel self" using ok by (simp add: graph_ok_def)
  have k_edge: "k \<in> edge_rel self \<longleftrightarrow> map_of (dg_edges self) k \<noteq> None" by (simp add: edge_rel_def)
  have new: "k \<notin> edge_rel self \<Longrightarrow> d_delegator d \<noteq> d_representative d \<Longrightarrow>
      res = check_no_path_within_depth self (d_representative d) (d_delegator d) MAX_DELEGATION_DEPTH"
    using run unfolding k_edge dg_delegate_def Let_def k[symmetric] by (auto split: result.splits)
  have "res = Ok () \<longrightarrow> edge_rel self' = insert k (edge_rel self) \<and> map_of (dg_edges self') = (map_of (dg_edges self))(k \<mapsto> d)"
    using dg_delegate_accepted[of d self] run k by (auto simp: edge_rel_def)
  moreover have "res \<noteq> Ok () \<longrightarrow> self' = self" using dg_delegate_refused[of d self] run by simp
  moreover have "d_delegator d = d_representative d \<longrightarrow> res = Err SelfDelegation"
    using run by (auto simp: dg_delegate_def Let_def)
  moreover have "d_delegator d \<noteq> d_representative d \<and> k \<in> edge_rel self \<longrightarrow> res = Ok ()"
    using run unfolding k_edge dg_delegate_def Let_def k[symmetric] by auto
  moreover have "k \<notin> edge_rel self \<and> (d_representative d, d_delegator d) \<in> (edge_rel self)\<^sup>* \<longrightarrow> res \<noteq> Ok ()"
    using new check_Ok_no_path[of self _ _ MAX_DELEGATION_DEPTH] adj run
    by (cases "d_delegator d = d_representative d") (auto simp: dg_delegate_def)
  moreover have "k \<notin> edge_rel self \<and> (d_representative d, d_delegator d) \<notin> (edge_rel self)\<^sup>* \<and>
      (\<forall>n. (d_representative d, n) \<notin> edge_rel self ^^ 8) \<longrightarrow> res = Ok ()"
  proof (intro impI, elim conjE)
    assume a: "k \<notin> edge_rel self" "(d_representative d, d_delegator d) \<notin> (edge_rel self)\<^sup>*"
      "\<forall>n. (d_representative d, n) \<notin> edge_rel self ^^ 8"
    then have "d_delegator d \<noteq> d_representative d" by auto
    then show "res = Ok ()"
      using new a by (cases rule: check_cases[of self "d_representative d" "d_delegator d" MAX_DELEGATION_DEPTH])
        (auto simp: adj MAX_DELEGATION_DEPTH_def)
  qed
  ultimately show ?thesis by blast
qed

theorem delegate_spec_witness:
  "\<exists>self'. dg_delegate (demo_delegation ''a'' ''b'') dg_new = (Ok (), self') \<and> edge_rel self' = {(''a'', ''b'')}"
proof -
  obtain res self' where run: "dg_delegate (demo_delegation ''a'' ''b'') dg_new = (res, self')" by force
  have empty: "edge_rel dg_new = {}" by (simp add: edge_rel_def dg_new_def)
  have none: "({} :: (string \<times> string) set) ^^ 8 = {}" by (simp add: numeral_eq_Suc)
  then show ?thesis
    using delegate_spec[OF graph_new_ok refl run] run
    by (simp add: empty none demo_delegation_def)
qed

text \<open>C38. The search for a cycle ends on every graph: its loop goes round at most once for the start and once
  for each edge, in whatever order it meets them, and it leaves the loop with the result that
  \<open>check_no_path_within_depth\<close> has.\<close>

theorem cycle_search_ends:
  assumes "graph_ok graph"
  shows "(\<exists>n visited stack. n \<le> Suc (dg_edge_count graph) \<and>
      (dfs_step (dg_adjacency graph) t m ^^ n) ({}, [(s, 0)]) (visited, stack) \<and>
      dfs_exit s t m stack = Some (check_no_path_within_depth graph s t m)) \<and>
    (\<forall>n st. (dfs_step (dg_adjacency graph) t m ^^ n) ({}, [(s, 0)]) st \<longrightarrow> n \<le> Suc (dg_edge_count graph))"
proof -
  have bound: "n \<le> Suc (dg_edge_count graph)" if "(dfs_step (dg_adjacency graph) t m ^^ n) ({}, [(s, 0)]) st" for n st
    using dfs_steps_measure[OF that] pending_edges_all[OF assms] by simp
  obtain n visited stack where "(dfs_step (dg_adjacency graph) t m ^^ n) ({}, [(s, 0)]) (visited, stack)"
    "dfs_exit s t m stack = Some (check_no_path_within_depth graph s t m)"
    using dfs_reaches_exit[of "dg_adjacency graph" t m "{}" "[(s, 0)]" s] by (auto simp: check_no_path_within_depth_def)
  then show ?thesis using bound by blast
qed

theorem cycle_search_ends_witness:
  "\<exists>n visited stack. n \<le> 2 \<and>
    (dfs_step [(''a'', [''b''])] ''c'' 8 ^^ n) ({}, [(''a'', 0)]) (visited, stack) \<and>
    dfs_exit ''a'' ''c'' 8 stack = Some (Ok ())"
proof -
  let ?graph = "fold (delegation_step demo_env) [OpDelegate (demo_delegation ''a'' ''b'')] dg_new"
  have ok: "graph_ok ?graph" by (rule delegation_graph.run_inv[OF graph_new_ok])
  have graph: "?graph = \<lparr>dg_edges = [((''a'', ''b''), demo_delegation ''a'' ''b'')], dg_adjacency = [(''a'', [''b''])]\<rparr>"
    by (simp add: demo_delegation_def dg_delegate_def check_no_path_within_depth_def dg_new_def
        MAX_DELEGATION_DEPTH_def neighbors_def hm_insert_def hm_entry_def Let_def)
  have "check_no_path_within_depth ?graph ''a'' ''c'' 8 = Ok ()" "dg_edge_count ?graph = 1"
    "dg_adjacency ?graph = [(''a'', [''b''])]"
    unfolding graph by (simp_all add: check_no_path_within_depth_def neighbors_def dg_edge_count_def)
  then show ?thesis using cycle_search_ends[OF ok, of "''c''" 8 "''a''"] by (simp add: numeral_2_eq_2)
qed

section \<open>Finality\<close>

text \<open>C17. The level of a block: L2 when registered validators with at least 67 % of the registered stake
  voted for it, each counted once; else L1 when the sync succeeded; else L0 when its amount is within
  the cap and a registered key confirmed it; else pending. The assessment fails only when a vote or
  confirmation of a registered key for the block has an invalid signature. A hundred times the
  registered stake must stay below \<open>2 ^ 64\<close>, beyond which the comparison of the code saturates.\<close>

theorem finality_rule:
  assumes "bt_wf reg" "100 * total_stake reg < 2 ^ 64"
    and l: "l = (if 0 < total_stake reg \<and> 67 * total_stake reg \<le> 100 * (\<Sum>pk \<in> voters h reg vs. stake reg pk) then L2
              else if sync = SyncSuccess then L1
              else if unat amount \<le> unat L0_CAP_MICRO_ARX \<and> confirmed E h reg cs then L0
              else Pending)"
  shows "(\<forall>l'. assess_finality E amount h cs sync vs reg = Ok l' \<longrightarrow> l' = l) \<and>
    ((\<forall>v \<in> set vs. relevant h reg v \<longrightarrow> validator_vote_verify E v = Ok ()) \<and>
     (\<forall>c \<in> set cs. relevant_confirmation h reg c \<longrightarrow> confirmation_verify E c = Ok ()) \<longrightarrow>
     assess_finality E amount h cs sync vs reg = Ok l) \<and>
    (0 < total_stake reg \<and> (\<exists>v \<in> set vs. relevant h reg v \<and> validator_vote_verify E v \<noteq> Ok ()) \<longrightarrow>
     \<not> is_ok (assess_finality E amount h cs sync vs reg))"
proof (intro conjI)
  show rule: "\<forall>l'. assess_finality E amount h cs sync vs reg = Ok l' \<longrightarrow> l' = l"
    using assess_finality_rule[OF assms(1,2)] unfolding l voted_stake_def by blast
  show "(\<forall>v \<in> set vs. relevant h reg v \<longrightarrow> validator_vote_verify E v = Ok ()) \<and>
     (\<forall>c \<in> set cs. relevant_confirmation h reg c \<longrightarrow> confirmation_verify E c = Ok ()) \<longrightarrow>
     assess_finality E amount h cs sync vs reg = Ok l"
    using rule assess_finality_valid[of vs h reg E cs amount sync] by auto
  show "0 < total_stake reg \<and> (\<exists>v \<in> set vs. relevant h reg v \<and> validator_vote_verify E v \<noteq> Ok ()) \<longrightarrow>
     \<not> is_ok (assess_finality E amount h cs sync vs reg)"
    using assess_finality_forged[of E amount h cs sync vs reg] by (auto simp: is_ok_iff)
qed

definition demo_validator_vote :: "u8 \<Rightarrow> bytes \<Rightarrow> signed_validator_vote" where
  "demo_validator_vote k h = \<lparr>vv_validator_pubkey = replicate 32 k, vv_block_hash = h,
     vv_signature = sk_sign demo_env k (validator_vote_canonical_bytes (replicate 32 k) h)\<rparr>"

theorem finality_rule_witness:
  "assess_finality demo_env 5 (replicate 32 0) [] SyncSuccess
     [demo_validator_vote 3 (replicate 32 0), demo_validator_vote 3 (replicate 32 0)]
     [(replicate 32 3, 66), (replicate 32 4, 34)] = Ok L1"
proof -
  let ?reg = "[(replicate 32 3 :: bytes, 66 :: u64), (replicate 32 4, 34)]"
  let ?vs = "[demo_validator_vote 3 (replicate 32 0), demo_validator_vote 3 (replicate 32 0)]"
  have rep: "replicate 32 x = x # replicate 31 x" for x :: u8 using replicate_Suc[of 31 x] by simp
  have wf: "bt_wf ?reg" by (simp add: bt_wf_def rep)
  have total: "total_stake ?reg = 100" by (simp add: total_stake_def)
  have v: "voters (replicate 32 0) ?reg ?vs = {replicate 32 3}"
    by (auto simp: voters_def relevant_def demo_validator_vote_def)
  have valid: "validator_vote_verify demo_env (demo_validator_vote 3 (replicate 32 0)) = Ok ()"
    using verify_signed[OF demo_ed25519_laws, of 3]
    by (simp add: validator_vote_verify_def verify_signature_def demo_validator_vote_def pubkey_of_def demo_vk_def
        crypto_sign_def to_array_def)
  show ?thesis
    using finality_rule[where E = demo_env and cs = "[]" and h = "replicate 32 0" and vs = ?vs and sync = SyncSuccess
        and amount = 5 and reg = ?reg, OF wf _ refl] valid
    by (simp add: total v stake_def)
qed

text \<open>C18. Through any sequence of assessments the latch holds for each block the highest level any of its
  successful assessments reported; failed ones and those of other blocks leave it alone.\<close>

theorem finality_latch_run:
  "level_of (fold (latch_step E) as self) h =
     Max (insert (level_of self h) {l. \<exists>a \<in> set as. as_block_hash a = h \<and>
       assess_finality E (as_amount a) h (as_confirmations a) (as_sync a) (as_votes a) (as_registry a) = Ok l})"
  by (rule level_of_run)

end
