(* ===== verification/Relay.thy ===== *)
theory Relay
  imports Crypto Interfaces
begin

text \<open>
  Crate \<open>arxia-relay\<close>: receipts (\<open>receipt.rs\<close>), slashing proofs (\<open>slashing.rs\<close>) and the scores they
  change (\<open>scoring.rs\<close>). An operation returns its result and the score it leaves. The lemmas: an
  error leaves the score alone, a message is credited at most once whatever the receipt for it
  looks like, and the score is bounded by the number of distinct authenticated messages. The
  \<open>f64\<close> success rates are not modelled.
\<close>

section \<open>Receipts\<close>

definition RELAY_RECEIPT_DOMAIN :: bytes where
  "RELAY_RECEIPT_DOMAIN = str_bytes ''arxia-relay-receipt-v1''"

definition MAX_HOPS_PER_RECEIPT :: u8 where "MAX_HOPS_PER_RECEIPT = 16"

datatype relay_receipt_error =
    InvalidRelayId
  | InvalidMessageHash
  | ReceiptInvalidSignatureLength
  | ReceiptInvalidPublicKey
  | ReceiptSignatureInvalid
  | WrongRelayId
  | DuplicateReceipt
  | HopCountTooHigh u8 u8

record relay_receipt =
  rp_relay_id :: string
  rp_message_hash :: string
  rp_timestamp :: u64
  rp_signature :: bytes
  rp_hop_count :: u8

definition decode_hex_32 :: "('sk, 'vk, 'z) crypto_scheme \<Rightarrow> string \<Rightarrow> (bytes, unit) result" where
  "decode_hex_32 E s =
     and_then (map_err (\<lambda>_. ()) (hex_decode E s)) (\<lambda>v. ok_or (to_array 32 v) ())"

definition receipt_canonical_message ::
    "('sk, 'vk, 'z) crypto_scheme \<Rightarrow> relay_receipt \<Rightarrow> (bytes, relay_receipt_error) result" where
  "receipt_canonical_message E self =
     and_then (map_err (\<lambda>_. InvalidRelayId) (decode_hex_32 E (rp_relay_id self))) (\<lambda>relay_pub.
     and_then (map_err (\<lambda>_. InvalidMessageHash) (decode_hex_32 E (rp_message_hash self))) (\<lambda>msg_hash.
       Ok (RELAY_RECEIPT_DOMAIN @ relay_pub @ msg_hash @ u64_to_be (rp_timestamp self) @ [rp_hop_count self])))"

definition receipt_verify ::
    "('sk, 'vk, 'z) crypto_scheme \<Rightarrow> relay_receipt \<Rightarrow> (unit, relay_receipt_error) result" where
  "receipt_verify E self =
     and_then (fail_if (rp_hop_count self > MAX_HOPS_PER_RECEIPT)
       (HopCountTooHigh (rp_hop_count self) MAX_HOPS_PER_RECEIPT)) (\<lambda>_.
     and_then (receipt_canonical_message E self) (\<lambda>msg.
     and_then (map_err (\<lambda>_. InvalidRelayId) (decode_hex_32 E (rp_relay_id self))) (\<lambda>pk.
     and_then (fail_if (length (rp_signature self) \<noteq> 64) ReceiptInvalidSignatureLength) (\<lambda>_.
     and_then (ok_or (to_array 64 (rp_signature self)) ReceiptInvalidSignatureLength) (\<lambda>sig.
       map_err (\<lambda>e. case e of InvalidKey _ \<Rightarrow> ReceiptInvalidPublicKey | _ \<Rightarrow> ReceiptSignatureInvalid)
         (crypto_verify E pk msg sig))))))"

section \<open>Batches of receipts\<close>

record relay_batch =
  rb_receipts :: "relay_receipt list"
  rb_batch_id :: u64

definition relay_batch_new :: "u64 \<Rightarrow> relay_batch" where
  "relay_batch_new batch_id = \<lparr>rb_receipts = [], rb_batch_id = batch_id\<rparr>"

definition relay_batch_add :: "relay_receipt \<Rightarrow> relay_batch \<Rightarrow> relay_batch" where
  "relay_batch_add receipt self = self\<lparr>rb_receipts := rb_receipts self @ [receipt]\<rparr>"

definition relay_batch_len :: "relay_batch \<Rightarrow> nat" where
  "relay_batch_len self = length (rb_receipts self)"

definition relay_batch_is_empty :: "relay_batch \<Rightarrow> bool" where
  "relay_batch_is_empty self \<longleftrightarrow> rb_receipts self = []"

lemma relay_batch_run:
  "fold relay_batch_add rs (relay_batch_new i) = \<lparr>rb_receipts = rs, rb_batch_id = i\<rparr>"
proof -
  have "fold relay_batch_add rs \<lparr>rb_receipts = qs, rb_batch_id = i\<rparr> = \<lparr>rb_receipts = qs @ rs, rb_batch_id = i\<rparr>" for qs
    by (induction rs arbitrary: qs) (simp_all add: relay_batch_add_def)
  then show ?thesis by (simp add: relay_batch_new_def)
qed

section \<open>Slashing proofs\<close>

definition SLASHING_PROOF_DOMAIN :: bytes where
  "SLASHING_PROOF_DOMAIN = str_bytes ''arxia-relay-slash-v1''"

datatype slashing_error =
    InvalidTargetRelayId
  | SlashSignatureInvalid
  | InvalidObserverPubkey
  | SlashInvalidSignatureLength
  | TargetMismatch
  | NegativePenalty

record slashing_proof =
  sp_observer_pubkey :: bytes
  sp_target_relay_id :: string
  sp_reason :: string
  sp_signature :: bytes

definition slashing_canonical_message ::
    "('sk, 'vk, 'z) crypto_scheme \<Rightarrow> slashing_proof \<Rightarrow> (bytes, slashing_error) result" where
  "slashing_canonical_message E self =
     and_then (map_err (\<lambda>_. InvalidTargetRelayId) (decode_hex_32 E (sp_target_relay_id self))) (\<lambda>target.
       Ok (SLASHING_PROOF_DOMAIN @ sp_observer_pubkey self @ target
           @ u64_to_be (of_nat (length (sp_reason self))) @ str_bytes (sp_reason self)))"

definition slashing_verify ::
    "('sk, 'vk, 'z) crypto_scheme \<Rightarrow> slashing_proof \<Rightarrow> (unit, slashing_error) result" where
  "slashing_verify E self =
     and_then (slashing_canonical_message E self) (\<lambda>msg.
     and_then (fail_if (length (sp_signature self) \<noteq> 64) SlashInvalidSignatureLength) (\<lambda>_.
     and_then (ok_or (to_array 64 (sp_signature self)) SlashInvalidSignatureLength) (\<lambda>sig.
       map_err (\<lambda>e. case e of InvalidKey _ \<Rightarrow> InvalidObserverPubkey | _ \<Rightarrow> SlashSignatureInvalid)
         (crypto_verify E (sp_observer_pubkey self) msg sig))))"

section \<open>Scores\<close>

datatype relay_id_error = InvalidLength nat | InvalidHex nat u8

definition RELAY_ID_LEN :: nat where "RELAY_ID_LEN = 64"

definition is_hex_byte :: "u8 \<Rightarrow> bool" where
  "is_hex_byte b \<longleftrightarrow> (48 \<le> b \<and> b \<le> 57) \<or> (97 \<le> b \<and> b \<le> 102) \<or> (65 \<le> b \<and> b \<le> 70)"

fun check_hex_from :: "nat \<Rightarrow> bytes \<Rightarrow> (unit, relay_id_error) result" where
  "check_hex_from i [] = Ok ()"
| "check_hex_from i (b # bs) = (if \<not> is_hex_byte b then Err (InvalidHex i b) else check_hex_from (Suc i) bs)"

definition validate_relay_id :: "string \<Rightarrow> (unit, relay_id_error) result" where
  "validate_relay_id relay_id =
     and_then (fail_if (length relay_id \<noteq> RELAY_ID_LEN) (InvalidLength (length relay_id)))
       (\<lambda>_. check_hex_from 0 (str_bytes relay_id))"

record relay_score =
  rs_relay_id :: string
  rs_score :: int
  rs_messages_relayed :: u64
  rs_messages_failed :: u64
  rs_credited_messages :: "bytes set"
  rs_rolling_events :: "(u64 \<times> int) list"
  rs_per_target_counts :: "(bytes, u64 \<times> u64) hmap"

definition ROLLING_WINDOW_MS :: u64 where "ROLLING_WINDOW_MS = RELAY_SCORING_WINDOW_DAYS * 86400000"
definition SUCCESS_DELTA :: int where "SUCCESS_DELTA = 1"
definition FAILURE_DELTA :: int where "FAILURE_DELTA = - 5"
definition ROLLING_BASELINE :: int where "ROLLING_BASELINE = 100"
definition TRUST_THRESHOLD :: int where "TRUST_THRESHOLD = 1"

definition relay_score_new :: "string \<Rightarrow> relay_score" where
  "relay_score_new relay_id =
     \<lparr>rs_relay_id = relay_id, rs_score = 100, rs_messages_relayed = 0, rs_messages_failed = 0,
      rs_credited_messages = {}, rs_rolling_events = [], rs_per_target_counts = []\<rparr>"

definition relay_score_try_new :: "string \<Rightarrow> (relay_score, relay_id_error) result" where
  "relay_score_try_new relay_id = and_then (validate_relay_id relay_id) (\<lambda>_. Ok (relay_score_new relay_id))"

text \<open>\<open>self.messages_relayed += 1; self.score += 1\<close>, and the same for a failure.\<close>

definition add_success :: "relay_score \<Rightarrow> (unit, 'e) result \<times> relay_score" where
  "add_success self =
     (case plain_add (rs_messages_relayed self) 1 of
        Ok n \<Rightarrow>
          let self' = self\<lparr>rs_messages_relayed := n\<rparr> in
          (case i64_plain_add (rs_score self) 1 of
             Ok s \<Rightarrow> (Ok (), self'\<lparr>rs_score := s\<rparr>) | Err e \<Rightarrow> (Err e, self') | Panic \<Rightarrow> (Panic, self'))
      | Err e \<Rightarrow> (Err e, self) | Panic \<Rightarrow> (Panic, self))"

definition record_failure :: "relay_score \<Rightarrow> (unit, 'e) result \<times> relay_score" where
  "record_failure self =
     (case plain_add (rs_messages_failed self) 1 of
        Ok n \<Rightarrow>
          let self' = self\<lparr>rs_messages_failed := n\<rparr> in
          (case i64_plain_add (rs_score self) (- 5) of
             Ok s \<Rightarrow> (Ok (), self'\<lparr>rs_score := s\<rparr>) | Err e \<Rightarrow> (Err e, self') | Panic \<Rightarrow> (Panic, self'))
      | Err e \<Rightarrow> (Err e, self) | Panic \<Rightarrow> (Panic, self))"

definition record_success ::
    "('sk, 'vk, 'z) crypto_scheme \<Rightarrow> relay_receipt \<Rightarrow> relay_score \<Rightarrow> (unit, relay_receipt_error) result \<times> relay_score" where
  "record_success E receipt self =
     (case and_then (fail_if (rp_relay_id receipt \<noteq> rs_relay_id self) WrongRelayId) (\<lambda>_.
           and_then (receipt_verify E receipt) (\<lambda>_.
           and_then (map_err (\<lambda>_. InvalidMessageHash) (hex_decode E (rp_message_hash receipt))) (\<lambda>v.
             ok_or (to_array 32 v) InvalidMessageHash))) of
        Err e \<Rightarrow> (Err e, self)
      | Panic \<Rightarrow> (Panic, self)
      | Ok msg_hash_bytes \<Rightarrow>
          if msg_hash_bytes \<in> rs_credited_messages self then (Err DuplicateReceipt, self)
          else add_success (self\<lparr>rs_credited_messages := insert msg_hash_bytes (rs_credited_messages self)\<rparr>))"

definition slash ::
    "('sk, 'vk, 'z) crypto_scheme \<Rightarrow> int \<Rightarrow> slashing_proof \<Rightarrow> relay_score \<Rightarrow> (unit, slashing_error) result \<times> relay_score" where
  "slash E penalty evid self =
     (case and_then (fail_if (penalty < 0) NegativePenalty) (\<lambda>_.
           and_then (fail_if (sp_target_relay_id evid \<noteq> rs_relay_id self) TargetMismatch) (\<lambda>_.
             slashing_verify E evid)) of
        Err e \<Rightarrow> (Err e, self)
      | Panic \<Rightarrow> (Panic, self)
      | Ok _ \<Rightarrow> (Ok (), self\<lparr>rs_score := i64_saturating_sub (rs_score self) penalty\<rparr>))"

definition is_trusted_with_threshold :: "relay_score \<Rightarrow> int \<Rightarrow> bool" where
  "is_trusted_with_threshold self threshold \<longleftrightarrow> rs_score self \<ge> threshold"

definition is_trusted :: "relay_score \<Rightarrow> bool" where
  "is_trusted self = is_trusted_with_threshold self TRUST_THRESHOLD"

definition rolling_cutoff :: "u64 \<Rightarrow> u64" where
  "rolling_cutoff now_ms = saturating_sub now_ms ROLLING_WINDOW_MS"

definition prune_rolling :: "u64 \<Rightarrow> relay_score \<Rightarrow> relay_score" where
  "prune_rolling now_ms self =
     self\<lparr>rs_rolling_events := dropWhile (\<lambda>(t, d). t < rolling_cutoff now_ms) (rs_rolling_events self)\<rparr>"

definition record_success_at ::
    "('sk, 'vk, 'z) crypto_scheme \<Rightarrow> relay_receipt \<Rightarrow> u64 \<Rightarrow> relay_score
      \<Rightarrow> (unit, relay_receipt_error) result \<times> relay_score" where
  "record_success_at E receipt now_ms self =
     (case record_success E receipt self of
        (Ok _, self') \<Rightarrow>
          (Ok (), prune_rolling now_ms
             (self'\<lparr>rs_rolling_events := rs_rolling_events self' @ [(now_ms, SUCCESS_DELTA)]\<rparr>))
      | other \<Rightarrow> other)"

definition record_failure_at :: "u64 \<Rightarrow> relay_score \<Rightarrow> (unit, unit) result \<times> relay_score" where
  "record_failure_at now_ms self =
     (case record_failure self of
        (Ok _, self') \<Rightarrow>
          (Ok (), prune_rolling now_ms
             (self'\<lparr>rs_rolling_events := rs_rolling_events self' @ [(now_ms, FAILURE_DELTA)]\<rparr>))
      | other \<Rightarrow> other)"

text \<open>The buffer is far shorter than \<open>2 ^ 60\<close>, so the \<open>i64\<close> sum of its deltas does not overflow.\<close>

definition rolling_score :: "relay_score \<Rightarrow> u64 \<Rightarrow> int" where
  "rolling_score self now_ms =
     i64_saturating_add ROLLING_BASELINE
       (sum_list (map snd (filter (\<lambda>(t, d). t \<ge> rolling_cutoff now_ms) (rs_rolling_events self))))"

definition record_success_for_target ::
    "('sk, 'vk, 'z) crypto_scheme \<Rightarrow> relay_receipt \<Rightarrow> bytes \<Rightarrow> relay_score
      \<Rightarrow> (unit, relay_receipt_error) result \<times> relay_score" where
  "record_success_for_target E receipt target self =
     (case record_success E receipt self of
        (Ok _, self') \<Rightarrow>
          (Ok (), self'\<lparr>rs_per_target_counts :=
             hm_entry target (0, 0) (\<lambda>(s, f). (saturating_add s 1, f)) (rs_per_target_counts self')\<rparr>)
      | other \<Rightarrow> other)"

definition record_failure_for_target :: "bytes \<Rightarrow> relay_score \<Rightarrow> (unit, unit) result \<times> relay_score" where
  "record_failure_for_target target self =
     (case record_failure self of
        (Ok _, self') \<Rightarrow>
          (Ok (), self'\<lparr>rs_per_target_counts :=
             hm_entry target (0, 0) (\<lambda>(s, f). (s, saturating_add f 1)) (rs_per_target_counts self')\<rparr>)
      | other \<Rightarrow> other)"

definition rolling_events_count :: "relay_score \<Rightarrow> nat" where
  "rolling_events_count self = length (rs_rolling_events self)"

definition per_target_success_rate :: "relay_score \<Rightarrow> bytes \<Rightarrow> (u64 \<times> u64 \<times> f64) option" where
  "per_target_success_rate self target =
     (case map_of (rs_per_target_counts self) target of
        None \<Rightarrow> None
      | Some (s, f) \<Rightarrow>
          let total_events = saturating_add s f in
          if total_events = 0 then None
          else Some (s, f, f64_div (f64_of_u64 s) (f64_of_u64 total_events)))"

definition per_target_count :: "relay_score \<Rightarrow> nat" where
  "per_target_count self = length (rs_per_target_counts self)"

text \<open>The closure of the \<open>filter_map\<close>: a target with enough events and a rate up to the threshold.\<close>

definition is_anomaly :: "u64 \<Rightarrow> f64 \<Rightarrow> u64 \<times> u64 \<Rightarrow> bool" where
  "is_anomaly min_sample threshold counts =
     (case counts of (s, f) \<Rightarrow>
        let total_events = saturating_add s f in
        \<not> total_events < min_sample \<and> f64_le (f64_div (f64_of_u64 s) (f64_of_u64 total_events)) threshold)"

definition flag_per_target_anomalies :: "relay_score \<Rightarrow> u64 \<Rightarrow> f64 \<Rightarrow> bytes list" where
  "flag_per_target_anomalies self min_sample threshold =
     map fst (filter (\<lambda>(target, counts). is_anomaly min_sample threshold counts) (rs_per_target_counts self))"

section \<open>Authentication\<close>

interpretation receipt_envelope: signed_envelope
  "\<lambda>r. case receipt_canonical_message E r of Ok m \<Rightarrow> Some m | _ \<Rightarrow> None"
  "\<lambda>r. case decode_hex_32 E (rp_relay_id r) of Ok pk \<Rightarrow> Some pk | _ \<Rightarrow> None" rp_signature
  "\<lambda>r. receipt_verify E r = Ok ()" "\<lambda>pk m s. crypto_verify E pk m s = Ok ()" for E
  by unfold_locales (auto simp: receipt_verify_def outcome_simps)

interpretation slashing_envelope: signed_envelope
  "\<lambda>p. case slashing_canonical_message E p of Ok m \<Rightarrow> Some m | _ \<Rightarrow> None"
  "\<lambda>p. Some (sp_observer_pubkey p)" sp_signature
  "\<lambda>p. slashing_verify E p = Ok ()" "\<lambda>pk m s. crypto_verify E pk m s = Ok ()" for E
  by unfold_locales (auto simp: slashing_verify_def outcome_simps)

lemma decode_hex_32_Ok: "decode_hex_32 E s = Ok v \<longleftrightarrow> hex_decode E s = Ok v \<and> length v = 32"
  by (auto simp: decode_hex_32_def outcome_simps)

section \<open>Credits\<close>

text \<open>
  A credited receipt names this relay and carries its signature over the decoded message hash; the
  message was not credited before and is from now on.
\<close>

lemma add_success_Ok:
  "add_success s = (Ok (), s') \<longleftrightarrow>
     unat (rs_messages_relayed s) + 1 < 2 ^ 64 \<and> i64_MIN \<le> rs_score s + 1 \<and> rs_score s + 1 \<le> i64_MAX \<and>
     s' = s\<lparr>rs_messages_relayed := rs_messages_relayed s + 1, rs_score := rs_score s + 1\<rparr>"
  by (auto simp: add_success_def plain_add_def checked_add_def i64_plain_add_def split: if_splits)

lemma add_success_not_Err: "fst (add_success s) \<noteq> Err e"
  by (simp add: add_success_def plain_add_def i64_plain_add_def split: option.split)

lemma record_success_Ok:
  assumes "record_success E r self = (Ok (), self')"
  shows "\<exists>h. hex_decode E (rp_message_hash r) = Ok h \<and> length h = 32 \<and>
    rp_relay_id r = rs_relay_id self \<and> receipt_verify E r = Ok () \<and>
    h \<notin> rs_credited_messages self \<and>
    rs_credited_messages self' = insert h (rs_credited_messages self) \<and>
    rs_score self' = rs_score self + 1 \<and>
    unat (rs_messages_relayed self') = unat (rs_messages_relayed self) + 1"
  using assms
  by (auto simp: record_success_def outcome_simps add_success_Ok unat_word_ariths split: result.splits if_splits)

lemma record_success_Err: "record_success E r self = (Err e, self') \<Longrightarrow> self' = self"
proof -
  assume r: "record_success E r self = (Err e, self')"
  have "fst (add_success s) \<noteq> Err e" for s by (rule add_success_not_Err)
  then have "add_success s \<noteq> (Err e, self')" for s by (metis fst_conv)
  then show ?thesis using r by (auto simp: record_success_def split: result.splits if_splits)
qed

text \<open>No second credit for a message: whatever the receipt, its time stamp, hop count or hex casing.\<close>

lemma record_success_replay:
  assumes "hex_decode E (rp_message_hash r) = Ok h" "h \<in> rs_credited_messages self"
  shows "\<not> is_ok (fst (record_success E r self)) \<and> (\<forall>e. fst (record_success E r self) = Err e \<longrightarrow> snd (record_success E r self) = self)"
proof -
  obtain res self' where r: "record_success E r self = (res, self')" by force
  have "res \<noteq> Ok u" for u
    using record_success_Ok[of E r self self'] r assms by auto
  then show ?thesis using r record_success_Err by (auto simp: is_ok_iff)
qed

section \<open>The score over its whole life\<close>

datatype score_op =
    ScoreSuccess relay_receipt
  | ScoreSuccessAt relay_receipt u64
  | ScoreSuccessFor relay_receipt bytes
  | ScoreFailure
  | ScoreFailureAt u64
  | ScoreFailureFor bytes
  | ScoreSlash int slashing_proof
  | ScorePrune u64

text \<open>A panic ends the run, so it leaves nothing to the next operation.\<close>

fun kept :: "'s \<Rightarrow> ('a, 'e) result \<times> 's \<Rightarrow> 's" where
  "kept s (Panic, s') = s"
| "kept s (Ok x, s') = s'"
| "kept s (Err e, s') = s'"

fun score_step :: "('sk, 'vk, 'z) crypto_scheme \<Rightarrow> score_op \<Rightarrow> relay_score \<Rightarrow> relay_score" where
  "score_step E (ScoreSuccess r) s = kept s (record_success E r s)"
| "score_step E (ScoreSuccessAt r t) s = kept s (record_success_at E r t s)"
| "score_step E (ScoreSuccessFor r g) s = kept s (record_success_for_target E r g s)"
| "score_step E ScoreFailure s = kept s (record_failure s :: (unit, unit) result \<times> relay_score)"
| "score_step E (ScoreFailureAt t) s = kept s (record_failure_at t s)"
| "score_step E (ScoreFailureFor g) s = kept s (record_failure_for_target g s)"
| "score_step E (ScoreSlash p evid) s = kept s (slash E p evid s)"
| "score_step E (ScorePrune t) s = prune_rolling t s"

text \<open>
  An operation keeps a property that the accepted credits, failures and slashes keep and that does not
  look at the buffer of events or the counts per target: a refusal leaves the score as it was.
\<close>

lemma record_failure_not_Err: "record_failure s \<noteq> (Err e, s')"
  by (auto simp: record_failure_def plain_add_def i64_plain_add_def Let_def split: option.splits if_splits)

lemma slash_not_Ok: "slash E p evid s = (r, s') \<Longrightarrow> r \<noteq> Ok () \<Longrightarrow> s' = s"
  by (auto simp: slash_def split: result.splits)

lemma score_step_keeps:
  assumes ok: "P s"
    and succ: "\<And>r s'. record_success E r s = (Ok (), s') \<Longrightarrow> P s'"
    and failure: "\<And>s'. (record_failure s :: (unit, unit) result \<times> relay_score) = (Ok (), s') \<Longrightarrow> P s'"
    and slashed: "\<And>p evid s'. x = ScoreSlash p evid \<Longrightarrow> slash E p evid s = (Ok (), s') \<Longrightarrow> P s'"
    and events: "\<And>ev s. P (s\<lparr>rs_rolling_events := ev\<rparr>) \<longleftrightarrow> P s"
    and counts: "\<And>c s. P (s\<lparr>rs_per_target_counts := c\<rparr>) \<longleftrightarrow> P s"
  shows "P (score_step E x s)"
proof -
  have prune: "P (prune_rolling t s) \<longleftrightarrow> P s" for t s by (simp add: prune_rolling_def events)
  have credit: "P (kept s (record_success E r s))" "P (kept s (record_success_at E r t s))"
    "P (kept s (record_success_for_target E r g s))" for r t g
  proof -
    obtain res s' where res: "record_success E r s = (res, s')" by force
    then show "P (kept s (record_success E r s))" "P (kept s (record_success_at E r t s))"
      "P (kept s (record_success_for_target E r g s))"
      using ok succ record_success_Err[of E r s _ s']
      by (cases res; simp add: record_success_at_def record_success_for_target_def prune events counts)+
  qed
  have drop: "P (kept s (record_failure s :: (unit, unit) result \<times> relay_score))" "P (kept s (record_failure_at t s))"
    "P (kept s (record_failure_for_target g s))" for t g
  proof -
    obtain res s' where res: "(record_failure s :: (unit, unit) result \<times> relay_score) = (res, s')" by force
    then have "res \<noteq> Err ()" using record_failure_not_Err[of s "()" s'] by metis
    then show "P (kept s (record_failure s :: (unit, unit) result \<times> relay_score))" "P (kept s (record_failure_at t s))"
      "P (kept s (record_failure_for_target g s))"
      using res ok failure
      by (cases res; simp add: record_failure_at_def record_failure_for_target_def prune events counts)+
  qed
  have cut: "P (kept s (slash E p evid s))" if "x = ScoreSlash p evid" for p evid
  proof -
    obtain res s' where r: "slash E p evid s = (res, s')" by force
    then show ?thesis using ok slashed[OF that] slash_not_Ok[OF r] by (cases res) auto
  qed
  show ?thesis using ok credit drop cut by (cases x) (simp_all add: prune)
qed

lemma uint_succ:
  fixes x :: u64
  assumes "unat x + 1 < 2 ^ 64"
  shows "uint (x + 1) = uint x + 1"
proof -
  have "unat (x + 1) = unat x + 1" using assms by (simp add: unat_word_ariths)
  from arg_cong[OF this, of int] show ?thesis by simp
qed

text \<open>
  The number of credits is the number of distinct credited messages. The score stays an \<open>i64\<close> and is at
  most what the credits and failures make it; slashes only lower it, and without them it is exactly that.
\<close>

definition earned_score :: "relay_score \<Rightarrow> int" where
  "earned_score s = 100 + uint (rs_messages_relayed s) - 5 * uint (rs_messages_failed s)"

definition score_ok :: "relay_score \<Rightarrow> bool" where
  "score_ok s \<longleftrightarrow>
     finite (rs_credited_messages s) \<and> unat (rs_messages_relayed s) = card (rs_credited_messages s) \<and>
     i64_MIN \<le> rs_score s \<and> rs_score s \<le> i64_MAX \<and> rs_score s \<le> earned_score s"

lemma score_new_ok: "score_ok (relay_score_new i)"
  by (simp add: score_ok_def relay_score_new_def earned_score_def i64_MIN_def i64_MAX_def)

lemma record_failure_Ok:
  assumes "record_failure s = (Ok (), s')"
  shows "rs_score s' = rs_score s - 5" "i64_MIN \<le> rs_score s - 5" "rs_messages_relayed s' = rs_messages_relayed s"
    "rs_credited_messages s' = rs_credited_messages s" "earned_score s' = earned_score s - 5"
proof -
  have s': "s' = s\<lparr>rs_messages_failed := rs_messages_failed s + 1, rs_score := rs_score s - 5\<rparr>"
    and fits: "unat (rs_messages_failed s) + 1 < 2 ^ 64" "i64_MIN \<le> rs_score s - 5"
    using assms by (auto simp: record_failure_def plain_add_def checked_add_def i64_plain_add_def split: if_splits)
  have "uint (rs_messages_failed s + 1) = uint (rs_messages_failed s) + 1"
    using uint_succ[OF fits(1)] .
  then show "rs_score s' = rs_score s - 5" "i64_MIN \<le> rs_score s - 5" "rs_messages_relayed s' = rs_messages_relayed s"
    "rs_credited_messages s' = rs_credited_messages s" "earned_score s' = earned_score s - 5"
    using fits by (simp_all add: s' earned_score_def)
qed

lemma record_success_counts:
  assumes "record_success E r s = (Ok (), s')"
  shows "rs_score s + 1 \<le> i64_MAX" "earned_score s' = earned_score s + 1"
proof -
  obtain h where s': "s' = s\<lparr>rs_credited_messages := insert h (rs_credited_messages s),
      rs_messages_relayed := rs_messages_relayed s + 1, rs_score := rs_score s + 1\<rparr>"
    and fits: "unat (rs_messages_relayed s) + 1 < 2 ^ 64" "rs_score s + 1 \<le> i64_MAX"
    using assms by (auto simp: record_success_def outcome_simps add_success_Ok split: result.splits if_splits)
  show "rs_score s + 1 \<le> i64_MAX" "earned_score s' = earned_score s + 1"
    using fits(2) uint_succ[OF fits(1)] by (simp_all add: s' earned_score_def)
qed

lemma record_success_ok:
  assumes "score_ok s" "record_success E r s = (Ok (), s')"
  shows "score_ok s'"
  using record_success_Ok[OF assms(2)] record_success_counts[OF assms(2)] assms(1) by (auto simp: score_ok_def)

lemma record_failure_ok:
  assumes "score_ok s" "record_failure s = (Ok (), s')"
  shows "score_ok s'"
  using record_failure_Ok[OF assms(2)] assms(1) by (simp add: score_ok_def)

lemma slash_ok: "score_ok s \<Longrightarrow> slash E p evid s = (Ok (), s') \<Longrightarrow> score_ok s' \<and> rs_score s' \<le> rs_score s"
  by (auto simp: slash_def outcome_simps score_ok_def earned_score_def i64_saturating_sub_def i64_MIN_def i64_MAX_def
      split: result.splits)

lemma score_ok_fields:
  "score_ok (s\<lparr>rs_rolling_events := ev\<rparr>) \<longleftrightarrow> score_ok s"
  "score_ok (s\<lparr>rs_per_target_counts := c\<rparr>) \<longleftrightarrow> score_ok s"
  by (simp_all add: score_ok_def earned_score_def)

lemma score_ok_step:
  assumes ok: "score_ok s"
  shows "score_ok (score_step E x s)"
proof (rule score_step_keeps[where P = score_ok, OF ok])
  show "score_ok s'" if "record_success E r s = (Ok (), s')" for r s' using record_success_ok[OF ok that] .
  show "score_ok s'" if "(record_failure s :: (unit, unit) result \<times> relay_score) = (Ok (), s')" for s'
    using record_failure_ok[OF ok that] .
  show "score_ok s'" if "slash E p evid s = (Ok (), s')" for p evid s' using slash_ok[OF ok that] by simp
qed (rule score_ok_fields)+

interpretation relay_score: state_inv score_ok "score_step E" for E
  by unfold_locales (rule score_ok_step)

text \<open>Without a slash the score is exactly what was earned.\<close>

lemma score_earned:
  assumes "\<forall>p evid. ScoreSlash p evid \<notin> set ops" "rs_score s = earned_score s"
  shows "rs_score (fold (score_step E) ops s) = earned_score (fold (score_step E) ops s)"
  using assms
proof (induction ops arbitrary: s)
  case (Cons x ops)
  have "rs_score (score_step E x s) = earned_score (score_step E x s)"
  proof (rule score_step_keeps[where P = "\<lambda>s. rs_score s = earned_score s", OF Cons.prems(2)])
    show "rs_score s' = earned_score s'" if "record_success E r s = (Ok (), s')" for r s'
      using record_success_Ok[OF that] record_success_counts(2)[OF that] Cons.prems(2) by auto
    show "rs_score s' = earned_score s'"
      if "(record_failure s :: (unit, unit) result \<times> relay_score) = (Ok (), s')" for s'
      using record_failure_Ok[OF that] Cons.prems(2) by simp
  qed (use Cons.prems(1) in \<open>auto simp: earned_score_def\<close>)
  then show ?case using Cons.IH[of "score_step E x s"] Cons.prems(1) by auto
qed simp

section \<open>Counts per target\<close>

definition target_count :: "bytes \<Rightarrow> relay_score \<Rightarrow> u64 \<times> u64" where
  "target_count t s = (case map_of (rs_per_target_counts s) t of None \<Rightarrow> (0, 0) | Some c \<Rightarrow> c)"

text \<open>What a run recorded for a target: the successes and failures that were accepted.\<close>

fun target_event :: "('sk, 'vk, 'z) crypto_scheme \<Rightarrow> bytes \<Rightarrow> score_op \<Rightarrow> relay_score \<Rightarrow> nat \<times> nat" where
  "target_event E t (ScoreSuccessFor r g) s =
     (if g = t \<and> is_ok (fst (record_success_for_target E r g s)) then (1, 0) else (0, 0))"
| "target_event E t (ScoreFailureFor g) s =
     (if g = t \<and> is_ok (fst (record_failure_for_target g s)) then (0, 1) else (0, 0))"
| "target_event E t _ s = (0, 0)"

fun target_events :: "('sk, 'vk, 'z) crypto_scheme \<Rightarrow> bytes \<Rightarrow> score_op list \<Rightarrow> relay_score \<Rightarrow> nat \<times> nat" where
  "target_events E t [] s = (0, 0)"
| "target_events E t (x # xs) s =
     (let (a, b) = target_event E t x s; (c, d) = target_events E t xs (score_step E x s) in (a + c, b + d))"

lemma record_counts:
  "rs_per_target_counts (snd (record_success E r s)) = rs_per_target_counts s"
  "rs_per_target_counts (snd (record_failure s)) = rs_per_target_counts s"
  "rs_per_target_counts (snd (slash E p evid s)) = rs_per_target_counts s"
  by (auto simp: record_success_def add_success_def record_failure_def slash_def Let_def split: result.split)

lemma record_counts_for:
  "record_success E r s = (res, s') \<Longrightarrow> rs_per_target_counts s' = rs_per_target_counts s"
  "record_failure s = (res', s') \<Longrightarrow> rs_per_target_counts s' = rs_per_target_counts s"
  using record_counts(1)[of E r s] record_counts(2)[of s] by (metis snd_conv)+

lemma kept_result: "kept s r = (case fst r of Panic \<Rightarrow> s | _ \<Rightarrow> snd r)"
  by (cases r; cases "fst r") auto

lemma score_step_counts:
  "rs_per_target_counts (score_step E x s) =
    (case x of
       ScoreSuccessFor r g \<Rightarrow>
         if is_ok (fst (record_success_for_target E r g s))
         then hm_entry g (0, 0) (\<lambda>(s, f). (saturating_add s 1, f)) (rs_per_target_counts s) else rs_per_target_counts s
     | ScoreFailureFor g \<Rightarrow>
         if is_ok (fst (record_failure_for_target g s))
         then hm_entry g (0, 0) (\<lambda>(s, f). (s, saturating_add f 1)) (rs_per_target_counts s) else rs_per_target_counts s
     | _ \<Rightarrow> rs_per_target_counts s)"
  by (cases x) (auto simp: kept_result record_counts record_success_at_def record_failure_at_def
      record_success_for_target_def record_failure_for_target_def prune_rolling_def
      split: result.split prod.split dest: record_counts_for)

lemma target_count_step:
  assumes "target_count t s = (a, b)" "target_event E t x s = (m, n)" "unat a + m < 2 ^ 64" "unat b + n < 2 ^ 64"
  shows "target_count t (score_step E x s) = (a + of_nat m, b + of_nat n)"
proof -
  have sat: "saturating_add c 1 = c + 1" if "unat c + 1 < 2 ^ 64" for c :: u64
    using that by (simp add: saturating_add_def)
  show ?thesis
    using assms unfolding target_count_def score_step_counts
    by (cases x) (auto simp: map_of_hm_entry sat split: if_splits option.splits)
qed

lemma target_event_one: "target_event E t x s = (m, n) \<Longrightarrow> m + n \<le> 1"
  by (cases x) (auto split: if_splits)

lemma target_count_run:
  "target_count t s = (a, b) \<Longrightarrow> target_events E t xs s = (m, n) \<Longrightarrow> unat a + length xs < 2 ^ 64 \<Longrightarrow>
    unat b + length xs < 2 ^ 64 \<Longrightarrow>
    target_count t (fold (score_step E) xs s) = (a + of_nat m, b + of_nat n) \<and> m + n \<le> length xs"
proof (induction xs arbitrary: s a b m n)
  case (Cons x xs)
  obtain m1 n1 where ev: "target_event E t x s = (m1, n1)" by force
  obtain m2 n2 where evs: "target_events E t xs (score_step E x s) = (m2, n2)" by force
  have one: "m1 + n1 \<le> 1" using target_event_one[OF ev] .
  then have step: "target_count t (score_step E x s) = (a + of_nat m1, b + of_nat n1)"
    using target_count_step[OF Cons.prems(1) ev] Cons.prems(3,4) by simp
  have "unat (a + of_nat m1) \<le> unat a + m1" "unat (b + of_nat n1) \<le> unat b + n1"
    by (simp_all add: unat_word_ariths unat_of_nat take_bit_eq_mod mod_add_right_eq)
  then show ?case using Cons.IH[OF step evs] Cons.prems one ev evs by (auto simp: add.assoc)
qed simp

lemma per_target_wf: "hm_wf (rs_per_target_counts s) \<Longrightarrow> hm_wf (rs_per_target_counts (fold (score_step E) xs s))"
proof (induction xs arbitrary: s)
  case (Cons x xs)
  have "hm_wf (rs_per_target_counts (score_step E x s))"
    using Cons.prems unfolding score_step_counts by (cases x) simp_all
  then show ?case using Cons.IH by simp
qed simp

text \<open>The anomaly test over the natural numbers, with the rounded rate.\<close>

lemma is_anomaly_iff:
  assumes "unat a + unat b < 2 ^ 53"
  shows "is_anomaly k (Finite q) (a, b) \<longleftrightarrow> unat k \<le> unat a + unat b \<and> 0 < unat a + unat b \<and>
    f64_nearest (of_nat (unat a) / of_nat (unat a + unat b)) \<le> q"
proof -
  have total_ab: "saturating_add a b = a + b" "unat (a + b) = unat a + unat b"
    using assms by (simp_all add: saturating_add_def unat_word_ariths)
  show ?thesis
  proof (cases "unat a + unat b = 0")
    case True
    then have "a = 0" "b = 0" by (simp_all add: unsigned_eq_0_iff)
    then show ?thesis by (simp add: is_anomaly_def saturating_add_def f64_of_u64_def f64_round_def)
  next
    case False
    then have "f64_div (f64_of_u64 a) (f64_of_u64 (a + b)) =
        Finite (f64_nearest (of_nat (unat a) / of_nat (unat a + unat b)))"
      using f64_rate[of a "a + b"] assms total_ab by simp
    then show ?thesis using False
      by (simp only: is_anomaly_def Let_def prod.case total_ab f64_le.simps word_less_nat_alt not_less) simp
  qed
qed

lemma flagged_iff:
  assumes "hm_wf (rs_per_target_counts s)"
  shows "t \<in> set (flag_per_target_anomalies s k th) \<longleftrightarrow> is_anomaly k th (target_count t s)"
proof -
  have none: "\<not> is_anomaly k th (0, 0)"
    by (cases th) (simp_all add: is_anomaly_def saturating_add_def f64_of_u64_def f64_round_def)
  have "t \<in> set (flag_per_target_anomalies s k th) \<longleftrightarrow>
      (\<exists>c. map_of (rs_per_target_counts s) t = Some c \<and> is_anomaly k th c)"
    using hm_mem_iff[OF assms] by (force simp: flag_per_target_anomalies_def)
  then show ?thesis using none by (auto simp: target_count_def split: option.split)
qed

section \<open>The rolling window\<close>

text \<open>Pruning does not change the score at that time, and with ordered events keeps only the window.\<close>

lemma prune_rolling_score: "rolling_score (prune_rolling t s) t = rolling_score s t"
proof -
  have "filter (\<lambda>(u, d). c \<le> u) (dropWhile (\<lambda>(u, d). u < c) es) = filter (\<lambda>(u, d). c \<le> u) es"
    for c :: u64 and es :: "(u64 \<times> int) list"
    by (induction es) auto
  then show ?thesis by (simp add: rolling_score_def prune_rolling_def)
qed

lemma prune_rolling_window:
  "sorted (map fst (rs_rolling_events s)) \<Longrightarrow> (u, d) \<in> set (rs_rolling_events (prune_rolling t s)) \<Longrightarrow>
    rolling_cutoff t \<le> u"
proof -
  have "sorted (map fst es) \<Longrightarrow> (u, d) \<in> set (dropWhile (\<lambda>(u, d). u < c) es) \<Longrightarrow> c \<le> u"
    for c :: u64 and es :: "(u64 \<times> int) list"
    by (induction es) (force split: if_splits)+
  then show "sorted (map fst (rs_rolling_events s)) \<Longrightarrow> (u, d) \<in> set (rs_rolling_events (prune_rolling t s)) \<Longrightarrow>
    rolling_cutoff t \<le> u"
    by (simp add: prune_rolling_def)
qed

section \<open>Slashing\<close>

text \<open>
  The penalty is not part of what the observer signs, and a proof is not used up: one proof
  accepts every non-negative penalty, any number of times.
\<close>

lemma slash_any_penalty:
  assumes "slashing_verify E evid = Ok ()" "sp_target_relay_id evid = rs_relay_id s" "0 \<le> p"
  shows "slash E p evid s = (Ok (), s\<lparr>rs_score := i64_saturating_sub (rs_score s) p\<rparr>)"
  using assms by (simp add: slash_def)

end
