(* ===== verification/Reassembly.thy ===== *)
theory Reassembly
  imports Crypto Interfaces
begin

text \<open>
  Crate \<open>arxia-transport\<close>, file \<open>reassembly.rs\<close>: signed fragments and the reassembler, with
  its bounded queue of pending messages per peer. A \<open>VecDeque\<close> is a list, oldest entry first;
  \<open>feed\<close> returns its result with the state it leaves behind.
\<close>

section \<open>Fragments\<close>

definition MAX_INFLIGHT_MESSAGES_PER_PEER :: nat where "MAX_INFLIGHT_MESSAGES_PER_PEER = 16"

definition FRAGMENT_DOMAIN :: bytes where
  "FRAGMENT_DOMAIN = str_bytes ''arxia-transport-fragment-v1''"

datatype reassembly_error =
    InvalidFragmentSignature
  | TotalMismatch u16 u16
  | SeqOutOfRange u16 u16
  | EmptyMessage
  | PayloadMismatch u16

record fragment =
  fr_peer_pubkey :: bytes
  fr_message_id :: bytes
  fr_seq :: u16
  fr_total :: u16
  fr_signature :: bytes
  fr_payload :: bytes

definition fragment_canonical_bytes :: "bytes \<Rightarrow> bytes \<Rightarrow> u16 \<Rightarrow> u16 \<Rightarrow> bytes \<Rightarrow> bytes" where
  "fragment_canonical_bytes peer_pubkey message_id seq tot payload =
     FRAGMENT_DOMAIN @ peer_pubkey @ message_id @ u16_to_be seq @ u16_to_be tot @ payload"

definition fragment_verify ::
    "('sk, 'vk, 'z) crypto_scheme \<Rightarrow> fragment \<Rightarrow> (unit, reassembly_error) result" where
  "fragment_verify E self =
     map_err (\<lambda>_. InvalidFragmentSignature)
       (crypto_verify E (fr_peer_pubkey self)
          (fragment_canonical_bytes (fr_peer_pubkey self) (fr_message_id self) (fr_seq self)
             (fr_total self) (fr_payload self))
          (fr_signature self))"

text \<open>The signed bytes determine every signed field, for keys of 32 and identifiers of 16 bytes.\<close>

lemma fragment_canonical_inj:
  assumes "length pk = 32" "length pk' = 32" "length mid = 16" "length mid' = 16"
    and "fragment_canonical_bytes pk mid s n p = fragment_canonical_bytes pk' mid' s' n' p'"
  shows "pk = pk' \<and> mid = mid' \<and> s = s' \<and> n = n' \<and> p = p'"
  using assms by (simp add: fragment_canonical_bytes_def)

interpretation fragment_envelope: signed_envelope
  "\<lambda>f. Some (fragment_canonical_bytes (fr_peer_pubkey f) (fr_message_id f) (fr_seq f) (fr_total f) (fr_payload f))"
  "\<lambda>f. Some (fr_peer_pubkey f)" fr_signature "\<lambda>f. fragment_verify E f = Ok ()"
  "\<lambda>pk m s. crypto_verify E pk m s = Ok ()" for E
  by unfold_locales (simp add: fragment_verify_def outcome_simps)

section \<open>The reassembler\<close>

record pending_message =
  pm_total :: u16
  pm_slots :: "bytes option list"
  pm_filled :: u16

type_synonym pending_queue = "(bytes \<times> pending_message) list"

record reassembler =
  rs_peers :: "(bytes, pending_queue) hmap"
  rs_evicted :: u64

definition reassembler_new :: reassembler where
  "reassembler_new = \<lparr>rs_peers = [], rs_evicted = 0\<rparr>"

definition evicted_count :: "reassembler \<Rightarrow> u64" where
  "evicted_count self = rs_evicted self"

definition peer_count :: "reassembler \<Rightarrow> nat" where
  "peer_count self = length (rs_peers self)"

definition queue_of :: "reassembler \<Rightarrow> bytes \<Rightarrow> pending_queue" where
  "queue_of self peer = (case map_of (rs_peers self) peer of Some q \<Rightarrow> q | None \<Rightarrow> [])"

definition in_flight_for :: "reassembler \<Rightarrow> bytes \<Rightarrow> nat" where
  "in_flight_for self peer_pubkey = length (queue_of self peer_pubkey)"

text \<open>\<open>iter().position(|(mid, _)| mid == id)\<close>\<close>

fun position_of :: "bytes \<Rightarrow> pending_queue \<Rightarrow> nat option" where
  "position_of mid [] = None"
| "position_of mid (e # q) = (if fst e = mid then Some 0 else map_option Suc (position_of mid q))"

text \<open>Steps 4 and 5 of \<open>feed\<close>, on the entry at \<open>idx\<close> of the peer's queue.\<close>

definition fill_slot :: "fragment \<Rightarrow> nat \<Rightarrow> pending_queue \<Rightarrow> reassembler \<Rightarrow>
    (bytes option, reassembly_error) result \<times> reassembler" where
  "fill_slot fragment idx queue self =
     (let peer = fr_peer_pubkey fragment; mid = fr_message_id fragment; seq = fr_seq fragment;
          pending = snd (queue ! idx);
          store = (\<lambda>q. self\<lparr>rs_peers := hm_insert peer q (rs_peers self)\<rparr>)
      in if length (pm_slots pending) \<le> unat seq then (Panic, store queue)
         else case pm_slots pending ! unat seq of
           Some existing \<Rightarrow>
             if existing \<noteq> fr_payload fragment then (Err (PayloadMismatch seq), store queue)
             else (Ok None, store queue)
         | None \<Rightarrow>
             let pending' = pending\<lparr>pm_slots := (pm_slots pending)[unat seq := Some (fr_payload fragment)],
                                   pm_filled := saturating_add (pm_filled pending) 1\<rparr>
             in if pm_filled pending' = pm_total pending'
                then let out = concat (List.map_filter id (pm_slots pending'));
                         queue' = filter (\<lambda>e. fst e \<noteq> mid) queue
                     in (Ok (Some out),
                         if queue' = [] then self\<lparr>rs_peers := hm_remove peer (rs_peers self)\<rparr> else store queue')
                else (Ok None, store (queue[idx := (fst (queue ! idx), pending')])))"

definition new_pending :: "u16 \<Rightarrow> pending_message" where
  "new_pending tot = \<lparr>pm_total = tot, pm_slots = replicate (unat tot) None, pm_filled = 0\<rparr>"

definition feed :: "('sk, 'vk, 'z) crypto_scheme \<Rightarrow> fragment \<Rightarrow> reassembler \<Rightarrow>
    (bytes option, reassembly_error) result \<times> reassembler" where
  "feed E fragment self =
     (case fragment_verify E fragment of
        Err e \<Rightarrow> (Err e, self) | Panic \<Rightarrow> (Panic, self)
      | Ok _ \<Rightarrow>
        let tot = fr_total fragment; seq = fr_seq fragment in
        if tot = 0 then (Err EmptyMessage, self)
        else if tot \<le> seq then (Err (SeqOutOfRange seq tot), self)
        else
          let queue = queue_of self (fr_peer_pubkey fragment) in
          case position_of (fr_message_id fragment) queue of
            Some idx \<Rightarrow>
              if pm_total (snd (queue ! idx)) \<noteq> tot
              then (Err (TotalMismatch tot (pm_total (snd (queue ! idx)))), self)
              else fill_slot fragment idx queue self
          | None \<Rightarrow>
              let full = MAX_INFLIGHT_MESSAGES_PER_PEER \<le> length queue;
                  queue' = (if full then drop 1 queue else queue)
                           @ [(fr_message_id fragment, new_pending tot)];
                  self' = (if full then self\<lparr>rs_evicted := saturating_add (rs_evicted self) 1\<rparr> else self)
              in fill_slot fragment (length queue' - 1) queue' self')"

section \<open>What the reassembler keeps\<close>

text \<open>The number of filled slots is the counter, and every filled slot holds a payload its sender signed.\<close>

definition filled_slots :: "bytes option list \<Rightarrow> nat" where
  "filled_slots slots = length (filter (\<lambda>s. s \<noteq> None) slots)"

definition signed_part ::
    "('sk, 'vk, 'z) crypto_scheme \<Rightarrow> fragment list \<Rightarrow> bytes \<Rightarrow> bytes \<Rightarrow> nat \<Rightarrow> nat \<Rightarrow> fragment \<Rightarrow> bool" where
  "signed_part E hist peer mid n i f \<longleftrightarrow> f \<in> set hist \<and> fragment_verify E f = Ok () \<and>
     fr_peer_pubkey f = peer \<and> fr_message_id f = mid \<and> unat (fr_total f) = n \<and> unat (fr_seq f) = i"

definition pending_ok ::
    "('sk, 'vk, 'z) crypto_scheme \<Rightarrow> fragment list \<Rightarrow> bytes \<Rightarrow> bytes \<Rightarrow> pending_message \<Rightarrow> bool" where
  "pending_ok E hist peer mid p \<longleftrightarrow>
     length (pm_slots p) = unat (pm_total p) \<and> unat (pm_filled p) = filled_slots (pm_slots p) \<and>
     pm_filled p < pm_total p \<and>
     (\<forall>i < length (pm_slots p). \<forall>d. pm_slots p ! i = Some d \<longrightarrow>
        (\<exists>f. signed_part E hist peer mid (unat (pm_total p)) i f \<and> fr_payload f = d))"

definition queue_ok ::
    "('sk, 'vk, 'z) crypto_scheme \<Rightarrow> fragment list \<Rightarrow> bytes \<Rightarrow> pending_queue \<Rightarrow> bool" where
  "queue_ok E hist peer q \<longleftrightarrow> length q \<le> MAX_INFLIGHT_MESSAGES_PER_PEER \<and> distinct (map fst q) \<and>
     (\<forall>e \<in> set q. pending_ok E hist peer (fst e) (snd e))"

definition reassembler_ok :: "('sk, 'vk, 'z) crypto_scheme \<Rightarrow> fragment list \<Rightarrow> reassembler \<Rightarrow> bool" where
  "reassembler_ok E hist r \<longleftrightarrow> hm_wf (rs_peers r) \<and> (\<forall>peer. queue_ok E hist peer (queue_of r peer)) \<and>
     (\<forall>peer. map_of (rs_peers r) peer \<noteq> Some [])"

text \<open>A reassembled message: the payloads, in order, of fragments that one peer signed for it.\<close>

definition signed_message :: "('sk, 'vk, 'z) crypto_scheme \<Rightarrow> fragment list \<Rightarrow> bytes \<Rightarrow> bytes \<Rightarrow> bytes \<Rightarrow> bool" where
  "signed_message E hist peer mid out \<longleftrightarrow> (\<exists>gs. gs \<noteq> [] \<and> out = concat (map fr_payload gs) \<and>
     (\<forall>i < length gs. signed_part E hist peer mid (length gs) i (gs ! i)))"

lemma filled_slots_update:
  "i < length xs \<Longrightarrow> xs ! i = None \<Longrightarrow> filled_slots (xs[i := Some d]) = Suc (filled_slots xs)"
proof (induction xs arbitrary: i)
  case (Cons x xs)
  then show ?case by (cases i) (auto simp: filled_slots_def)
qed simp

lemma filled_slots_all: "filled_slots xs = length xs \<longleftrightarrow> None \<notin> set xs"
proof (induction xs)
  case (Cons x xs)
  have "length (filter (\<lambda>s. \<exists>y. s = Some y) xs) \<noteq> Suc (length xs)"
    using length_filter_le[of "\<lambda>s. \<exists>y. s = Some y" xs] by linarith
  then show ?case using Cons by (cases x) (auto simp: filled_slots_def)
qed (simp add: filled_slots_def)

lemma filled_slots_replicate [simp]: "filled_slots (replicate n None) = 0"
  by (simp add: filled_slots_def)

lemma map_filter_id: "None \<notin> set xs \<Longrightarrow> List.map_filter id xs = map the xs"
proof (induction xs)
  case (Cons x xs)
  then show ?case by (cases x) (simp_all add: List.map_filter_simps)
qed (simp add: List.map_filter_simps)

lemma position_of_Some:
  "position_of mid q = Some idx \<Longrightarrow> idx < length q \<and> fst (q ! idx) = mid"
  by (induction q arbitrary: idx) (auto split: if_splits)

lemma position_of_None: "position_of mid q = None \<longleftrightarrow> mid \<notin> fst ` set q"
  by (induction q) auto

lemma pending_ok_log: "pending_ok E hist peer mid p \<Longrightarrow> set hist \<subseteq> set hist' \<Longrightarrow> pending_ok E hist' peer mid p"
  unfolding pending_ok_def signed_part_def by blast

lemma reassembler_ok_log:
  "reassembler_ok E hist r \<Longrightarrow> set hist \<subseteq> set hist' \<Longrightarrow> reassembler_ok E hist' r"
  unfolding reassembler_ok_def queue_ok_def using pending_ok_log by blast

lemma reassembler_new_ok: "reassembler_ok E hist reassembler_new"
  by (simp add: reassembler_ok_def reassembler_new_def queue_of_def queue_ok_def)

lemma reassembler_ok_store:
  assumes "reassembler_ok E hist r" "q \<noteq> []" "queue_ok E hist peer q"
  shows "reassembler_ok E hist (r\<lparr>rs_peers := hm_insert peer q (rs_peers r)\<rparr>)"
  using assms by (simp add: reassembler_ok_def queue_of_def)

lemma reassembler_ok_remove:
  "reassembler_ok E hist r \<Longrightarrow> reassembler_ok E hist (r\<lparr>rs_peers := hm_remove peer (rs_peers r)\<rparr>)"
  by (simp add: reassembler_ok_def queue_of_def queue_ok_def)

lemma queue_ok_update:
  assumes "queue_ok E hist peer q" "i < length q" "fst (q ! i) = mid" "pending_ok E hist peer mid p"
  shows "queue_ok E hist peer (q[i := (mid, p)])"
proof -
  have "map fst (q[i := (mid, p)]) = map fst q"
    using assms(2,3) by (metis fst_conv list_update_id map_update nth_map)
  then show ?thesis using assms set_update_subset_insert[of q i "(mid, p)"]
    unfolding queue_ok_def by (metis (no_types, lifting) insert_iff length_list_update fst_conv snd_conv subset_iff)
qed

lemma queue_ok_filter: "queue_ok E hist peer q \<Longrightarrow> queue_ok E hist peer (filter P q)"
  unfolding queue_ok_def by (auto simp: distinct_map_filter intro: le_trans[OF length_filter_le])

lemma queue_ok_open:
  assumes "queue_ok E hist peer q" "mid \<notin> fst ` set q" "tot \<noteq> 0"
  shows "queue_ok E hist peer ((if MAX_INFLIGHT_MESSAGES_PER_PEER \<le> length q then drop 1 q else q)
    @ [(mid, new_pending tot)])"
proof -
  let ?q = "if MAX_INFLIGHT_MESSAGES_PER_PEER \<le> length q then drop 1 q else q"
  have sub: "set ?q \<subseteq> set q" by (auto dest: in_set_dropD)
  have "length ?q < MAX_INFLIGHT_MESSAGES_PER_PEER"
    using assms(1) by (auto simp: queue_ok_def MAX_INFLIGHT_MESSAGES_PER_PEER_def)
  moreover have "distinct (map fst ?q)"
    using assms(1) by (simp add: queue_ok_def drop_map[symmetric] distinct_drop)
  moreover have "pending_ok E hist peer mid (new_pending tot)"
    using assms(3) by (simp add: pending_ok_def new_pending_def word_neq_0_conv)
  ultimately show ?thesis using assms(1,2) sub by (auto simp: queue_ok_def)
qed

section \<open>Feeding a fragment\<close>

lemma signed_message_complete:
  assumes n: "0 < unat (pm_total p)" and len: "length (pm_slots p) = unat (pm_total p)"
    and full: "None \<notin> set (pm_slots p)"
    and parts: "\<And>i d. i < length (pm_slots p) \<Longrightarrow> pm_slots p ! i = Some d \<Longrightarrow>
      \<exists>f. signed_part E hist peer mid (unat (pm_total p)) i f \<and> fr_payload f = d"
  shows "signed_message E hist peer mid (concat (List.map_filter id (pm_slots p)))"
proof -
  let ?n = "unat (pm_total p)"
  have "\<forall>i. \<exists>f. i < ?n \<longrightarrow> signed_part E hist peer mid ?n i f \<and> fr_payload f = the (pm_slots p ! i)"
  proof
    fix i
    show "\<exists>f. i < ?n \<longrightarrow> signed_part E hist peer mid ?n i f \<and> fr_payload f = the (pm_slots p ! i)"
    proof (cases "i < ?n")
      case True
      then have "pm_slots p ! i \<in> set (pm_slots p)" using len by simp
      then obtain d where "pm_slots p ! i = Some d" using full by (metis not_None_eq)
      then show ?thesis using parts[of i d] True len by auto
    qed simp
  qed
  then obtain g where g: "\<And>i. i < ?n \<Longrightarrow> signed_part E hist peer mid ?n i (g i) \<and> fr_payload (g i) = the (pm_slots p ! i)"
    by metis
  let ?gs = "map g [0..<?n]"
  have "map fr_payload ?gs = map the (pm_slots p)"
    using g len by (intro nth_equalityI) simp_all
  then have "concat (List.map_filter id (pm_slots p)) = concat (map fr_payload ?gs)"
    using full by (simp add: map_filter_id)
  moreover have "?gs \<noteq> []" using n by simp
  moreover have "\<forall>i < length ?gs. signed_part E hist peer mid (length ?gs) i (?gs ! i)" using g by simp
  ultimately show ?thesis unfolding signed_message_def by blast
qed

lemma fill_slot_ok:
  assumes inv: "reassembler_ok E hist r" and q: "queue_ok E hist peer q" and i: "i < length q"
    and at: "q ! i = (mid, p)" "pm_total p = tot"
    and f: "signed_part E hist peer mid (unat tot) (unat (fr_seq f)) f" "fr_seq f < tot"
    and r: "fill_slot f i q r = (res, r')"
  shows "reassembler_ok E hist r' \<and> res \<noteq> Panic \<and> (\<forall>out. res = Ok (Some out) \<longrightarrow> signed_message E hist peer mid out)"
proof -
  have peer: "fr_peer_pubkey f = peer" "fr_message_id f = mid" using f by (auto simp: signed_part_def)
  have p: "pending_ok E hist peer mid p" using q i at unfolding queue_ok_def by (metis fst_conv nth_mem snd_conv)
  let ?s = "unat (fr_seq f)"
  have s: "?s < length (pm_slots p)" using p f(2) at(2) by (simp add: pending_ok_def word_less_nat_alt)
  have ne: "q \<noteq> []" using i by auto
  let ?p = "p\<lparr>pm_slots := (pm_slots p)[?s := Some (fr_payload f)], pm_filled := saturating_add (pm_filled p) 1\<rparr>"
  show ?thesis
  proof (cases "pm_slots p ! ?s")
    case (Some d)
    then show ?thesis using r s at peer reassembler_ok_store[OF inv ne q]
      by (auto simp: fill_slot_def Let_def split: if_splits)
  next
    case None
    have lt: "pm_filled p < tot" using p at(2) by (simp add: pending_ok_def)
    have "unat tot < 2 ^ LENGTH(16)" by (rule unsigned_less)
    then have cnt: "unat (pm_filled ?p) = Suc (unat (pm_filled p))"
      using lt by (simp add: unat_saturating_add word_less_nat_alt)
    have parts: "\<exists>g. signed_part E hist peer mid (unat (pm_total ?p)) j g \<and> fr_payload g = d"
      if "j < length (pm_slots ?p)" "pm_slots ?p ! j = Some d" for j d
    proof (cases "j = ?s")
      case True then show ?thesis using that f(1) s at(2) by auto
    next
      case False then show ?thesis using that p by (auto simp: pending_ok_def)
    qed
    have fl: "filled_slots (pm_slots ?p) = Suc (unat (pm_filled p))"
      using p s None by (simp add: pending_ok_def filled_slots_update)
    show ?thesis
    proof (cases "pm_filled ?p = tot")
      case True
      have "None \<notin> set (pm_slots ?p)"
        using True cnt fl p at(2) by (simp add: filled_slots_all[symmetric] pending_ok_def)
      moreover have "0 < unat (pm_total ?p)" using lt at(2) by (simp add: word_less_nat_alt)
      ultimately have "signed_message E hist peer mid (concat (List.map_filter id (pm_slots ?p)))"
        using parts p by (intro signed_message_complete) (simp_all add: pending_ok_def)
      then show ?thesis using r s at peer None True reassembler_ok_remove[OF inv]
          reassembler_ok_store[OF inv _ queue_ok_filter[OF q]]
        by (auto simp: fill_slot_def Let_def split: if_splits)
    next
      case False
      have "pm_filled ?p < pm_total ?p" using False lt cnt at(2) by (simp add: word_less_nat_alt word_unat_eq_iff)
      moreover have "length (pm_slots ?p) = unat (pm_total ?p)" using p by (simp add: pending_ok_def)
      moreover have "unat (pm_filled ?p) = filled_slots (pm_slots ?p)" using cnt fl by simp
      ultimately have "pending_ok E hist peer mid ?p" using parts unfolding pending_ok_def by blast
      then have "queue_ok E hist peer (q[i := (mid, ?p)])" using queue_ok_update[OF q i] at(1) by simp
      then show ?thesis using r s at peer None False reassembler_ok_store[OF inv, of "q[i := (mid, ?p)]"] ne
        by (auto simp: fill_slot_def Let_def)
    qed
  qed
qed

lemma feed_ok:
  assumes inv: "reassembler_ok E hist r" and E: "ed25519_laws E" and hist: "f \<in> set hist"
    and r: "feed E f r = (res, r')"
  shows "reassembler_ok E hist r' \<and> res \<noteq> Panic \<and>
    (\<forall>out. res = Ok (Some out) \<longrightarrow> signed_message E hist (fr_peer_pubkey f) (fr_message_id f) out)"
proof (cases "fragment_verify E f = Ok () \<and> fr_total f \<noteq> 0 \<and> fr_seq f < fr_total f")
  case False
  have "fragment_verify E f \<noteq> Panic"
    using crypto_verify_no_panic[OF E] by (simp add: fragment_verify_def outcome_simps)
  then show ?thesis using False inv r
    by (auto simp: feed_def Let_def not_less split: result.splits if_splits)
next
  case True
  let ?q = "queue_of r (fr_peer_pubkey f)"
  have q: "queue_ok E hist (fr_peer_pubkey f) ?q" using inv by (simp add: reassembler_ok_def)
  have part: "signed_part E hist (fr_peer_pubkey f) (fr_message_id f) (unat (fr_total f)) (unat (fr_seq f)) f"
    using True hist by (simp add: signed_part_def)
  have seq: "\<not> fr_total f \<le> fr_seq f" using True by (simp add: not_le)
  show ?thesis
  proof (cases "position_of (fr_message_id f) ?q")
    case (Some i)
    note pos = position_of_Some[OF Some]
    show ?thesis
    proof (cases "pm_total (snd (?q ! i)) = fr_total f")
      case False
      then show ?thesis using True Some seq r inv by (auto simp: feed_def Let_def)
    next
      case same: True
      have "fill_slot f i ?q r = (res, r')" using r True Some seq same by (simp add: feed_def Let_def)
      then show ?thesis
        using fill_slot_ok[OF inv q conjunct1[OF pos] _ same part] True pos by (simp add: prod_eq_iff)
    qed
  next
    case None
    let ?full = "MAX_INFLIGHT_MESSAGES_PER_PEER \<le> length ?q"
    let ?q' = "(if ?full then drop 1 ?q else ?q) @ [(fr_message_id f, new_pending (fr_total f))]"
    let ?r = "if ?full then r\<lparr>rs_evicted := saturating_add (rs_evicted r) 1\<rparr> else r"
    have "reassembler_ok E hist ?r" using inv by (simp add: reassembler_ok_def queue_of_def)
    moreover have "queue_ok E hist (fr_peer_pubkey f) ?q'"
      using None True q by (intro queue_ok_open) (simp_all add: position_of_None)
    moreover have "?q' ! (length ?q' - 1) = (fr_message_id f, new_pending (fr_total f))" by (simp add: nth_append)
    moreover have "fill_slot f (length ?q' - 1) ?q' ?r = (res, r')"
      using r True None seq by (simp add: feed_def Let_def)
    ultimately show ?thesis
      using fill_slot_ok[of E hist ?r "fr_peer_pubkey f" ?q' "length ?q' - 1" "fr_message_id f"
          "new_pending (fr_total f)" "fr_total f" f res r'] True part
      by (simp add: new_pending_def)
  qed
qed

text \<open>A run keeps the fragments it was fed as a log.\<close>

definition feed_step :: "('sk, 'vk, 'z) crypto_scheme \<Rightarrow> fragment \<Rightarrow> fragment list \<times> reassembler \<Rightarrow> fragment list \<times> reassembler" where
  "feed_step E f s = (fst s @ [f], snd (feed E f (snd s)))"

interpretation reassembly: state_inv
  "\<lambda>s. ed25519_laws E \<longrightarrow> reassembler_ok E (fst s) (snd s)" "feed_step E" for E
proof
  fix s f assume inv: "ed25519_laws E \<longrightarrow> reassembler_ok E (fst s) (snd s)"
  show "ed25519_laws E \<longrightarrow> reassembler_ok E (fst (feed_step E f s)) (snd (feed_step E f s))"
    using inv feed_ok[of E "fst s @ [f]" "snd s" f] reassembler_ok_log[of E "fst s" "snd s" "fst s @ [f]"]
    by (auto simp: feed_step_def prod_eq_iff)
qed

lemma fst_feed_steps: "fst (fold (feed_step E) fs s) = fst s @ fs"
  by (induction fs arbitrary: s) (simp_all add: feed_step_def)

lemma feeds_ok:
  "ed25519_laws E \<Longrightarrow> reassembler_ok E fs (snd (fold (feed_step E) fs ([], reassembler_new)))"
  using reassembly.run_inv[of E "([], reassembler_new)" fs] fst_feed_steps[of E fs "([], reassembler_new)"]
  by (simp add: reassembler_new_ok)

section \<open>A message arrives, in any order\<close>

fun feed_all :: "('sk, 'vk, 'z) crypto_scheme \<Rightarrow> fragment list \<Rightarrow> reassembler \<Rightarrow>
    (bytes option, reassembly_error) result list" where
  "feed_all E [] r = []"
| "feed_all E (f # fs) r = fst (feed E f r) # feed_all E fs (snd (feed E f r))"

text \<open>The fragments of one message that a sender signed, with \<open>chunk i\<close> the payload of number \<open>i\<close>.\<close>

definition honest_part ::
    "('sk, 'vk, 'z) crypto_scheme \<Rightarrow> bytes \<Rightarrow> bytes \<Rightarrow> u16 \<Rightarrow> (nat \<Rightarrow> bytes) \<Rightarrow> fragment \<Rightarrow> bool" where
  "honest_part E peer mid n chunk f \<longleftrightarrow> fragment_verify E f = Ok () \<and> fr_peer_pubkey f = peer \<and>
     fr_message_id f = mid \<and> fr_total f = n \<and> fr_seq f < n \<and> fr_payload f = chunk (unat (fr_seq f))"

definition holds_parts ::
    "bytes \<Rightarrow> bytes \<Rightarrow> u16 \<Rightarrow> (nat \<Rightarrow> bytes) \<Rightarrow> nat set \<Rightarrow> pending_message \<Rightarrow> bool" where
  "holds_parts peer mid n chunk S p \<longleftrightarrow> pm_total p = n \<and>
     pm_slots p = map (\<lambda>i. if i \<in> S then Some (chunk i) else None) [0..<unat n] \<and> unat (pm_filled p) = card S"

lemma position_of_cong: "map fst q = map fst q' \<Longrightarrow> position_of mid q = position_of mid q'"
proof (induction q arbitrary: q')
  case (Cons e q)
  then show ?case by (cases q') auto
qed simp

lemma position_of_snoc: "mid \<notin> fst ` set q \<Longrightarrow> position_of mid (q @ [(mid, p)]) = Some (length q)"
  by (induction q) auto

lemma fill_honest:
  assumes f: "honest_part E peer mid n chunk f" and pos: "position_of mid q = Some i"
    and p: "holds_parts peer mid n chunk S (snd (q ! i))" and S: "S \<subset> {..<unat n}" "unat (fr_seq f) \<notin> S"
    and r: "fill_slot f i q r = (res, r')"
  shows "if Suc (card S) = unat n then res = Ok (Some (concat (map chunk [0..<unat n])))
    else res = Ok None \<and> (\<exists>j. position_of mid (queue_of r' peer) = Some j \<and>
      holds_parts peer mid n chunk (insert (unat (fr_seq f)) S) (snd (queue_of r' peer ! j)))"
proof -
  let ?s = "unat (fr_seq f)" and ?p = "snd (q ! i)"
  let ?S = "insert ?s S"
  let ?slots = "map (\<lambda>j. if j \<in> ?S then Some (chunk j) else None) [0..<unat n]"
  have s: "?s < unat n" using f by (simp add: honest_part_def word_less_nat_alt)
  have fin: "finite S" using S(1) finite_subset by blast
  have slot: "pm_slots ?p ! ?s = None" "length (pm_slots ?p) = unat n" using p s S(2) by (simp_all add: holds_parts_def)
  have upd: "(pm_slots ?p)[?s := Some (fr_payload f)] = ?slots"
    using p s f by (intro nth_equalityI) (auto simp: holds_parts_def nth_list_update honest_part_def)
  have card: "card S < unat n" using psubset_card_mono[OF _ S(1)] by simp
  have "unat n < 2 ^ LENGTH(16)" by (rule unsigned_less)
  then have cnt: "unat (saturating_add (pm_filled ?p) 1) = Suc (card S)"
    using p card by (simp add: unat_saturating_add holds_parts_def)
  have tot: "pm_total ?p = n" using p by (simp add: holds_parts_def)
  have id: "fr_peer_pubkey f = peer" "fr_message_id f = mid" using f by (auto simp: honest_part_def)
  show ?thesis
  proof (cases "Suc (card S) = unat n")
    case True
    have full: "saturating_add (pm_filled ?p) 1 = n" using cnt True by (simp add: word_unat_eq_iff)
    have "card ?S = unat n" using True S(2) fin by simp
    moreover have "?S \<subseteq> {..<unat n}" using S(1) s by auto
    ultimately have "?S = {..<unat n}" by (intro card_subset_eq) simp_all
    then have "?slots = map (\<lambda>j. Some (chunk j)) [0..<unat n]" by simp
    then have "List.map_filter id ?slots = map chunk [0..<unat n]" by (simp add: List.map_filter_def comp_def)
    then have "res = Ok (Some (concat (map chunk [0..<unat n])))"
      using r s slot upd full tot by (simp add: fill_slot_def Let_def split: if_splits)
    then show ?thesis using True by simp
  next
    case False
    have nf: "saturating_add (pm_filled ?p) 1 \<noteq> n" using cnt False by (auto simp: word_unat_eq_iff)
    let ?p' = "?p\<lparr>pm_slots := ?slots, pm_filled := saturating_add (pm_filled ?p) 1\<rparr>"
    let ?q = "q[i := (fst (q ! i), ?p')]"
    have "res = Ok None" "queue_of r' peer = ?q"
      using r s slot upd nf tot id by (auto simp: fill_slot_def Let_def queue_of_def)
    moreover have "map fst ?q = map fst q"
      using position_of_Some[OF pos] by (simp add: map_update list_update_same_conv)
    then have "position_of mid ?q = Some i" using pos position_of_cong[of ?q q mid] by simp
    moreover have "holds_parts peer mid n chunk ?S ?p'"
      using cnt tot fin S(2) by (simp add: holds_parts_def)
    moreover have "snd (?q ! i) = ?p'" using position_of_Some[OF pos] by simp
    ultimately show ?thesis using False by auto
  qed
qed

lemma feed_honest:
  assumes f: "honest_part E peer mid n chunk f"
    and st: "(S = {} \<and> position_of mid (queue_of r peer) = None) \<or>
      (\<exists>i. position_of mid (queue_of r peer) = Some i \<and> holds_parts peer mid n chunk S (snd (queue_of r peer ! i)))"
    and S: "S \<subset> {..<unat n}" "unat (fr_seq f) \<notin> S"
  shows "if Suc (card S) = unat n then fst (feed E f r) = Ok (Some (concat (map chunk [0..<unat n])))
    else fst (feed E f r) = Ok None \<and> (\<exists>j. position_of mid (queue_of (snd (feed E f r)) peer) = Some j \<and>
      holds_parts peer mid n chunk (insert (unat (fr_seq f)) S) (snd (queue_of (snd (feed E f r)) peer ! j)))"
proof -
  have v: "fragment_verify E f = Ok ()" "fr_peer_pubkey f = peer" "fr_message_id f = mid" "fr_total f = n"
    "fr_total f \<noteq> 0" "\<not> fr_total f \<le> fr_seq f"
    using f by (auto simp: honest_part_def not_le)
  have "\<exists>q i r'. feed E f r = fill_slot f i q r' \<and> position_of mid q = Some i \<and> holds_parts peer mid n chunk S (snd (q ! i))"
  proof (cases "position_of mid (queue_of r peer)")
    case (Some i)
    then have "holds_parts peer mid n chunk S (snd (queue_of r peer ! i))" using st by auto
    moreover have "feed E f r = fill_slot f i (queue_of r peer) r"
      using v Some calculation by (simp add: feed_def Let_def holds_parts_def)
    ultimately show ?thesis using Some by blast
  next
    case None
    let ?full = "MAX_INFLIGHT_MESSAGES_PER_PEER \<le> length (queue_of r peer)"
    let ?q = "if ?full then drop 1 (queue_of r peer) else queue_of r peer"
    let ?r = "if ?full then r\<lparr>rs_evicted := saturating_add (rs_evicted r) 1\<rparr> else r"
    have "mid \<notin> fst ` set ?q" using None by (auto simp: position_of_None dest: in_set_dropD)
    then have "position_of mid (?q @ [(mid, new_pending n)]) = Some (length ?q)" by (rule position_of_snoc)
    moreover have "holds_parts peer mid n chunk S (snd ((?q @ [(mid, new_pending n)]) ! length ?q))"
      using st None by (auto simp: holds_parts_def new_pending_def map_replicate_const)
    moreover have "feed E f r = fill_slot f (length (?q @ [(mid, new_pending n)]) - 1) (?q @ [(mid, new_pending n)]) ?r"
      using v None by (simp add: feed_def Let_def)
    then have "feed E f r = fill_slot f (length ?q) (?q @ [(mid, new_pending n)]) ?r" by simp
    ultimately show ?thesis by blast
  qed
  then obtain q i r' where eq: "feed E f r = fill_slot f i q r'" and pos: "position_of mid q = Some i"
    and h: "holds_parts peer mid n chunk S (snd (q ! i))" by blast
  have "fill_slot f i q r' = (fst (feed E f r), snd (feed E f r))" using eq by simp
  from fill_honest[OF f pos h S this] show ?thesis .
qed

lemma feed_all_honest:
  assumes "\<forall>f \<in> set fs. honest_part E peer mid n chunk f" "distinct (map fr_seq fs)" "fs \<noteq> []"
    and "S \<union> (\<lambda>f. unat (fr_seq f)) ` set fs = {..<unat n}" "S \<inter> (\<lambda>f. unat (fr_seq f)) ` set fs = {}"
    and "(S = {} \<and> position_of mid (queue_of r peer) = None) \<or>
      (\<exists>i. position_of mid (queue_of r peer) = Some i \<and> holds_parts peer mid n chunk S (snd (queue_of r peer ! i)))"
  shows "feed_all E fs r = replicate (length fs - 1) (Ok None) @ [Ok (Some (concat (map chunk [0..<unat n])))]"
  using assms
proof (induction fs arbitrary: S r)
  case (Cons f fs)
  let ?s = "unat (fr_seq f)"
  have s: "?s \<notin> S" "?s < unat n" using Cons.prems(4,5) by auto
  have fin: "finite S" by (rule finite_subset[of _ "{..<unat n}"]) (use Cons.prems(4) in auto)
  have "S \<subset> {..<unat n}" using Cons.prems(4) s by auto
  with feed_honest[of E peer mid n chunk f S r] Cons.prems(1,6) s
  have step: "if Suc (card S) = unat n then fst (feed E f r) = Ok (Some (concat (map chunk [0..<unat n])))
    else fst (feed E f r) = Ok None \<and> (\<exists>j. position_of mid (queue_of (snd (feed E f r)) peer) = Some j \<and>
      holds_parts peer mid n chunk (insert ?s S) (snd (queue_of (snd (feed E f r)) peer ! j)))" by auto
  have cover: "insert ?s S \<union> (\<lambda>f. unat (fr_seq f)) ` set fs = {..<unat n}" using Cons.prems(4) by auto
  have disj: "insert ?s S \<inter> (\<lambda>f. unat (fr_seq f)) ` set fs = {}"
    using Cons.prems(2,5) by (auto simp: word_unat_eq_iff[symmetric])
  show ?case
  proof (cases "fs = []")
    case True
    then have "card {..<unat n} = Suc (card S)" using cover s(1) fin by (simp add: lessThan_atLeast0[symmetric] flip: cover)
    then show ?thesis using True step by simp
  next
    case False
    then obtain g where g: "g \<in> set fs" by (cases fs) auto
    have "insert ?s S \<noteq> {..<unat n}" using g cover disj by blast
    moreover have "insert ?s S \<subseteq> {..<unat n}" using cover by auto
    ultimately have "card (insert ?s S) < card {..<unat n}" by (intro psubset_card_mono) auto
    then have "Suc (card S) \<noteq> unat n" using s(1) fin by simp
    then have "fst (feed E f r) = Ok None" "feed_all E fs (snd (feed E f r)) =
      replicate (length fs - 1) (Ok None) @ [Ok (Some (concat (map chunk [0..<unat n])))]"
      using step Cons.IH[of "insert ?s S" "snd (feed E f r)"] Cons.prems(1,2) cover disj False by auto
    then show ?thesis using False by (cases fs) simp_all
  qed
qed simp

text \<open>A completed message is forgotten, so a message of one fragment is delivered again at each repeat.\<close>

lemma fill_slot_forgets:
  "fill_slot f i q r = (Ok (Some out), r') \<Longrightarrow> position_of (fr_message_id f) (queue_of r' (fr_peer_pubkey f)) = None"
  by (auto simp: fill_slot_def Let_def queue_of_def position_of_None split: if_splits option.splits)

lemma feed_forgets:
  "feed E f r = (Ok (Some out), r') \<Longrightarrow> position_of (fr_message_id f) (queue_of r' (fr_peer_pubkey f)) = None"
  by (auto simp: feed_def Let_def split: result.splits if_splits option.splits dest: fill_slot_forgets)

lemma feed_redelivers:
  assumes f: "honest_part E peer mid 1 chunk f" and free: "position_of mid (queue_of r peer) = None"
  shows "feed_all E [f, f] r = [Ok (Some (chunk 0)), Ok (Some (chunk 0))]"
proof -
  have one: "fst (feed E f r) = Ok (Some (chunk 0))" if "position_of mid (queue_of r peer) = None" for r
    using feed_all_honest[of "[f]" E peer mid 1 chunk "{}" r] f that by (auto simp: honest_part_def)
  have "position_of mid (queue_of (snd (feed E f r)) peer) = None"
    using feed_forgets[of E f r "chunk 0" "snd (feed E f r)"] one[OF free] f
    by (simp add: honest_part_def prod_eq_iff)
  then show ?thesis using one free by simp
qed

lemma feed_all_complete:
  assumes "\<forall>f \<in> set fs. honest_part E peer mid n chunk f" "distinct (map fr_seq fs)"
    and "(\<lambda>f. unat (fr_seq f)) ` set fs = {..<unat n}" "0 < n" "position_of mid (queue_of r peer) = None"
  shows "feed_all E fs r = replicate (length fs - 1) (Ok None) @ [Ok (Some (concat (map chunk [0..<unat n])))]"
proof -
  have "0 < unat n" using assms(4) by (simp add: unat_gt_0 word_gt_0)
  then have "fs \<noteq> []" using assms(3) by auto
  then show ?thesis using feed_all_honest[OF assms(1,2), of "{}" r] assms(3,5) by simp
qed

text \<open>A message as its sender cuts and signs it: the parts are numbered from zero.\<close>

definition sealed_fragment ::
    "('sk, 'vk, 'z) crypto_scheme \<Rightarrow> 'sk \<Rightarrow> bytes \<Rightarrow> bytes list \<Rightarrow> nat \<Rightarrow> fragment" where
  "sealed_fragment E signing_key mid parts i =
     \<lparr>fr_peer_pubkey = pubkey_of E signing_key, fr_message_id = mid, fr_seq = of_nat i,
      fr_total = of_nat (length parts),
      fr_signature = crypto_sign E signing_key (fragment_canonical_bytes (pubkey_of E signing_key) mid
        (of_nat i) (of_nat (length parts)) (parts ! i)),
      fr_payload = parts ! i\<rparr>"

lemma sealed_parts_delivered:
  assumes E: "ed25519_laws E" and parts: "0 < length parts" "length parts < 2 ^ 16"
    and fs: "mset fs = mset (map (sealed_fragment E k mid parts) [0..<length parts])"
    and free: "position_of mid (queue_of r (pubkey_of E k)) = None"
  shows "feed_all E fs r = replicate (length parts - 1) (Ok None) @ [Ok (Some (concat parts))]"
proof -
  let ?n = "of_nat (length parts) :: u16" and ?sealed = "map (sealed_fragment E k mid parts) [0..<length parts]"
  have n: "unat ?n = length parts" using parts by (simp add: unat_of_nat take_bit_nat_eq_self)
  have seq: "unat (fr_seq (sealed_fragment E k mid parts i)) = i" if "i < length parts" for i
    using that parts by (simp add: sealed_fragment_def unat_of_nat take_bit_nat_eq_self)
  have set: "set fs = set ?sealed" using fs by (metis set_mset_mset)
  have "honest_part E (pubkey_of E k) mid ?n (\<lambda>i. parts ! i) (sealed_fragment E k mid parts i)"
    if "i < length parts" for i
  proof -
    have "fr_seq (sealed_fragment E k mid parts i) < ?n" using seq[OF that] that n by (simp add: word_less_nat_alt)
    then show ?thesis
      using seq[OF that] E verify_signed[OF E]
      by (simp add: honest_part_def sealed_fragment_def fragment_verify_def)
  qed
  then have honest: "\<forall>f \<in> set fs. honest_part E (pubkey_of E k) mid ?n (\<lambda>i. parts ! i) f"
    by (auto simp: set)
  have seqs: "map (\<lambda>f. unat (fr_seq f)) ?sealed = [0..<length parts]"
    by (intro nth_equalityI) (simp_all add: seq)
  have mseqs: "mset (map (\<lambda>f. unat (fr_seq f)) fs) = mset [0..<length parts]"
    using arg_cong[OF fs, of "image_mset (\<lambda>f. unat (fr_seq f))"] seqs by (metis mset_map)
  then have "distinct (map (\<lambda>f. unat (fr_seq f)) fs)" by (metis distinct_upt mset_eq_imp_distinct_iff)
  then have dist: "distinct (map fr_seq fs)" by (simp add: distinct_map inj_on_def)
  have "(\<lambda>f. unat (fr_seq f)) ` set fs = {..<unat ?n}"
    using arg_cong[OF mseqs, of set_mset] by (simp add: n atLeast0LessThan)
  moreover have "0 < ?n" using n parts by (simp add: word_less_nat_alt)
  moreover have "length fs = length parts" using arg_cong[OF fs, of size] by simp
  ultimately show ?thesis
    using feed_all_complete[OF honest dist _ _ free] n by (simp add: map_nth)
qed

end
