(* ===== verification/Transport.thy ===== *)
theory Transport
  imports Crypto Interfaces
begin

text \<open>
  Crate \<open>arxia-transport\<close>, files \<open>traits.rs\<close> and \<open>sim/simulated.rs\<close>: transport messages, their
  signed form, and the simulated transport with its bounded queues, its xorshift generator and
  its loss rate, an \<open>f64\<close>.
\<close>

section \<open>Signed messages\<close>

definition TRANSPORT_MESSAGE_DOMAIN :: bytes where
  "TRANSPORT_MESSAGE_DOMAIN = str_bytes ''arxia-transport-msg-v1''"

record transport_message =
  tm_from :: string
  tm_to :: string
  tm_payload :: bytes
  tm_timestamp :: u64

record signed_transport_message =
  st_message :: transport_message
  st_signature :: bytes

datatype transport_error =
    PayloadTooLarge nat nat
  | Disconnected
  | MessageLost
  | BackPressure nat
  | InvalidFromField
  | TransportSignatureInvalid
  | OtherTransport string

definition u32_try_from :: "nat \<Rightarrow> u32 option" where
  "u32_try_from n = (if n < 2 ^ 32 then Some (of_nat n) else None)"

definition transport_canonical_bytes ::
    "('sk, 'vk, 'z) crypto_scheme \<Rightarrow> transport_message \<Rightarrow> (bytes, transport_error) result" where
  "transport_canonical_bytes E msg =
     and_then (map_err (\<lambda>_. InvalidFromField) (hex_decode E (tm_from msg))) (\<lambda>from_pk_vec.
     and_then (fail_if (length from_pk_vec \<noteq> 32) InvalidFromField) (\<lambda>_.
     and_then (ok_or (u32_try_from (length (tm_to msg))) InvalidFromField) (\<lambda>to_len.
     and_then (ok_or (u32_try_from (length (tm_payload msg))) InvalidFromField) (\<lambda>payload_len.
       Ok (TRANSPORT_MESSAGE_DOMAIN @ from_pk_vec @ u32_to_le to_len @ str_bytes (tm_to msg)
           @ u32_to_le payload_len @ tm_payload msg @ u64_to_be (tm_timestamp msg))))))"

text \<open>\<open>expect\<close>: a panic when the canonical bytes cannot be built.\<close>

definition transport_sign ::
    "('sk, 'vk, 'z) crypto_scheme \<Rightarrow> 'sk \<Rightarrow> string \<Rightarrow> bytes \<Rightarrow> u64 \<Rightarrow> (signed_transport_message, unit) result" where
  "transport_sign E signing_key dest payload timestamp =
     (let pk = vk_to_bytes E (sk_verifying_key E signing_key);
          message = \<lparr>tm_from = hex_encode E pk, tm_to = dest, tm_payload = payload, tm_timestamp = timestamp\<rparr>
      in case transport_canonical_bytes E message of
           Ok canonical \<Rightarrow> Ok \<lparr>st_message = message, st_signature = crypto_sign E signing_key canonical\<rparr>
         | Err e \<Rightarrow> Panic | Panic \<Rightarrow> Panic)"

definition transport_verify ::
    "('sk, 'vk, 'z) crypto_scheme \<Rightarrow> signed_transport_message \<Rightarrow> (unit, transport_error) result" where
  "transport_verify E self =
     and_then (map_err (\<lambda>_. InvalidFromField) (hex_decode E (tm_from (st_message self)))) (\<lambda>v.
     and_then (ok_or (to_array 32 v) InvalidFromField) (\<lambda>from_pk.
     and_then (transport_canonical_bytes E (st_message self)) (\<lambda>canonical.
     and_then (map_err (\<lambda>_. TransportSignatureInvalid) (crypto_verify E from_pk canonical (st_signature self)))
       (\<lambda>_. Ok ()))))"

lemma u32_try_from_Some: "u32_try_from n = Some x \<longleftrightarrow> n < 2 ^ 32 \<and> unat x = n"
  by (auto simp: u32_try_from_def unat_of_nat word_unat_eq_iff)

text \<open>The signed bytes determine the sender's key and the other fields.\<close>

lemma transport_canonical_Ok:
  assumes "transport_canonical_bytes E m = Ok c"
  shows "\<exists>k. hex_decode E (tm_from m) = Ok k \<and> length k = 32 \<and>
    length (tm_to m) < 2 ^ 32 \<and> length (tm_payload m) < 2 ^ 32 \<and>
    c = TRANSPORT_MESSAGE_DOMAIN @ k @ u32_to_le (of_nat (length (tm_to m))) @ str_bytes (tm_to m)
      @ u32_to_le (of_nat (length (tm_payload m))) @ tm_payload m @ u64_to_be (tm_timestamp m)"
  using assms by (simp add: transport_canonical_bytes_def outcome_simps u32_try_from_def split: if_splits) blast

lemma u32_of_nat_inj: "n < 2 ^ 32 \<Longrightarrow> m < 2 ^ 32 \<Longrightarrow> (of_nat n :: u32) = of_nat m \<longleftrightarrow> n = m"
  by (simp add: word_unat_eq_iff unat_of_nat)

lemma transport_canonical_inj:
  assumes "transport_canonical_bytes E m = Ok c" "transport_canonical_bytes E m' = Ok c"
  shows "hex_decode E (tm_from m) = hex_decode E (tm_from m') \<and> tm_to m = tm_to m' \<and>
    tm_payload m = tm_payload m' \<and> tm_timestamp m = tm_timestamp m'"
proof -
  from transport_canonical_Ok[OF assms(1)] obtain k where k: "hex_decode E (tm_from m) = Ok k" "length k = 32"
    "length (tm_to m) < 2 ^ 32" and
    c: "c = TRANSPORT_MESSAGE_DOMAIN @ k @ u32_to_le (of_nat (length (tm_to m))) @ str_bytes (tm_to m)
      @ u32_to_le (of_nat (length (tm_payload m))) @ tm_payload m @ u64_to_be (tm_timestamp m)" by blast
  from transport_canonical_Ok[OF assms(2)] obtain k' where k': "hex_decode E (tm_from m') = Ok k'" "length k' = 32"
    "length (tm_to m') < 2 ^ 32" and
    c': "c = TRANSPORT_MESSAGE_DOMAIN @ k' @ u32_to_le (of_nat (length (tm_to m'))) @ str_bytes (tm_to m')
      @ u32_to_le (of_nat (length (tm_payload m'))) @ tm_payload m' @ u64_to_be (tm_timestamp m')" by blast
  note eq = trans[OF c[symmetric] c', unfolded same_append_eq]
  have "k = k' \<and> u32_to_le (of_nat (length (tm_to m))) @ str_bytes (tm_to m)
      @ u32_to_le (of_nat (length (tm_payload m))) @ tm_payload m @ u64_to_be (tm_timestamp m)
    = u32_to_le (of_nat (length (tm_to m'))) @ str_bytes (tm_to m')
      @ u32_to_le (of_nat (length (tm_payload m'))) @ tm_payload m' @ u64_to_be (tm_timestamp m')"
    using eq k(2) k'(2) by simp
  moreover from this have "length (tm_to m) = length (tm_to m')"
    using k(3) k'(3) by (simp add: u32_of_nat_inj)
  ultimately show ?thesis using k(1) k'(1) by simp
qed

interpretation transport_envelope: signed_envelope
  "\<lambda>s. case transport_canonical_bytes E (st_message s) of Ok c \<Rightarrow> Some c | _ \<Rightarrow> None"
  "\<lambda>s. case hex_decode E (tm_from (st_message s)) of Ok pk \<Rightarrow> Some pk | _ \<Rightarrow> None" st_signature
  "\<lambda>s. transport_verify E s = Ok ()" "\<lambda>pk m s. crypto_verify E pk m s = Ok ()" for E
  by unfold_locales (auto simp: transport_verify_def outcome_simps)

text \<open>Signing never panics below 4 GiB, and what it returns verifies.\<close>

lemma transport_sign_verify:
  assumes "hex_laws E" "ed25519_laws E" "length dest < 2 ^ 32" "length payload < 2 ^ 32"
  shows "\<exists>s. transport_sign E k dest payload t = Ok s \<and> transport_verify E s = Ok () \<and>
    tm_from (st_message s) = hex_encode E (pubkey_of E k)"
proof -
  let ?m = "\<lparr>tm_from = hex_encode E (pubkey_of E k), tm_to = dest, tm_payload = payload, tm_timestamp = t\<rparr>"
  have len: "length (pubkey_of E k) = 32" using assms(2) by simp
  obtain c where c: "transport_canonical_bytes E ?m = Ok c"
    using assms len by (simp add: transport_canonical_bytes_def hex_lawsD u32_try_from_def)
  have "transport_sign E k dest payload t = Ok \<lparr>st_message = ?m, st_signature = crypto_sign E k c\<rparr>"
    using c by (simp add: transport_sign_def Let_def pubkey_of_def)
  moreover have "transport_verify E \<lparr>st_message = ?m, st_signature = crypto_sign E k c\<rparr> = Ok ()"
    using c assms(1) len verify_signed[OF assms(2), of k c]
    by (simp add: transport_verify_def hex_lawsD to_array_def)
  ultimately show ?thesis by simp
qed

section \<open>The simulated transport\<close>

definition DEFAULT_INBOX_CAPACITY :: nat where "DEFAULT_INBOX_CAPACITY = 1024"
definition DEFAULT_OUTBOX_CAPACITY :: nat where "DEFAULT_OUTBOX_CAPACITY = 1024"
definition DEFAULT_PRNG_SEED :: u64 where "DEFAULT_PRNG_SEED = 0xDEADBEEFCAFEBABE"

definition xorshift64 :: "u64 \<Rightarrow> u64" where
  "xorshift64 state =
     (let x = state;
          x = xor x (push_bit 13 x);
          x = xor x (drop_bit 7 x);
          x = xor x (push_bit 17 x)
      in x)"

record simulated_transport =
  sim_inbox :: "transport_message list"
  sim_scheduled_inbox :: "(u64 \<times> transport_message) list"
  sim_outbox :: "transport_message list"
  sim_inbox_capacity :: nat
  sim_outbox_capacity :: nat
  sim_inbox_dropped :: u64
  sim_latency_ms :: u64
  sim_loss_rate :: f64
  sim_mtu :: nat
  sim_rng_state :: u64

definition sim_with_capacity_and_seed :: "u64 \<Rightarrow> f64 \<Rightarrow> nat \<Rightarrow> nat \<Rightarrow> nat \<Rightarrow> u64 \<Rightarrow> simulated_transport" where
  "sim_with_capacity_and_seed latency_ms loss_rate mtu inbox_capacity outbox_capacity seed =
     \<lparr>sim_inbox = [], sim_scheduled_inbox = [], sim_outbox = [],
      sim_inbox_capacity = max inbox_capacity 1, sim_outbox_capacity = max outbox_capacity 1,
      sim_inbox_dropped = 0, sim_latency_ms = latency_ms, sim_loss_rate = loss_rate,
      sim_mtu = mtu, sim_rng_state = (if seed = 0 then DEFAULT_PRNG_SEED else seed)\<rparr>"

definition sim_with_seed :: "u64 \<Rightarrow> f64 \<Rightarrow> nat \<Rightarrow> u64 \<Rightarrow> simulated_transport" where
  "sim_with_seed latency_ms loss_rate mtu seed =
     sim_with_capacity_and_seed latency_ms loss_rate mtu DEFAULT_INBOX_CAPACITY DEFAULT_OUTBOX_CAPACITY seed"

definition sim_with_capacity :: "u64 \<Rightarrow> f64 \<Rightarrow> nat \<Rightarrow> nat \<Rightarrow> nat \<Rightarrow> simulated_transport" where
  "sim_with_capacity latency_ms loss_rate mtu inbox_capacity outbox_capacity =
     sim_with_capacity_and_seed latency_ms loss_rate mtu inbox_capacity outbox_capacity DEFAULT_PRNG_SEED"

definition sim_new :: "u64 \<Rightarrow> f64 \<Rightarrow> nat \<Rightarrow> simulated_transport" where
  "sim_new latency_ms loss_rate mtu =
     sim_with_capacity latency_ms loss_rate mtu DEFAULT_INBOX_CAPACITY DEFAULT_OUTBOX_CAPACITY"

definition lora :: simulated_transport where
  "lora = sim_new 2000 (f64_round (5 / 100)) 256"

definition ble :: simulated_transport where
  "ble = sim_new 50 (f64_round (1 / 100)) 512"

definition sim_inject_message :: "transport_message \<Rightarrow> simulated_transport \<Rightarrow> simulated_transport" where
  "sim_inject_message msg self =
     (let full = length (sim_inbox self) \<ge> sim_inbox_capacity self in
      self\<lparr>sim_inbox := (if full then drop 1 (sim_inbox self) else sim_inbox self) @ [msg],
           sim_inbox_dropped :=
             (if full then saturating_add (sim_inbox_dropped self) 1 else sim_inbox_dropped self)\<rparr>)"

definition sim_inject_message_with_arrival ::
    "transport_message \<Rightarrow> u64 \<Rightarrow> simulated_transport \<Rightarrow> simulated_transport" where
  "sim_inject_message_with_arrival msg sent_at_ms self =
     self\<lparr>sim_scheduled_inbox := sim_scheduled_inbox self @ [(saturating_add sent_at_ms (sim_latency_ms self), msg)]\<rparr>"

definition sim_try_recv_at :: "u64 \<Rightarrow> simulated_transport \<Rightarrow> transport_message option \<times> simulated_transport" where
  "sim_try_recv_at now_ms self =
     (case sim_scheduled_inbox self of
        (deliver_at, m) # rest \<Rightarrow>
          if deliver_at \<le> now_ms then (Some m, self\<lparr>sim_scheduled_inbox := rest\<rparr>) else (None, self)
      | [] \<Rightarrow> (None, self))"

definition sim_send :: "transport_message \<Rightarrow> simulated_transport \<Rightarrow> (unit, transport_error) result \<times> simulated_transport" where
  "sim_send msg self =
     (if length (tm_payload msg) > sim_mtu self
      then (Err (PayloadTooLarge (length (tm_payload msg)) (sim_mtu self)), self)
      else if length (sim_outbox self) \<ge> sim_outbox_capacity self
      then (Err (BackPressure (sim_outbox_capacity self)), self)
      else
        let rng_val = xorshift64 (sim_rng_state self);
            self' = self\<lparr>sim_rng_state := rng_val\<rparr>;
            loss_threshold = u64_of_f64 (f64_mul (sim_loss_rate self') (f64_of_u64 (- 1)))
        in if rng_val < loss_threshold then (Err MessageLost, self')
           else (Ok (), self'\<lparr>sim_outbox := sim_outbox self' @ [msg]\<rparr>))"

definition sim_try_recv :: "simulated_transport \<Rightarrow> transport_message option \<times> simulated_transport" where
  "sim_try_recv self =
     (case sim_inbox self of m # rest \<Rightarrow> (Some m, self\<lparr>sim_inbox := rest\<rparr>) | [] \<Rightarrow> (None, self))"

interpretation inbox: drop_oldest_queue sim_inbox sim_inbox_capacity sim_inject_message
  by unfold_locales (simp_all add: sim_inject_message_def Let_def)

text \<open>A non-zero state never reaches the fixed point zero of the generator.\<close>

lemma xor_eq_zero: "xor x y = 0 \<longleftrightarrow> x = y" for x y :: u64
proof
  assume "xor x y = 0"
  then have "xor (xor x y) y = y" by simp
  then show "x = y" by (simp add: xor.assoc)
qed simp

lemma push_bit_fixed:
  fixes x :: u64
  assumes "0 < n" "push_bit n x = x" shows "x = 0"
proof -
  have "\<not> bit x m" for m
  proof (induction m rule: less_induct)
    case (less m)
    have "bit (push_bit n x) m \<Longrightarrow> n \<le> m \<and> bit x (m - n)" by (simp add: bit_simps)
    then show ?case using less assms by (metis diff_less le_zero_eq not_gr_zero)
  qed
  then show ?thesis by (simp add: bit_eq_iff)
qed

lemma drop_bit_fixed:
  fixes x :: u64
  assumes "0 < n" "drop_bit n x = x" shows "x = 0"
proof -
  have "bit x m = bit x (m + k * n)" for m k
  proof (induction k)
    case (Suc k)
    have "bit x (m + k * n) = bit (drop_bit n x) (m + k * n)" using assms(2) by simp
    also have "\<dots> = bit x (n + (m + k * n))" by (simp only: bit_drop_bit_eq o_apply)
    finally show ?case using Suc by (simp add: ac_simps)
  qed simp
  note step = this
  have "\<not> bit x (m + 64 * n)" for m
  proof
    assume "bit x (m + 64 * n)"
    then have "m + 64 * n < 64" using bit_imp_le_length[of x "m + 64 * n"] by simp
    then show False using assms(1) by linarith
  qed
  then have "\<not> bit x m" for m using step[of m 64] by simp
  then show ?thesis by (simp add: bit_eq_iff)
qed

lemma xorshift64_nonzero:
  assumes "x \<noteq> 0" shows "xorshift64 x \<noteq> 0"
proof -
  let ?a = "xor x (push_bit 13 x)"
  let ?b = "xor ?a (drop_bit 7 ?a)"
  have a: "?a \<noteq> 0" using push_bit_fixed[of 13 x] assms xor_eq_zero[of x "push_bit 13 x"] by auto
  have b: "?b \<noteq> 0" using drop_bit_fixed[of 7 ?a] a xor_eq_zero[of ?a "drop_bit 7 ?a"] by auto
  have "xor ?b (push_bit 17 ?b) \<noteq> 0" using push_bit_fixed[of 17 ?b] b xor_eq_zero[of ?b "push_bit 17 ?b"] by auto
  then show ?thesis by (simp add: xorshift64_def Let_def)
qed

section \<open>The loss rate\<close>

text \<open>\<open>u64::MAX as f64\<close> rounds up to \<open>2 ^ 64\<close>.\<close>

lemma f64_of_u64_max: "f64_of_u64 (- 1) = Finite (2 ^ 64)"
proof -
  have n: "unat (- 1 :: u64) = 18446744073709551615" by (simp add: unsigned_minus_1_eq_mask mask_eq_exp_minus_1)
  have "f64_exponent 18446744073709551615 = 63" by (rule f64_exponent_eq) simp_all
  moreover have "\<lfloor>18446744073709551615 / 2048 :: rat\<rfloor> = 9007199254740991" by (rule floor_unique) simp_all
  ultimately have "f64_nearest 18446744073709551615 = 2 ^ 64"
    by (simp add: f64_nearest_def f64_ulp_def round_half_even_def)
  then have "f64_round 18446744073709551615 = Finite (2 ^ 64)" by (simp add: f64_round_def)
  then show ?thesis by (simp only: f64_of_u64_def n of_nat_numeral)
qed

text \<open>A rate below one scales exactly; a rate of one or more saturates to the largest threshold.\<close>

lemma loss_threshold:
  assumes "f64_value p" "0 \<le> p"
  shows "p < 1 \<Longrightarrow> u64_of_f64 (f64_mul (Finite p) (f64_of_u64 (- 1))) = of_int \<lfloor>p * 2 ^ 64\<rfloor>"
    and "1 \<le> p \<Longrightarrow> u64_of_f64 (f64_mul (Finite p) (f64_of_u64 (- 1))) = - 1"
proof -
  have scaled: "f64_nearest (p * 2 ^ 64) = p * 2 ^ 64" using assms f64_nearest_scale by (simp only: f64_value_def)
  show "u64_of_f64 (f64_mul (Finite p) (f64_of_u64 (- 1))) = of_int \<lfloor>p * 2 ^ 64\<rfloor>" if "p < 1"
  proof -
    have small: "\<not> p * 2 ^ 64 < 0" "p * 2 ^ 64 < 2 ^ 64" using that assms(2) by simp_all
    have "\<bar>p * 2 ^ 64\<bar> < 2 ^ 1024" using small by simp
    then have "f64_round (p * 2 ^ 64) = Finite (p * 2 ^ 64)" using f64_round_Finite scaled by metis
    then show ?thesis using small by (simp add: f64_of_u64_max)
  qed
  show "u64_of_f64 (f64_mul (Finite p) (f64_of_u64 (- 1))) = - 1" if "1 \<le> p"
  proof -
    have "2 ^ 64 \<le> p * 2 ^ 64" "\<not> p * 2 ^ 64 < 0" using that by simp_all
    then show ?thesis using scaled by (auto simp: f64_of_u64_max f64_round_def Let_def)
  qed
qed

text \<open>Which draws of the generator lose a message.\<close>

lemma sim_send_loss:
  assumes rate: "sim_loss_rate s = Finite p" "f64_value p" "0 \<le> p"
    and fits: "length (tm_payload m) \<le> sim_mtu s" "length (sim_outbox s) < sim_outbox_capacity s"
  shows "fst (sim_send m s) = Err MessageLost \<longleftrightarrow>
    (if p < 1 then int (unat (xorshift64 (sim_rng_state s))) < \<lfloor>p * 2 ^ 64\<rfloor>
     else xorshift64 (sim_rng_state s) \<noteq> - 1)"
proof (cases "p < 1")
  case True
  have "0 \<le> \<lfloor>p * 2 ^ 64\<rfloor>" "\<lfloor>p * 2 ^ 64\<rfloor> < 2 ^ 64" using True rate(3) by (simp_all add: floor_less_iff)
  then have "(x < (of_int \<lfloor>p * 2 ^ 64\<rfloor> :: u64)) = (int (unat x) < \<lfloor>p * 2 ^ 64\<rfloor>)" for x
    by (simp add: word_less_def uint_word_of_int)
  then show ?thesis using True fits rate by (simp add: sim_send_def Let_def loss_threshold(1))
next
  case False
  have "(x < (- 1 :: u64)) = (x \<noteq> - 1)" for x by (simp add: word_order.not_eq_extremum)
  then show ?thesis using False fits rate by (simp add: sim_send_def Let_def loss_threshold(2))
qed

text \<open>The literal 0.05 of the LoRa preset, and the threshold it stands for.\<close>

lemma lora_rate: "sim_loss_rate lora = Finite (3602879701896397 / 2 ^ 56)"
proof -
  have "f64_exponent (1 / 20) = - 5" by (rule f64_exponent_eq) (simp_all add: power_int_minus)
  moreover have "\<lfloor>36028797018963968 / 5 :: rat\<rfloor> = 7205759403792793" by (rule floor_unique) simp_all
  ultimately have "f64_nearest (1 / 20) = 3602879701896397 / 2 ^ 56"
    by (simp add: f64_nearest_def f64_ulp_def round_half_even_def power_int_minus)
  then show ?thesis
    by (simp add: lora_def sim_new_def sim_with_capacity_def sim_with_capacity_and_seed_def f64_round_def)
qed

section \<open>The invariant of a simulated transport\<close>

datatype sim_op =
    SimInject transport_message
  | SimInjectAt transport_message u64
  | SimRecv
  | SimRecvAt u64
  | SimSend transport_message

fun sim_step :: "sim_op \<Rightarrow> simulated_transport \<Rightarrow> simulated_transport" where
  "sim_step (SimInject m) s = sim_inject_message m s"
| "sim_step (SimInjectAt m t) s = sim_inject_message_with_arrival m t s"
| "sim_step SimRecv s = snd (sim_try_recv s)"
| "sim_step (SimRecvAt t) s = snd (sim_try_recv_at t s)"
| "sim_step (SimSend m) s = snd (sim_send m s)"

definition sim_ok :: "simulated_transport \<Rightarrow> bool" where
  "sim_ok s \<longleftrightarrow> 0 < sim_inbox_capacity s \<and> 0 < sim_outbox_capacity s \<and>
     length (sim_inbox s) \<le> sim_inbox_capacity s \<and> length (sim_outbox s) \<le> sim_outbox_capacity s \<and>
     (\<forall>m \<in> set (sim_outbox s). length (tm_payload m) \<le> sim_mtu s) \<and> sim_rng_state s \<noteq> 0"

lemma sim_new_ok: "sim_ok (sim_with_capacity_and_seed l t mtu ic oc seed)"
  by (simp add: sim_ok_def sim_with_capacity_and_seed_def DEFAULT_PRNG_SEED_def less_max_iff_disj)

lemma sim_step_ok:
  assumes "sim_ok s" shows "sim_ok (sim_step p s)"
proof (cases p)
  case (SimInject m) then show ?thesis using assms by (auto simp: sim_ok_def sim_inject_message_def Let_def)
next
  case (SimInjectAt m t) then show ?thesis using assms by (auto simp: sim_ok_def sim_inject_message_with_arrival_def)
next
  case SimRecv then show ?thesis using assms by (auto simp: sim_ok_def sim_try_recv_def split: list.split)
next
  case (SimRecvAt t) then show ?thesis using assms by (auto simp: sim_ok_def sim_try_recv_at_def split: list.split)
next
  case (SimSend m) then show ?thesis using assms xorshift64_nonzero[of "sim_rng_state s"]
    by (auto simp: sim_ok_def sim_send_def Let_def)
qed

lemma sim_step_config:
  "sim_inbox_capacity (sim_step p s) = sim_inbox_capacity s \<and> sim_outbox_capacity (sim_step p s) = sim_outbox_capacity s \<and>
    sim_mtu (sim_step p s) = sim_mtu s \<and> sim_latency_ms (sim_step p s) = sim_latency_ms s \<and>
    sim_loss_rate (sim_step p s) = sim_loss_rate s"
  by (cases p) (auto simp: sim_inject_message_def sim_inject_message_with_arrival_def sim_try_recv_def
      sim_try_recv_at_def sim_send_def Let_def split: list.split)

lemma sim_run_config:
  "sim_inbox_capacity (fold sim_step ps s) = sim_inbox_capacity s \<and>
    sim_outbox_capacity (fold sim_step ps s) = sim_outbox_capacity s \<and>
    sim_mtu (fold sim_step ps s) = sim_mtu s \<and> sim_latency_ms (fold sim_step ps s) = sim_latency_ms s \<and>
    sim_loss_rate (fold sim_step ps s) = sim_loss_rate s"
  by (induction ps arbitrary: s) (simp_all add: sim_step_config)

interpretation simulated: state_inv sim_ok sim_step
  by unfold_locales (rule sim_step_ok)

text \<open>The queue between two transports: what was sent is what remains in the outbox, in order.\<close>

lemma sim_send_outbox:
  "sim_outbox (snd (sim_send m s)) = (if fst (sim_send m s) = Ok () then sim_outbox s @ [m] else sim_outbox s)"
  by (simp add: sim_send_def Let_def)

lemma sim_recv_fifo:
  assumes "length (sim_inbox s) < sim_inbox_capacity s"
  shows "sim_inbox (sim_inject_message m s) = sim_inbox s @ [m]"
    and "sim_inbox s = [] \<Longrightarrow> fst (sim_try_recv (sim_inject_message m s)) = Some m"
  using assms by (simp_all add: sim_inject_message_def sim_try_recv_def Let_def)

section \<open>Scheduled arrivals\<close>

text \<open>What a run puts on the scheduled inbox, with the time each message was sent at, and what
  it hands out, with the time of the poll.\<close>

fun scheduled_injections :: "sim_op list \<Rightarrow> (transport_message \<times> u64) list" where
  "scheduled_injections [] = []"
| "scheduled_injections (SimInjectAt m t # ops) = (m, t) # scheduled_injections ops"
| "scheduled_injections (_ # ops) = scheduled_injections ops"

fun sim_delivery :: "sim_op \<Rightarrow> simulated_transport \<Rightarrow> (u64 \<times> transport_message) list" where
  "sim_delivery (SimRecvAt now) s = (case fst (sim_try_recv_at now s) of Some m \<Rightarrow> [(now, m)] | None \<Rightarrow> [])"
| "sim_delivery _ s = []"

fun sim_deliveries :: "sim_op list \<Rightarrow> simulated_transport \<Rightarrow> (u64 \<times> transport_message) list" where
  "sim_deliveries [] s = []"
| "sim_deliveries (p # ops) s = sim_delivery p s @ sim_deliveries ops (sim_step p s)"

definition delivered_when_due :: "u64 \<times> transport_message \<Rightarrow> u64 \<times> transport_message \<Rightarrow> bool" where
  "delivered_when_due d q \<longleftrightarrow> snd d = snd q \<and> fst q \<le> fst d"

definition due_at :: "u64 \<Rightarrow> transport_message \<times> u64 \<Rightarrow> u64 \<times> transport_message" where
  "due_at latency i = (saturating_add (snd i) latency, fst i)"

lemma sim_step_scheduled:
  "list_all2 delivered_when_due (sim_delivery p s)
     (take (length (sim_delivery p s)) (sim_scheduled_inbox s)) \<and>
   sim_scheduled_inbox (sim_step p s) = drop (length (sim_delivery p s))
     (sim_scheduled_inbox s @ map (due_at (sim_latency_ms s)) (scheduled_injections [p]))"
  by (cases p) (auto simp: sim_inject_message_def sim_inject_message_with_arrival_def sim_try_recv_def
      sim_try_recv_at_def sim_send_def delivered_when_due_def due_at_def Let_def split: list.split)

lemma scheduled_injections_Cons: "scheduled_injections (p # ops) = scheduled_injections [p] @ scheduled_injections ops"
  by (cases p) simp_all

text \<open>Deliveries follow the order of the injections, each when it is due, and the rest stays queued.\<close>

lemma sim_run_scheduled:
  defines "queue s ops \<equiv> sim_scheduled_inbox s @ map (due_at (sim_latency_ms s)) (scheduled_injections ops)"
  shows "list_all2 delivered_when_due (sim_deliveries ops s) (take (length (sim_deliveries ops s)) (queue s ops)) \<and>
    sim_scheduled_inbox (fold sim_step ops s) = drop (length (sim_deliveries ops s)) (queue s ops)"
proof (induction ops arbitrary: s)
  case Nil
  then show ?case by (simp add: queue_def)
next
  case (Cons p ops)
  let ?d = "sim_delivery p s" and ?s = "sim_step p s"
  let ?q = "sim_scheduled_inbox s @ map (due_at (sim_latency_ms s)) (scheduled_injections [p])"
  have step: "list_all2 delivered_when_due ?d (take (length ?d) (sim_scheduled_inbox s))"
    "sim_scheduled_inbox ?s = drop (length ?d) ?q"
    using sim_step_scheduled[of p s] by simp_all
  have fits: "length ?d \<le> length (sim_scheduled_inbox s)" using list_all2_lengthD[OF step(1)] by simp
  have rest: "queue ?s ops = drop (length ?d) (queue s (p # ops))"
    using fits step(2) by (simp add: queue_def scheduled_injections_Cons[of p ops] sim_step_config)
  have "take (length ?d) (queue s (p # ops)) = take (length ?d) (sim_scheduled_inbox s)"
    using fits by (simp add: queue_def)
  then show ?case
    using step(1) Cons.IH[of ?s] rest by (simp add: take_add list_all2_appendI add.commute)
qed

text \<open>From a new transport: polling at \<open>now\<close> returns the oldest message not yet handed out, exactly when
  it is due.\<close>

lemma sim_run_poll:
  assumes "s = fold sim_step ops (sim_with_capacity_and_seed l th mtu ic oc seed)"
    and "n = length (sim_deliveries ops (sim_with_capacity_and_seed l th mtu ic oc seed))"
  shows "sim_scheduled_inbox s = drop n (map (due_at l) (scheduled_injections ops))"
    and "fst (sim_try_recv_at now s) = Some x \<longleftrightarrow>
      (\<exists>t. n < length (scheduled_injections ops) \<and> scheduled_injections ops ! n = (x, t) \<and> saturating_add t l \<le> now)"
proof -
  show rest: "sim_scheduled_inbox s = drop n (map (due_at l) (scheduled_injections ops))"
    using sim_run_scheduled[of ops "sim_with_capacity_and_seed l th mtu ic oc seed"] assms
    by (simp add: sim_with_capacity_and_seed_def)
  show "fst (sim_try_recv_at now s) = Some x \<longleftrightarrow>
      (\<exists>t. n < length (scheduled_injections ops) \<and> scheduled_injections ops ! n = (x, t) \<and> saturating_add t l \<le> now)"
  proof (cases "n < length (scheduled_injections ops)")
    case True
    then have "sim_scheduled_inbox s = due_at l (scheduled_injections ops ! n) # drop (Suc n) (map (due_at l) (scheduled_injections ops))"
      using rest by (simp add: Cons_nth_drop_Suc[symmetric])
    then show ?thesis using True
      by (cases "scheduled_injections ops ! n") (simp add: sim_try_recv_at_def due_at_def)
  next
    case False
    then show ?thesis using rest by (simp add: sim_try_recv_at_def)
  qed
qed

lemma sim_run_deliveries:
  assumes "new = sim_with_capacity_and_seed l th mtu ic oc seed"
    and "ds = sim_deliveries ops new" "sent = scheduled_injections ops"
  shows "length ds \<le> length sent"
    and "\<forall>i < length ds. \<exists>t. sent ! i = (snd (ds ! i), t) \<and> saturating_add t l \<le> fst (ds ! i)"
proof -
  have trace: "list_all2 delivered_when_due ds (take (length ds) (map (due_at l) sent))"
    using sim_run_scheduled[of ops new] assms by (simp add: sim_with_capacity_and_seed_def)
  show le: "length ds \<le> length sent" using list_all2_lengthD[OF trace] by simp
  show "\<forall>i < length ds. \<exists>t. sent ! i = (snd (ds ! i), t) \<and> saturating_add t l \<le> fst (ds ! i)"
  proof (intro allI impI)
    fix i assume "i < length ds"
    then show "\<exists>t. sent ! i = (snd (ds ! i), t) \<and> saturating_add t l \<le> fst (ds ! i)"
      using list_all2_nthD[OF trace, of i] le
      by (cases "sent ! i") (auto simp: delivered_when_due_def due_at_def)
  qed
qed

end
