(* ===== verification/Network_Properties.thy ===== *)
theory Network_Properties
  imports Lattice_Properties Gossip Relay Reassembly Transport
begin

text \<open>
  What nodes exchange and keep: the properties of gossip, of relay receipts and scores, of the
  transports and of fragment reassembly, with their witnesses.
\<close>

section \<open>Gossip\<close>

text \<open>C23. Whatever blocks, registries and peers a gossip node is given, it stays within its two
  capacities, its registry is sorted without duplicates, and its eviction order lists exactly the
  registered positions, each once.\<close>

theorem gossip_run:
  "self = fold (node_step E) ops (gn_with_capacity i k r) \<Longrightarrow>
    length (gn_known_blocks self) \<le> max k 1 \<and> length (gn_nonce_registry self) \<le> max r 1 \<and>
    bt_wf (gn_nonce_registry self) \<and> distinct (gn_order self) \<and>
    set (gn_order self) = fst ` set (gn_nonce_registry self)"
  using gossip_node.run_inv[OF gn_new_ok, of E ops i k r] node_run_capacities[of E ops "gn_with_capacity i k r"]
  by (simp add: node_ok_def registry_ok_def gn_with_capacity_def)

theorem gossip_run_witness:
  "\<exists>self. self = fold (node_step demo_env) [NodeMerge [(([1], 1), [5]), (([2], 1), [6])], NodeBlock demo_genesis]
      (gn_with_capacity ''n'' 1 1) \<and> length (gn_nonce_registry self) \<le> 1"
  using gossip_run[OF refl, of demo_env "[NodeMerge [(([1], 1), [5]), (([2], 1), [6])], NodeBlock demo_genesis]" "''n''" 1 1]
  by simp

text \<open>C22. The first verified block a node sees at a position (account and nonce) is registered and kept; the
  same block again changes nothing, and any other verified block at that position is refused as a
  double spend and changes nothing.\<close>

theorem gossip_first_wins:
  assumes E: "env_laws E" and ok: "node_ok self" and b: "verify_block E b = Ok ()"
    and new: "\<forall>a. hex_decode E (b_account b) = Ok a \<longrightarrow> map_of (gn_nonce_registry self) (a, b_nonce b) = None"
    and run: "gn_add_block E b self = (r, self')"
  shows "r = Ok () \<and> last (gn_known_blocks self') = b \<and> gn_add_block E b self' = (Ok (), self') \<and>
    (\<forall>c. verify_block E c = Ok () \<and> b_account c = b_account b \<and> b_nonce c = b_nonce b \<and> b_hash c \<noteq> b_hash b \<longrightarrow>
      gn_add_block E c self' = (Err (DoubleSpend (b_nonce b)), self'))"
proof -
  obtain a h where a: "hex_decode E (b_account b) = Ok a" "length a = 32"
    and h: "hex_decode E (b_hash b) = Ok h" "length h = 32" "b_hash b = hex_encode E h"
    using verified_block_keys[OF E b] .
  have ok': "node_ok self'" using gn_add_block_ok[OF ok, of E b] run by simp
  have first: "r = Ok ()" "map_of (gn_nonce_registry self') (a, b_nonce b) = Some h" "b = last (gn_known_blocks self')"
    using gn_add_block_cases[OF b h(1,2) a ok run] unfolding new[rule_format, OF a(1)] option.case by blast+
  obtain r1 s1 where again: "gn_add_block E b self' = (r1, s1)" by force
  have "gn_add_block E b self' = (Ok (), self')"
    using gn_add_block_cases[OF b h(1,2) a ok' again] first(2) again by simp
  moreover have "gn_add_block E c self' = (Err (DoubleSpend (b_nonce b)), self')"
    if c: "verify_block E c = Ok ()" "b_account c = b_account b" "b_nonce c = b_nonce b" "b_hash c \<noteq> b_hash b" for c
  proof -
    obtain h' where h': "hex_decode E (b_hash c) = Ok h'" "length h' = 32" "b_hash c = hex_encode E h'"
      using verified_block_keys[OF E c(1)] by metis
    obtain r2 s2 where other: "gn_add_block E c self' = (r2, s2)" by force
    have "h \<noteq> h'" using h(3) h'(3) c(4) by auto
    then show ?thesis
      using gn_add_block_cases[OF c(1) h'(1,2), of a self' r2 s2] a ok' other c first(2) by simp
  qed
  ultimately show ?thesis using first by blast
qed

theorem gossip_first_wins_witness:
  "\<exists>self'. gn_add_block demo_env demo_genesis (gn_new ''n'') = (Ok (), self') \<and>
    gn_add_block demo_env demo_genesis self' = (Ok (), self')"
proof -
  obtain r self' where run: "gn_add_block demo_env demo_genesis (gn_new ''n'') = (r, self')" by force
  have "node_ok (gn_new ''n'')" unfolding gn_new_def by (rule gn_new_ok)
  then show ?thesis
    using gossip_first_wins[OF demo_env_laws _ demo_genesis(3) _ run] run
    by (simp add: gn_new_def gn_with_capacity_def)
qed

text \<open>C25. The signed bytes of a gossip message determine message and sender, and a message that passes
  verification respects the size limits, so an announcement is forwarded along at most 15 further
  hops before its counter runs out.\<close>

theorem gossip_binding:
  assumes "length pk = 32" "length pk' = 32" "message_ok m" "message_ok m'"
    and "gossip_canonical_bytes m pk = gossip_canonical_bytes m' pk'"
    and "signed_message_verify E s = Ok ()"
  shows "m = m' \<and> pk = pk' \<and> message_validate (sg_message s) = Ok () \<and> length (sg_signature s) = 64 \<and>
    relay_path (sg_message s) \<le> 15"
proof -
  have v: "message_validate (sg_message s) = Ok ()" using signed_message_verify_valid[OF assms(6)] by blast
  then have "message_hops (sg_message s) \<le> 16"
    by (auto simp: message_validate_def message_hops_def MAX_BLOCK_ANNOUNCE_HOPS_def outcome_simps not_less word_le_nat_alt
        split: gossip_message.splits)
  then have "relay_path (sg_message s) \<le> 15" using relay_path_bound[of "sg_message s"] by linarith
  then show ?thesis using gossip_canonical_inj[OF assms(1-5)] signed_message_verify_valid[OF assms(6)] by blast
qed

definition demo_gossip :: signed_gossip_message where
  "demo_gossip = \<lparr>sg_message = BlockAnnounce [1, 2] 5, sg_sender_pubkey = replicate 32 7,
     sg_signature = sk_sign demo_env 7 (gossip_canonical_bytes (BlockAnnounce [1, 2] 5) (replicate 32 7))\<rparr>"

lemma demo_signed: "crypto_verify demo_env (replicate 32 k) m (replicate 32 k @ demo_digest m) = Ok ()" if "k \<noteq> 0"
  using verify_signed[OF demo_ed25519_laws, of k m] that by (simp add: pubkey_of_def demo_vk_def crypto_sign_def)

theorem gossip_binding_witness:
  "signed_message_verify demo_env demo_gossip = Ok () \<and> relay_path (sg_message demo_gossip) \<le> 15"
proof -
  have "signed_message_verify demo_env demo_gossip = Ok ()"
    using demo_signed[of 7]
    by (simp add: signed_message_verify_def demo_gossip_def message_validate_def MAX_BLOCK_ANNOUNCE_HOPS_def
        MAX_BLOCK_ANNOUNCE_BYTES_def to_array_def demo_vk_def)
  then show ?thesis
    using gossip_binding[of "replicate 32 7" "replicate 32 7" "Ping [] 0" "Ping [] 0" demo_env demo_gossip]
    by (simp add: message_ok_def)
qed

text \<open>C24. Merging a remote registry keeps every local entry and adds exactly the missing ones; the reported
  conflicts are exactly the positions the two registries disagree on; and the check before L1
  succeeds exactly when a non-empty remote registry equals the local one.\<close>

theorem nonce_merge_spec:
  assumes "bt_wf l" "bt_wf r" "merge_nonce_registries l r = (cs, m)"
  shows "bt_wf m \<and> map_of m = map_of r ++ map_of l \<and>
    (\<forall>c. c \<in> set cs \<longleftrightarrow> map_of l (nc_key c) = Some (nc_local_hash c) \<and>
      map_of r (nc_key c) = Some (nc_remote_hash c) \<and> nc_local_hash c \<noteq> nc_remote_hash c) \<and>
    (sync_nonces_before_l1 l r = SyncSuccess \<longleftrightarrow> r \<noteq> [] \<and> l = r)"
proof -
  have "map_of m = map_of r ++ map_of l"
    using merge_lookup[OF assms(2), of l] assms(3) by (intro ext) (simp add: map_add_def)
  then show ?thesis
    using merge_wf[OF assms(1), of r] merge_conflicts[OF assms(2), of _ l] sync_Success_iff[OF assms(1,2)] assms(3)
    by simp
qed

theorem nonce_merge_spec_witness:
  "\<exists>cs m. merge_nonce_registries [(([1], 1), [5])] [(([1], 1), [6]), (([2], 1), [7])] = (cs, m) \<and>
    map_of m ([1], 1) = Some [5] \<and> map_of m ([2], 1) = Some [7] \<and> cs \<noteq> []"
proof -
  let ?l = "[(([1 :: u8], 1 :: u64), [5 :: u8])]" and ?r = "[(([1 :: u8], 1 :: u64), [6 :: u8]), (([2], 1), [7])]"
  have wf: "bt_wf ?l" "bt_wf ?r" by (simp_all add: bt_wf_def less_prod_def)
  obtain cs m where run: "merge_nonce_registries ?l ?r = (cs, m)" by force
  note spec = nonce_merge_spec[OF wf run]
  have "\<lparr>nc_key = ([1], 1), nc_local_hash = [5], nc_remote_hash = [6]\<rparr> \<in> set cs" using spec by simp
  then show ?thesis using run spec by auto
qed

section \<open>Relays\<close>

text \<open>C28. Through any life of a relay score, with any receipts and slashing proofs, the number of credits is the
  number of distinct messages it was credited for; the score stays within an \<open>i64\<close>, is at most its start
  plus one for each credit less five for each failure, and exactly that when nothing was slashed; a
  receipt for a message already credited is refused, and a credit is for a verified receipt of this relay.\<close>

theorem relay_score_run:
  "s = fold (score_step E) ops (relay_score_new i) \<Longrightarrow>
    unat (rs_messages_relayed s) = card (rs_credited_messages s) \<and>
    i64_MIN \<le> rs_score s \<and> rs_score s \<le> i64_MAX \<and>
    rs_score s \<le> 100 + uint (rs_messages_relayed s) - 5 * uint (rs_messages_failed s) \<and>
    ((\<forall>p evid. ScoreSlash p evid \<notin> set ops) \<longrightarrow>
      rs_score s = 100 + uint (rs_messages_relayed s) - 5 * uint (rs_messages_failed s)) \<and>
    (\<forall>r h. hex_decode E (rp_message_hash r) = Ok h \<and> h \<in> rs_credited_messages s \<longrightarrow>
      \<not> is_ok (fst (record_success E r s))) \<and>
    (\<forall>r s'. record_success E r s = (Ok (), s') \<longrightarrow> receipt_verify E r = Ok () \<and> rp_relay_id r = rs_relay_id s \<and>
      rs_score s' = rs_score s + 1)"
proof -
  assume s: "s = fold (score_step E) ops (relay_score_new i)"
  have ok: "score_ok s" unfolding s by (rule relay_score.run_inv[OF score_new_ok])
  have replay: "\<forall>r h. hex_decode E (rp_message_hash r) = Ok h \<and> h \<in> rs_credited_messages s \<longrightarrow>
      \<not> is_ok (fst (record_success E r s))"
    using record_success_replay[of E _ _ s] by blast
  have credit: "\<forall>r s'. record_success E r s = (Ok (), s') \<longrightarrow> receipt_verify E r = Ok () \<and>
      rp_relay_id r = rs_relay_id s \<and> rs_score s' = rs_score s + 1"
    using record_success_Ok[of E _ s] by blast
  have exact: "(\<forall>p evid. ScoreSlash p evid \<notin> set ops) \<longrightarrow> rs_score s = earned_score s"
    unfolding s using score_earned[of ops "relay_score_new i" E] by (simp add: relay_score_new_def earned_score_def)
  show ?thesis using ok exact replay credit by (simp add: score_ok_def earned_score_def)
qed

definition demo_receipt :: relay_receipt where
  "demo_receipt =
     \<lparr>rp_relay_id = demo_hex_encode (replicate 32 7), rp_message_hash = demo_hex_encode (replicate 32 9),
      rp_timestamp = 0,
      rp_signature = replicate 32 7 @ demo_digest (RELAY_RECEIPT_DOMAIN @ replicate 32 7 @ replicate 32 9 @ u64_to_be 0 @ [2]),
      rp_hop_count = 2\<rparr>"

theorem relay_score_run_witness:
  "\<exists>s. s = fold (score_step demo_env) [ScoreSuccess demo_receipt, ScoreSuccess demo_receipt, ScoreFailure]
      (relay_score_new (rp_relay_id demo_receipt)) \<and>
    unat (rs_messages_relayed s) = card (rs_credited_messages s) \<and> rs_credited_messages s = {replicate 32 9} \<and>
    rs_score s = 100 + uint (rs_messages_relayed s) - 5 * uint (rs_messages_failed s)"
proof -
  let ?ops = "[ScoreSuccess demo_receipt, ScoreSuccess demo_receipt, ScoreFailure]"
  let ?s = "fold (score_step demo_env) ?ops (relay_score_new (rp_relay_id demo_receipt))"
  have verified: "receipt_verify demo_env demo_receipt = Ok ()"
    using demo_signed[of 7]
    by (simp add: receipt_verify_def receipt_canonical_message_def demo_receipt_def Relay.decode_hex_32_def
        demo_hex_round to_array_def MAX_HOPS_PER_RECEIPT_def)
  have "hex_decode demo_env (rp_message_hash demo_receipt) = Ok (replicate 32 9)"
    by (simp add: demo_receipt_def demo_hex_round)
  then have "rs_credited_messages ?s = {replicate 32 9}"
    using verified
    by (simp add: record_success_def record_failure_def add_success_def plain_add_def checked_add_def i64_plain_add_def
        relay_score_new_def to_array_def i64_MIN_def i64_MAX_def Let_def split: result.split)
  moreover have "\<forall>p evid. ScoreSlash p evid \<notin> set ?ops" by simp
  ultimately show ?thesis using relay_score_run[OF refl, of demo_env ?ops "rp_relay_id demo_receipt"] by blast
qed

text \<open>C29. Over any life of a score the anomaly report lists each target once, and only targets with the
  required number of recorded events whose rate of successes exceeds the threshold by no more than
  \<open>2 ^ -53\<close>; it lists every such target whose rate does not exceed the threshold. The life has fewer
  than \<open>2 ^ 53\<close> calls, up to where a count is exact in floating point.\<close>

theorem anomaly_report:
  assumes "s = fold (score_step E) ops (relay_score_new i)" "length ops < 2 ^ 53" "f64_value q"
    and "target_events E t ops (relay_score_new i) = (m, n)"
  shows "distinct (flag_per_target_anomalies s k (Finite q)) \<and>
    (t \<in> set (flag_per_target_anomalies s k (Finite q)) \<longrightarrow>
      unat k \<le> m + n \<and> 0 < m + n \<and> of_nat m / of_nat (m + n) \<le> q + 1 / 2 ^ 53) \<and>
    (unat k \<le> m + n \<and> 0 < m + n \<and> of_nat m / of_nat (m + n) \<le> q \<longrightarrow>
      t \<in> set (flag_per_target_anomalies s k (Finite q)))"
proof -
  have new: "target_count t (relay_score_new i) = (0, 0)" "hm_wf (rs_per_target_counts (relay_score_new i))"
    by (simp_all add: target_count_def relay_score_new_def)
  have count: "target_count t s = (of_nat m, of_nat n)" "m + n < 2 ^ 53"
    using target_count_run[OF new(1) assms(4)] assms(1,2) by simp_all
  have wf: "hm_wf (rs_per_target_counts s)" unfolding assms(1) by (rule per_target_wf[OF new(2)])
  have small: "unat (of_nat m :: u64) = m" "unat (of_nat n :: u64) = n"
    using count(2) by (simp_all add: unat_of_nat take_bit_eq_mod)
  have flagged: "t \<in> set (flag_per_target_anomalies s k (Finite q)) \<longleftrightarrow>
      unat k \<le> m + n \<and> 0 < m + n \<and> f64_nearest (of_nat m / of_nat (m + n)) \<le> q"
    using is_anomaly_iff[of "of_nat m" "of_nat n" k q] count(2) unfolding flagged_iff[OF wf] count(1) small by blast
  have "distinct (flag_per_target_anomalies s k (Finite q))"
    using wf unfolding flag_per_target_anomalies_def hm_wf_def by (rule distinct_map_filter)
  moreover have "0 \<le> (of_nat m / of_nat (m + n) :: rat)" "(of_nat m / of_nat (m + n) :: rat) \<le> 1" if "0 < m + n"
    using that by (simp_all only: zero_le_divide_iff of_nat_0_le_iff divide_le_eq_1 of_nat_0_less_iff of_nat_le_iff) simp_all
  ultimately show ?thesis using flagged f64_rate_le[OF _ _ assms(3)] by blast
qed

lemma f64_value_half: "f64_value (1 / 2)"
proof -
  have "f64_exponent (1 / 2) = - 1" by (rule f64_exponent_eq) (simp_all add: power_int_minus)
  then have "f64_nearest (1 / 2) = 1 / 2"
    by (intro f64_nearest_exact[of _ "2 ^ 52"]) (simp add: f64_ulp_def power_int_minus)
  then show ?thesis by (simp add: f64_value_def)
qed

theorem anomaly_report_witness:
  "[1] \<in> set (flag_per_target_anomalies
      (fold (score_step demo_env) [ScoreFailureFor [1], ScoreFailureFor [1]] (relay_score_new ''relay'')) 2 (Finite (1 / 2)))"
proof -
  let ?s = "relay_score_new ''relay''" and ?ops = "[ScoreFailureFor [1], ScoreFailureFor [1]]"
  have "target_events demo_env [1] ?ops ?s = (0, 2)"
    by (simp add: relay_score_new_def record_failure_for_target_def record_failure_def plain_add_def checked_add_def
        i64_plain_add_def i64_MIN_def i64_MAX_def Let_def)
  from anomaly_report[OF refl _ f64_value_half this, of 2] show ?thesis by simp
qed

section \<open>Transport\<close>

text \<open>A message signed with a key verifies and names the key as its sender; the signed bytes determine
  sender, recipient, payload and timestamp.\<close>

lemma transport_binding:
  assumes "hex_laws E" "ed25519_laws E" "length dest < 2 ^ 32" "length payload < 2 ^ 32"
  shows "(\<exists>s. transport_sign E k dest payload t = Ok s \<and> transport_verify E s = Ok () \<and>
      tm_from (st_message s) = hex_encode E (pubkey_of E k) \<and>
      tm_to (st_message s) = dest \<and> tm_payload (st_message s) = payload \<and> tm_timestamp (st_message s) = t) \<and>
    (\<forall>m m' c. transport_canonical_bytes E m = Ok c \<and> transport_canonical_bytes E m' = Ok c \<longrightarrow>
      hex_decode E (tm_from m) = hex_decode E (tm_from m') \<and> tm_to m = tm_to m' \<and>
      tm_payload m = tm_payload m' \<and> tm_timestamp m = tm_timestamp m')"
proof (rule conjI)
  obtain s where s: "transport_sign E k dest payload t = Ok s" "transport_verify E s = Ok ()"
    "tm_from (st_message s) = hex_encode E (pubkey_of E k)"
    using transport_sign_verify[OF assms] by blast
  then have "tm_to (st_message s) = dest \<and> tm_payload (st_message s) = payload \<and> tm_timestamp (st_message s) = t"
    by (auto simp: transport_sign_def Let_def outcome_simps split: result.splits)
  then show "\<exists>s. transport_sign E k dest payload t = Ok s \<and> transport_verify E s = Ok () \<and>
      tm_from (st_message s) = hex_encode E (pubkey_of E k) \<and>
      tm_to (st_message s) = dest \<and> tm_payload (st_message s) = payload \<and> tm_timestamp (st_message s) = t"
    using s by blast
qed (use transport_canonical_inj in blast)

text \<open>C30. Whatever is sent, injected and received, a simulated transport keeps both queues within their
  capacities, holds only payloads within the MTU in its outbox and a non-zero generator state, and an
  injected message is the newest of the inbox. Messages injected with an arrival time are handed out
  in the order they were injected, each once and never before its sending time plus the latency (capped
  at the largest time); the next one is handed out exactly by a poll at or after that time. With a loss
  rate that is at least zero and below one, a send with room is lost exactly when the next draw is below
  that part of \<open>2 ^ 64\<close>.\<close>

theorem simulated_run:
  assumes "new = sim_with_capacity_and_seed l th mtu ic oc seed"
    and "s = fold sim_step ops new" "ds = sim_deliveries ops new" "sent = scheduled_injections ops"
  shows "length (sim_inbox s) \<le> max ic 1 \<and> length (sim_outbox s) \<le> max oc 1 \<and>
    (\<forall>m \<in> set (sim_outbox s). length (tm_payload m) \<le> mtu) \<and> sim_rng_state s \<noteq> 0 \<and>
    last (sim_inbox (sim_inject_message m s)) = m \<and>
    length ds \<le> length sent \<and>
    (\<forall>i < length ds. \<exists>t. sent ! i = (snd (ds ! i), t) \<and> saturating_add t l \<le> fst (ds ! i)) \<and>
    (\<forall>now x. fst (sim_try_recv_at now s) = Some x \<longleftrightarrow>
      (\<exists>t. length ds < length sent \<and> sent ! length ds = (x, t) \<and> saturating_add t l \<le> now)) \<and>
    (\<forall>p. th = Finite p \<and> f64_value p \<and> 0 \<le> p \<and> p < 1 \<and> length (tm_payload m) \<le> mtu \<and>
        length (sim_outbox s) < max oc 1 \<longrightarrow>
      (fst (sim_send m s) = Err MessageLost \<longleftrightarrow>
        int (unat (xorshift64 (sim_rng_state s))) < \<lfloor>p * 2 ^ 64\<rfloor>))"
proof -
  have ok: "sim_ok s" unfolding assms(1,2) by (rule simulated.run_inv[OF sim_new_ok])
  have config: "sim_inbox_capacity s = max ic 1 \<and> sim_outbox_capacity s = max oc 1 \<and> sim_mtu s = mtu \<and> sim_loss_rate s = th"
    using sim_run_config[of ops new] assms by (simp add: sim_with_capacity_and_seed_def)
  have "\<forall>p. th = Finite p \<and> f64_value p \<and> 0 \<le> p \<and> p < 1 \<and> length (tm_payload m) \<le> mtu \<and>
        length (sim_outbox s) < max oc 1 \<longrightarrow>
      (fst (sim_send m s) = Err MessageLost \<longleftrightarrow>
        int (unat (xorshift64 (sim_rng_state s))) < \<lfloor>p * 2 ^ 64\<rfloor>)"
    using sim_send_loss[of s _ m] config by auto
  moreover note sim_run_deliveries[OF assms(1,3,4)]
  moreover have "\<forall>now x. fst (sim_try_recv_at now s) = Some x \<longleftrightarrow>
      (\<exists>t. length ds < length sent \<and> sent ! length ds = (x, t) \<and> saturating_add t l \<le> now)"
    using sim_run_poll(2)[of s ops l th mtu ic oc seed "length ds"] assms by simp
  moreover have "last (sim_inbox (sim_inject_message m s)) = m" by (simp add: sim_inject_message_def Let_def)
  ultimately show ?thesis using ok config by (simp add: sim_ok_def)
qed

definition demo_transport :: transport_message where
  "demo_transport = \<lparr>tm_from = [], tm_to = ''bob'', tm_payload = [1], tm_timestamp = 0\<rparr>"

lemma demo_half: "f64_value (1 / 2)"
proof -
  have "f64_exponent (1 / 2) = - 1" by (rule f64_exponent_eq) (simp_all add: power_int_minus)
  then show ?thesis
    by (simp add: f64_value_def f64_nearest_def f64_ulp_def round_half_even_def power_int_minus)
qed

text \<open>A message sent at 5 with latency 10 is not there at 14 and is there at 15; half of the draws lose:
  the first after seed 1 does, the first after seed \<open>2 ^ 63\<close> does not.\<close>

theorem simulated_run_witness:
  "\<exists>s s'. s = fold sim_step [SimInject demo_transport, SimInject demo_transport, SimInjectAt demo_transport 5, SimRecvAt 14]
      (sim_with_capacity_and_seed 10 (Finite (1 / 2)) 2 1 1 1) \<and>
    s' = fold sim_step [SimInjectAt demo_transport 5, SimRecvAt 15]
      (sim_with_capacity_and_seed 10 (Finite (1 / 2)) 2 1 1 (2 ^ 63)) \<and>
    length (sim_inbox s) \<le> 1 \<and> fst (sim_try_recv_at 14 s) = None \<and>
    fst (sim_try_recv_at 15 s) = Some demo_transport \<and> fst (sim_try_recv_at 15 s') = None \<and>
    fst (sim_send demo_transport s) = Err MessageLost \<and> fst (sim_send demo_transport s') \<noteq> Err MessageLost"
proof -
  let ?ops = "[SimInject demo_transport, SimInject demo_transport, SimInjectAt demo_transport 5, SimRecvAt 14]"
  let ?ops' = "[SimInjectAt demo_transport 5, SimRecvAt 15]"
  let ?new = "\<lambda>seed. sim_with_capacity_and_seed 10 (Finite (1 / 2)) 2 1 1 seed"
  note evals = sim_with_capacity_and_seed_def sim_inject_message_def sim_inject_message_with_arrival_def
    sim_try_recv_at_def saturating_add_def demo_transport_def word_le_nat_alt Let_def
  have ds: "sim_deliveries ?ops (?new 1) = []" "length (sim_deliveries ?ops' (?new (2 ^ 63))) = 1" by (simp_all add: evals)
  have out: "sim_outbox (fold sim_step ?ops (?new 1)) = []" "sim_outbox (fold sim_step ?ops' (?new (2 ^ 63))) = []"
    "sim_rng_state (fold sim_step ?ops (?new 1)) = 1" "sim_rng_state (fold sim_step ?ops' (?new (2 ^ 63))) = 2 ^ 63"
    by (simp_all add: evals)
  have draws: "int (unat (xorshift64 1)) < 2 ^ 63" "\<not> int (unat (xorshift64 (2 ^ 63))) < 2 ^ 63"
    by (simp_all add: xorshift64_def Let_def)
  have due: "saturating_add (5 :: u64) 10 = 15" by (simp add: saturating_add_def)
  let ?s = "fold sim_step ?ops (?new 1)" and ?s' = "fold sim_step ?ops' (?new (2 ^ 63))"
  note a = simulated_run[OF refl refl refl refl, of ?ops 10 "Finite (1 / 2)" 2 1 1 1 demo_transport]
  note b = simulated_run[OF refl refl refl refl, of ?ops' 10 "Finite (1 / 2)" 2 1 1 "2 ^ 63" demo_transport]
  have sent: "scheduled_injections ?ops = [(demo_transport, 5)]" "scheduled_injections ?ops' = [(demo_transport, 5)]"
    by simp_all
  have polls: "fst (sim_try_recv_at now ?s) = Some x \<longleftrightarrow>
      (\<exists>t. length (sim_deliveries ?ops (?new 1)) < length (scheduled_injections ?ops) \<and>
        scheduled_injections ?ops ! length (sim_deliveries ?ops (?new 1)) = (x, t) \<and> saturating_add t 10 \<le> now)" for now x
    using a by iprover
  have "fst (sim_try_recv_at now ?s) = Some x \<longleftrightarrow> x = demo_transport \<and> 15 \<le> now" for now x
    unfolding polls ds sent by (auto simp: due)
  then have s: "fst (sim_try_recv_at 14 ?s) = None" "fst (sim_try_recv_at 15 ?s) = Some demo_transport"
    by (simp_all only: flip: not_Some_eq) simp_all
  have polls': "fst (sim_try_recv_at now ?s') = Some x \<longleftrightarrow>
      (\<exists>t. length (sim_deliveries ?ops' (?new (2 ^ 63))) < length (scheduled_injections ?ops') \<and>
        scheduled_injections ?ops' ! length (sim_deliveries ?ops' (?new (2 ^ 63))) = (x, t) \<and> saturating_add t 10 \<le> now)" for now x
    using b by iprover
  have "fst (sim_try_recv_at now ?s') \<noteq> Some x" for now x unfolding polls' ds sent by simp
  then have s': "fst (sim_try_recv_at 15 ?s') = None" by (simp only: flip: not_Some_eq) simp
  have room: "Finite (1 / 2 :: rat) = Finite (1 / 2) \<and> f64_value (1 / 2) \<and> 0 \<le> (1 / 2 :: rat) \<and> 1 / 2 < (1 :: rat) \<and>
      length (tm_payload demo_transport) \<le> 2 \<and> length (sim_outbox t) < max 1 1"
    if "sim_outbox t = []" for t using that demo_half by (simp add: demo_transport_def)
  have half: "\<lfloor>(1 / 2 :: rat) * 2 ^ 64\<rfloor> = 2 ^ 63" by simp
  have "fst (sim_send demo_transport ?s) = Err MessageLost \<longleftrightarrow>
      int (unat (xorshift64 (sim_rng_state ?s))) < \<lfloor>(1 / 2 :: rat) * 2 ^ 64\<rfloor>" using a room[OF out(1)] by iprover
  moreover have "fst (sim_send demo_transport ?s') = Err MessageLost \<longleftrightarrow>
      int (unat (xorshift64 (sim_rng_state ?s'))) < \<lfloor>(1 / 2 :: rat) * 2 ^ 64\<rfloor>" using b room[OF out(2)] by iprover
  ultimately have loss: "fst (sim_send demo_transport ?s) = Err MessageLost" "fst (sim_send demo_transport ?s') \<noteq> Err MessageLost"
    using draws unfolding out half by blast+
  have "length (sim_inbox ?s) \<le> 1" using a by (simp only: max.idem)
  then show ?thesis using s s' loss by blast
qed

section \<open>Reassembly\<close>

text \<open>C26. Whatever fragments arrive, in whatever order, honest or forged: a reassembler never panics, keeps at
  most 16 messages per peer in flight, and any message it delivers is the concatenation, in order, of
  the payloads of fragments that verify under that peer's key for that message.\<close>

theorem reassembly_safe:
  assumes "ed25519_laws E" "r = snd (fold (feed_step E) fs ([], reassembler_new))" "feed E f r = (res, r')"
  shows "res \<noteq> Panic \<and> in_flight_for r' peer \<le> 16 \<and>
    (\<forall>out. res = Ok (Some out) \<longrightarrow> (\<exists>gs. gs \<noteq> [] \<and> out = concat (map fr_payload gs) \<and>
      (\<forall>i < length gs. gs ! i \<in> set (fs @ [f]) \<and> fragment_verify E (gs ! i) = Ok () \<and>
        fr_peer_pubkey (gs ! i) = fr_peer_pubkey f \<and> fr_message_id (gs ! i) = fr_message_id f \<and>
        unat (fr_total (gs ! i)) = length gs \<and> unat (fr_seq (gs ! i)) = i)))"
proof -
  have "reassembler_ok E (fs @ [f]) r"
    using feeds_ok[OF assms(1), of fs] assms(2) by (auto intro: reassembler_ok_log)
  from feed_ok[OF this assms(1) _ assms(3)] have ok: "reassembler_ok E (fs @ [f]) r'" "res \<noteq> Panic"
    "\<forall>out. res = Ok (Some out) \<longrightarrow> signed_message E (fs @ [f]) (fr_peer_pubkey f) (fr_message_id f) out" by simp_all
  have "queue_ok E (fs @ [f]) peer (queue_of r' peer)" using ok(1) by (simp add: reassembler_ok_def)
  then have "in_flight_for r' peer \<le> 16"
    by (simp add: queue_ok_def in_flight_for_def queue_of_def MAX_INFLIGHT_MESSAGES_PER_PEER_def split: option.splits)
  then show ?thesis using ok(2,3) unfolding signed_message_def signed_part_def by blast
qed

definition demo_fragment :: "u16 \<Rightarrow> u8 \<Rightarrow> fragment" where
  "demo_fragment i x =
     \<lparr>fr_peer_pubkey = replicate 32 7, fr_message_id = replicate 16 1, fr_seq = i, fr_total = 2,
      fr_signature = replicate 32 7 @ demo_digest (fragment_canonical_bytes (replicate 32 7) (replicate 16 1) i 2 [x]),
      fr_payload = [x]\<rparr>"

lemma demo_fragment_verified: "fragment_verify demo_env (demo_fragment i x) = Ok ()"
  using demo_signed[of 7] by (simp add: fragment_verify_def demo_fragment_def to_array_def)

text \<open>C27. A message that its sender cuts into parts and signs is delivered by its fragments, fed each once
  and in any order to a reassembler with no buffer for it: every one but the last is accepted and the
  last one returns the message. When the message is the compact form of a block, decoding it gives that
  very block.\<close>

theorem reassembly_complete:
  assumes "ed25519_laws E" "0 < length parts" "length parts < 2 ^ 16"
    and "mset fs = mset (map (sealed_fragment E k mid parts) [0..<length parts])"
    and "position_of mid (queue_of r (pubkey_of E k)) = None"
  shows "feed_all E fs r = replicate (length parts - 1) (Ok None) @ [Ok (Some (concat parts))] \<and>
    (\<forall>b. hex_laws E \<and> canonical_block E b \<and> to_compact_bytes E b = Ok (concat parts) \<longrightarrow>
      from_compact_bytes E (concat parts) = Ok b)"
  using sealed_parts_delivered[OF assms] from_to_compact_bytes[of E _ "concat parts"] by blast

lemma demo_parts:
  "honest_part demo_env (replicate 32 7) (replicate 16 1) 2 (\<lambda>i. [of_nat i]) (demo_fragment 0 0)"
  "honest_part demo_env (replicate 32 7) (replicate 16 1) 2 (\<lambda>i. [of_nat i]) (demo_fragment 1 1)"
  by (simp_all add: honest_part_def demo_fragment_verified) (simp_all add: demo_fragment_def)

lemma demo_seqs: "(\<lambda>f. unat (fr_seq f)) ` set [demo_fragment 1 1, demo_fragment 0 0] = {..<unat (2 :: u16)}"
  by (auto simp: demo_fragment_def)

lemma demo_unopened: "position_of (replicate 16 1) (queue_of reassembler_new (replicate 32 7)) = None"
  by (simp add: queue_of_def reassembler_new_def)

lemma demo_delivered: "feed_all demo_env [demo_fragment 1 1, demo_fragment 0 0] reassembler_new =
    [Ok None, Ok (Some [0, 1])]"
proof -
  have "feed_all demo_env [demo_fragment 1 1, demo_fragment 0 0] reassembler_new =
      replicate (length [demo_fragment 1 1, demo_fragment 0 0] - 1) (Ok None) @
      [Ok (Some (concat (map (\<lambda>i. [of_nat i]) [0..<unat (2 :: u16)])))]"
    by (rule feed_all_honest[where S = "{}" and peer = "replicate 32 7" and mid = "replicate 16 1"])
      (use demo_parts demo_seqs demo_unopened in \<open>simp_all, simp_all add: demo_fragment_def\<close>)
  then show ?thesis by (simp add: upt_rec)
qed

theorem reassembly_complete_witness:
  "\<exists>b d. to_compact_bytes demo_env b = Ok d \<and> from_compact_bytes demo_env d = Ok b \<and>
    feed_all demo_env (map (sealed_fragment demo_env 7 (replicate 16 1) [take 100 d, drop 100 d]) [1, 0])
      reassembler_new = [Ok None, Ok (Some d)]"
proof -
  obtain b d where b: "canonical_block demo_env b" "to_compact_bytes demo_env b = Ok d"
    using demo_compact by blast
  let ?parts = "[take 100 d, drop 100 d]"
  have free: "position_of (replicate 16 1) (queue_of reassembler_new (pubkey_of demo_env 7)) = None"
    by (simp add: queue_of_def reassembler_new_def)
  show ?thesis
    using reassembly_complete[OF demo_ed25519_laws _ _ _ free, of ?parts
        "map (sealed_fragment demo_env 7 (replicate 16 1) ?parts) [1, 0]"] b demo_hex_laws
    by (auto simp: upt_rec add_mset_commute)
qed

theorem reassembly_safe_witness:
  "\<exists>r r'. r = snd (fold (feed_step demo_env) [demo_fragment 1 1] ([], reassembler_new)) \<and>
    feed demo_env (demo_fragment 0 0) r = (Ok (Some [0, 1]), r') \<and> in_flight_for r' (replicate 32 7) \<le> 16"
proof -
  let ?r = "snd (fold (feed_step demo_env) [demo_fragment 1 1] ([], reassembler_new))"
  obtain res r' where run: "feed demo_env (demo_fragment 0 0) ?r = (res, r')" by force
  then have "res = Ok (Some [0, 1])" using demo_delivered by (simp add: feed_step_def)
  then show ?thesis using reassembly_safe[OF demo_ed25519_laws refl run] run by blast
qed

end
