(* ===== verification/Storage.thy ===== *)
theory Storage
  imports Crypto Interfaces
begin

text \<open>
  Crate \<open>arxia-storage\<close>: the in-memory key-value store, its transactions, the variant with an
  internal lock and the checksummed values. The store and a transaction's view are instances of
  \<open>key_value_store\<close>; a commit makes the view the store, and a checksummed value reads back unless
  it was changed.
\<close>

section \<open>The store\<close>

type_synonym memory_storage = "(bytes, bytes) hmap"

definition ms_new :: memory_storage where "ms_new = []"

definition ms_put :: "bytes \<Rightarrow> bytes \<Rightarrow> memory_storage \<Rightarrow> memory_storage" where
  "ms_put key v self = hm_insert key v self"

definition ms_get :: "memory_storage \<Rightarrow> bytes \<Rightarrow> bytes option" where
  "ms_get self key = map_of self key"

definition ms_delete :: "bytes \<Rightarrow> memory_storage \<Rightarrow> bool \<times> memory_storage" where
  "ms_delete key self = (map_of self key \<noteq> None, hm_remove key self)"

definition ms_contains :: "memory_storage \<Rightarrow> bytes \<Rightarrow> bool" where
  "ms_contains self key \<longleftrightarrow> map_of self key \<noteq> None"

interpretation memory: key_value_store hm_wf ms_get ms_put ms_delete ms_contains
  by unfold_locales
    (auto simp: ms_put_def ms_get_def ms_delete_def ms_contains_def fun_eq_iff)

section \<open>Transactions\<close>

datatype staged_op = StagedPut bytes | StagedDelete

record memory_transaction =
  tx_store :: memory_storage
  tx_staged :: "(bytes, staged_op) hmap"
  tx_committed :: bool

definition begin_transaction :: "memory_storage \<Rightarrow> memory_transaction" where
  "begin_transaction self = \<lparr>tx_store = self, tx_staged = [], tx_committed = False\<rparr>"

definition tx_put :: "bytes \<Rightarrow> bytes \<Rightarrow> memory_transaction \<Rightarrow> memory_transaction" where
  "tx_put key v self = self\<lparr>tx_staged := hm_insert key (StagedPut v) (tx_staged self)\<rparr>"

definition tx_contains :: "memory_transaction \<Rightarrow> bytes \<Rightarrow> bool" where
  "tx_contains self key =
     (case map_of (tx_staged self) key of
        Some (StagedPut v) \<Rightarrow> True | Some StagedDelete \<Rightarrow> False | None \<Rightarrow> ms_contains (tx_store self) key)"

definition tx_delete :: "bytes \<Rightarrow> memory_transaction \<Rightarrow> bool \<times> memory_transaction" where
  "tx_delete key self =
     (let exists_in_view = tx_contains self key
      in (exists_in_view, self\<lparr>tx_staged := hm_insert key StagedDelete (tx_staged self)\<rparr>))"

definition tx_get :: "memory_transaction \<Rightarrow> bytes \<Rightarrow> bytes option" where
  "tx_get self key =
     (case map_of (tx_staged self) key of
        Some (StagedPut v) \<Rightarrow> Some v | Some StagedDelete \<Rightarrow> None | None \<Rightarrow> ms_get (tx_store self) key)"

definition staged_op_count :: "memory_transaction \<Rightarrow> nat" where
  "staged_op_count self = length (tx_staged self)"

definition apply_staged :: "bytes \<times> staged_op \<Rightarrow> memory_storage \<Rightarrow> memory_storage" where
  "apply_staged e store =
     (case snd e of StagedPut v \<Rightarrow> hm_insert (fst e) v store | StagedDelete \<Rightarrow> hm_remove (fst e) store)"

definition tx_commit :: "memory_transaction \<Rightarrow> memory_storage" where
  "tx_commit self = fold apply_staged (tx_staged self) (tx_store self)"

definition tx_rollback :: "memory_transaction \<Rightarrow> memory_storage" where
  "tx_rollback self = tx_store self"

definition atomic_put_batch :: "(bytes \<times> bytes) list \<Rightarrow> memory_storage \<Rightarrow> memory_storage" where
  "atomic_put_batch items self = tx_commit (fold (\<lambda>(k, v). tx_put k v) items (begin_transaction self))"

definition tx_ok :: "memory_transaction \<Rightarrow> bool" where
  "tx_ok t \<longleftrightarrow> hm_wf (tx_store t) \<and> hm_wf (tx_staged t)"

interpretation view: key_value_store tx_ok tx_get tx_put tx_delete tx_contains
proof unfold_locales
  fix t :: memory_transaction and k v :: bytes
  show "tx_ok t \<Longrightarrow> tx_ok (tx_put k v t)" by (simp add: tx_ok_def tx_put_def)
  show "tx_ok t \<Longrightarrow> tx_ok (snd (tx_delete k t))" by (simp add: tx_ok_def tx_delete_def Let_def)
  show "tx_get (tx_put k v t) = (tx_get t)(k \<mapsto> v)"
    by (auto simp: tx_get_def tx_put_def fun_eq_iff split: option.split)
  show "tx_get (snd (tx_delete k t)) = (tx_get t)(k := None)"
    by (auto simp: tx_get_def tx_delete_def Let_def fun_eq_iff split: option.split)
  show c: "tx_contains t k \<longleftrightarrow> tx_get t k \<noteq> None"
    by (auto simp: tx_contains_def tx_get_def ms_contains_def ms_get_def split: option.split staged_op.split)
  show "fst (tx_delete k t) \<longleftrightarrow> tx_get t k \<noteq> None"
    using c by (simp add: tx_delete_def Let_def)
qed

text \<open>Applying the staged operations of a transaction in any order gives its view.\<close>

lemma fold_apply_staged:
  "distinct (map fst ops) \<Longrightarrow> map_of (fold apply_staged ops store) k =
     (case map_of ops k of
        Some (StagedPut v) \<Rightarrow> Some v | Some StagedDelete \<Rightarrow> None | None \<Rightarrow> map_of store k)"
proof (induction ops arbitrary: store)
  case Nil
  then show ?case by simp
next
  case (Cons e ops)
  obtain j s where e: "e = (j, s)" by (cases e)
  have "map_of ops j = None" using Cons.prems by (simp add: e map_of_eq_None_iff)
  moreover have "map_of (apply_staged e store) k =
      (if k = j then (case s of StagedPut v \<Rightarrow> Some v | StagedDelete \<Rightarrow> None) else map_of store k)"
    by (cases s) (auto simp: e apply_staged_def)
  ultimately show ?case using Cons by (auto simp: e split: option.split staged_op.split)
qed

lemma commit_is_view: "tx_ok t \<Longrightarrow> ms_get (tx_commit t) = tx_get t"
  by (rule ext) (simp add: tx_ok_def hm_wf_def tx_commit_def ms_get_def tx_get_def fold_apply_staged
      split: option.split staged_op.split)

lemma fold_apply_wf: "hm_wf store \<Longrightarrow> hm_wf (fold apply_staged ops store)"
  by (induction ops arbitrary: store) (auto simp: apply_staged_def split: staged_op.split)

lemma commit_wf: "tx_ok t \<Longrightarrow> hm_wf (tx_commit t)"
  by (simp add: tx_ok_def tx_commit_def fold_apply_wf)

lemma begin_ok: "hm_wf s \<Longrightarrow> tx_ok (begin_transaction s) \<and> tx_get (begin_transaction s) = ms_get s"
  by (auto simp: tx_ok_def begin_transaction_def tx_get_def fun_eq_iff)

text \<open>A batch leaves the store as putting its items one by one would.\<close>

lemma atomic_put_batch_puts:
  assumes "hm_wf s"
  shows "ms_get (atomic_put_batch items s) = ms_get (fold (\<lambda>(k, v). ms_put k v) items s)"
proof -
  have "tx_ok (fold (\<lambda>(k, v). tx_put k v) items (begin_transaction s))"
    using begin_ok[OF assms] by (intro view.ok_puts) simp
  then have "ms_get (atomic_put_batch items s) = tx_get (fold (\<lambda>(k, v). tx_put k v) items (begin_transaction s))"
    by (simp add: atomic_put_batch_def commit_is_view)
  also have "\<dots> = ms_get s ++ map_of (rev items)"
    using begin_ok[OF assms] by (simp add: view.get_puts)
  also have "\<dots> = ms_get (fold (\<lambda>(k, v). ms_put k v) items s)"
    using assms by (simp add: memory.get_puts)
  finally show ?thesis .
qed

section \<open>Transactions refine the store\<close>

datatype store_op = StorePut bytes bytes | StoreDelete bytes

fun ms_step :: "store_op \<Rightarrow> memory_storage \<Rightarrow> memory_storage" where
  "ms_step (StorePut k v) s = ms_put k v s"
| "ms_step (StoreDelete k) s = snd (ms_delete k s)"

fun tx_step :: "store_op \<Rightarrow> memory_transaction \<Rightarrow> memory_transaction" where
  "tx_step (StorePut k v) t = tx_put k v t"
| "tx_step (StoreDelete k) t = snd (tx_delete k t)"

text \<open>A transaction whose view is a store stays in step with it; its own store is not touched.\<close>

lemma tx_simulates:
  "tx_ok t \<Longrightarrow> hm_wf s \<Longrightarrow> tx_get t = ms_get s \<Longrightarrow>
    tx_ok (fold tx_step ops t) \<and> hm_wf (fold ms_step ops s) \<and>
    tx_get (fold tx_step ops t) = ms_get (fold ms_step ops s) \<and>
    tx_store (fold tx_step ops t) = tx_store t"
proof (induction ops arbitrary: s t)
  case (Cons op ops)
  have "tx_ok (tx_step op t) \<and> hm_wf (ms_step op s) \<and> tx_get (tx_step op t) = ms_get (ms_step op s)"
    using Cons.prems
    by (cases op) (simp_all only: tx_step.simps ms_step.simps view.ok_put view.ok_delete memory.ok_put memory.ok_delete
        view.get_put view.get_delete memory.get_put memory.get_delete)
  moreover have "tx_store (tx_step op t) = tx_store t"
    by (cases op) (simp_all add: tx_put_def tx_delete_def Let_def)
  ultimately show ?case using Cons.IH[of "tx_step op t" "ms_step op s"] by simp
qed simp

section \<open>The store with a lock\<close>

text \<open>Each method takes the lock first and fails when an earlier holder panicked.\<close>

record concurrent_storage =
  cs_poisoned :: bool
  cs_data :: memory_storage

definition cs_new :: concurrent_storage where
  "cs_new = \<lparr>cs_poisoned = False, cs_data = []\<rparr>"

definition cs_lock :: "concurrent_storage \<Rightarrow> (memory_storage, arxia_error) result" where
  "cs_lock self =
     (if cs_poisoned self
      then Err (InvalidKey ''ConcurrentMemoryStorage poisoned: poisoned lock: another task failed inside'')
      else Ok (cs_data self))"

definition cs_put :: "bytes \<Rightarrow> bytes \<Rightarrow> concurrent_storage \<Rightarrow> (unit, arxia_error) result \<times> concurrent_storage" where
  "cs_put key v self =
     (case cs_lock self of
        Ok guard \<Rightarrow> (Ok (), self\<lparr>cs_data := hm_insert key v guard\<rparr>)
      | Err e \<Rightarrow> (Err e, self) | Panic \<Rightarrow> (Panic, self))"

definition cs_get :: "concurrent_storage \<Rightarrow> bytes \<Rightarrow> (bytes option, arxia_error) result" where
  "cs_get self key = and_then (cs_lock self) (\<lambda>guard. Ok (map_of guard key))"

definition cs_delete :: "bytes \<Rightarrow> concurrent_storage \<Rightarrow> (bool, arxia_error) result \<times> concurrent_storage" where
  "cs_delete key self =
     (case cs_lock self of
        Ok guard \<Rightarrow> (Ok (map_of guard key \<noteq> None), self\<lparr>cs_data := hm_remove key guard\<rparr>)
      | Err e \<Rightarrow> (Err e, self) | Panic \<Rightarrow> (Panic, self))"

definition cs_contains :: "concurrent_storage \<Rightarrow> bytes \<Rightarrow> (bool, arxia_error) result" where
  "cs_contains self key = and_then (cs_lock self) (\<lambda>guard. Ok (map_of guard key \<noteq> None))"

definition cs_len :: "concurrent_storage \<Rightarrow> (nat, arxia_error) result" where
  "cs_len self = and_then (cs_lock self) (\<lambda>guard. Ok (length guard))"

definition cs_is_empty :: "concurrent_storage \<Rightarrow> (bool, arxia_error) result" where
  "cs_is_empty self = and_then (cs_len self) (\<lambda>n. Ok (n = 0))"

text \<open>Unpoisoned, the locked store is a key-value store with the same laws.\<close>

interpretation concurrent: key_value_store
  "\<lambda>s. \<not> cs_poisoned s \<and> hm_wf (cs_data s)"
  "\<lambda>s k. case cs_get s k of Ok v \<Rightarrow> v | _ \<Rightarrow> None"
  "\<lambda>k v s. snd (cs_put k v s)"
  "\<lambda>k s. (fst (cs_delete k s) = Ok True, snd (cs_delete k s))"
  "\<lambda>s k. cs_contains s k = Ok True"
  by unfold_locales
    (auto simp: cs_get_def cs_put_def cs_delete_def cs_contains_def cs_lock_def fun_eq_iff)

section \<open>Checksums\<close>

definition wrap_with_checksum :: "('sk, 'vk, 'z) crypto_scheme \<Rightarrow> bytes \<Rightarrow> bytes" where
  "wrap_with_checksum E v = hash_blake3_bytes E v @ v"

definition unwrap_with_checksum :: "('sk, 'vk, 'z) crypto_scheme \<Rightarrow> bytes \<Rightarrow> (bytes, arxia_error) result" where
  "unwrap_with_checksum E combined =
     (if length combined < 32
      then Err (InvalidKey (''checksumed value too short: got '' @ display_nat (length combined)
             @ '' bytes, need >= 32 for prefix''))
      else
        let prefix = take 32 combined; v = drop 32 combined in
        if prefix \<noteq> hash_blake3_bytes E v
        then Err (InvalidKey ''checksumed value: Blake3 prefix does not match recomputed hash (corruption or tampering)'')
        else Ok v)"

lemma unwrap_wrap: "blake3_laws E \<Longrightarrow> unwrap_with_checksum E (wrap_with_checksum E v) = Ok v"
  by (simp add: unwrap_with_checksum_def wrap_with_checksum_def hash_blake3_bytes_def blake3_laws_def)

lemma unwrap_Ok_iff:
  assumes "blake3_laws E"
  shows "unwrap_with_checksum E c = Ok v \<longleftrightarrow> c = wrap_with_checksum E v"
proof
  assume "unwrap_with_checksum E c = Ok v"
  then have "drop 32 c = v" "take 32 c = hash_blake3_bytes E v"
    by (auto simp: unwrap_with_checksum_def Let_def split: if_splits)
  then show "c = wrap_with_checksum E v"
    unfolding wrap_with_checksum_def by (metis append_take_drop_id)
qed (simp add: unwrap_wrap assms)

end
