(* ===== verification/Locking.thy ===== *)
theory Locking
  imports Storage
begin

text \<open>
  \<open>ConcurrentMemoryStorage\<close> shared by threads (\<open>arxia-storage/src/lib.rs\<close>): the body each method runs
  while it holds the guard, and an interleaving semantics in which the lock, the body and the drop of
  the guard are separate steps of the calling thread. A thread may die while it holds the guard, which
  poisons the mutex and leaves arbitrary data behind. The lemmas relate every run to the sequential
  run of the same calls in the order of their critical sections.
\<close>

section \<open>The calls and their critical sections\<close>

datatype cs_call =
    CallPut bytes bytes
  | CallGet bytes
  | CallDelete bytes
  | CallContains bytes
  | CallLen
  | CallIsEmpty

datatype cs_reply = NoReply | ReplyValue "bytes option" | ReplyBool bool | ReplyLen nat

text \<open>What a method does with the guard, and its result.\<close>

fun cs_body :: "cs_call \<Rightarrow> memory_storage \<Rightarrow> cs_reply \<times> memory_storage" where
  "cs_body (CallPut key v) guard = (NoReply, hm_insert key v guard)"
| "cs_body (CallGet key) guard = (ReplyValue (map_of guard key), guard)"
| "cs_body (CallDelete key) guard = (ReplyBool (map_of guard key \<noteq> None), hm_remove key guard)"
| "cs_body (CallContains key) guard = (ReplyBool (map_of guard key \<noteq> None), guard)"
| "cs_body CallLen guard = (ReplyLen (length guard), guard)"
| "cs_body CallIsEmpty guard = (ReplyBool (length guard = 0), guard)"

text \<open>The methods as one operation: a call made on its own.\<close>

fun cs_exec :: "cs_call \<Rightarrow> concurrent_storage \<Rightarrow> (cs_reply, arxia_error) result \<times> concurrent_storage" where
  "cs_exec (CallPut key v) st = (map_ok (\<lambda>_. NoReply) (fst (cs_put key v st)), snd (cs_put key v st))"
| "cs_exec (CallGet key) st = (map_ok ReplyValue (cs_get st key), st)"
| "cs_exec (CallDelete key) st = (map_ok ReplyBool (fst (cs_delete key st)), snd (cs_delete key st))"
| "cs_exec (CallContains key) st = (map_ok ReplyBool (cs_contains st key), st)"
| "cs_exec CallLen st = (map_ok ReplyLen (cs_len st), st)"
| "cs_exec CallIsEmpty st = (map_ok ReplyBool (cs_is_empty st), st)"

lemma cs_lock_not_panic [simp]: "cs_lock st \<noteq> Panic"
  by (simp add: cs_lock_def)

text \<open>Each method is its critical section behind the lock.\<close>

lemma cs_exec_body:
  "cs_exec c st = (case cs_lock st of
      Ok guard \<Rightarrow> (Ok (fst (cs_body c guard)), st\<lparr>cs_data := snd (cs_body c guard)\<rparr>)
    | Err e \<Rightarrow> (Err e, st)
    | Panic \<Rightarrow> (Panic, st))"
  by (cases c; cases "cs_poisoned st")
    (simp_all add: cs_lock_def cs_put_def cs_get_def cs_delete_def cs_contains_def cs_len_def cs_is_empty_def)

section \<open>Threads that share the store\<close>

datatype thread_pc =
    Outside
  | Inside cs_call
  | Leaving "(cs_reply, arxia_error) result"
  | Dead

record thread =
  th_pc :: thread_pc
  th_todo :: "cs_call list"
  th_replies :: "(cs_reply, arxia_error) result list"

record shared_system =
  sy_store :: concurrent_storage
  sy_holder :: "nat option"
  sy_threads :: "thread list"

datatype lock_event = Ran nat cs_call | Died nat cs_call memory_storage

definition set_thread :: "nat \<Rightarrow> thread \<Rightarrow> shared_system \<Rightarrow> shared_system" where
  "set_thread t th s = s\<lparr>sy_threads := (sy_threads s)[t := th]\<rparr>"

text \<open>A step of a thread, labelled with the critical section it ran, if it ran one. \<open>lock\<close> waits until no
  thread holds the guard, also when the mutex is poisoned.\<close>

inductive lock_step :: "shared_system \<Rightarrow> lock_event list \<Rightarrow> shared_system \<Rightarrow> bool" where
  acquire: "t < length (sy_threads s) \<Longrightarrow> th = sy_threads s ! t \<Longrightarrow> th_pc th = Outside \<Longrightarrow>
    th_todo th = c # cs \<Longrightarrow> sy_holder s = None \<Longrightarrow>
    lock_step s [] (set_thread t (th\<lparr>th_pc := Inside c, th_todo := cs\<rparr>) (s\<lparr>sy_holder := Some t\<rparr>))"
| run: "t < length (sy_threads s) \<Longrightarrow> th = sy_threads s ! t \<Longrightarrow> th_pc th = Inside c \<Longrightarrow>
    cs_lock (sy_store s) = Ok guard \<Longrightarrow> cs_body c guard = (r, d) \<Longrightarrow>
    lock_step s [Ran t c] (set_thread t (th\<lparr>th_pc := Leaving (Ok r)\<rparr>)
      (s\<lparr>sy_store := (sy_store s)\<lparr>cs_data := d\<rparr>\<rparr>))"
| poisoned: "t < length (sy_threads s) \<Longrightarrow> th = sy_threads s ! t \<Longrightarrow> th_pc th = Inside c \<Longrightarrow>
    cs_lock (sy_store s) = Err e \<Longrightarrow>
    lock_step s [Ran t c] (set_thread t (th\<lparr>th_pc := Leaving (Err e)\<rparr>) s)"
| die: "t < length (sy_threads s) \<Longrightarrow> th = sy_threads s ! t \<Longrightarrow> th_pc th = Inside c \<Longrightarrow>
    cs_lock (sy_store s) = Ok guard \<Longrightarrow>
    lock_step s [Died t c d] (set_thread t (th\<lparr>th_pc := Dead\<rparr>)
      (s\<lparr>sy_store := \<lparr>cs_poisoned = True, cs_data = d\<rparr>, sy_holder := None\<rparr>))"
| drop_guard: "t < length (sy_threads s) \<Longrightarrow> th = sy_threads s ! t \<Longrightarrow> th_pc th = Leaving r \<Longrightarrow>
    lock_step s [] (set_thread t (th\<lparr>th_pc := Outside, th_replies := th_replies th @ [r]\<rparr>)
      (s\<lparr>sy_holder := None\<rparr>))"

inductive lock_run :: "shared_system \<Rightarrow> nat \<Rightarrow> lock_event list \<Rightarrow> shared_system \<Rightarrow> bool" for s0 where
  start: "lock_run s0 0 [] s0"
| more: "lock_run s0 n es s \<Longrightarrow> lock_step s fs s' \<Longrightarrow> lock_run s0 (Suc n) (es @ fs) s'"

definition start_threads :: "cs_call list list \<Rightarrow> concurrent_storage \<Rightarrow> shared_system" where
  "start_threads prog st = \<lparr>sy_store = st, sy_holder = None,
     sy_threads = map (\<lambda>cs. \<lparr>th_pc = Outside, th_todo = cs, th_replies = []\<rparr>) prog\<rparr>"

section \<open>The sequential reference\<close>

text \<open>The same critical sections one after another, as calls of the methods.\<close>

fun replay :: "lock_event list \<Rightarrow> concurrent_storage
    \<Rightarrow> (nat \<times> (cs_reply, arxia_error) result) list \<times> concurrent_storage" where
  "replay [] st = ([], st)"
| "replay (Ran t c # es) st =
     (let (r, st') = cs_exec c st; (rs, st'') = replay es st' in ((t, r) # rs, st''))"
| "replay (Died t c d # es) st = replay es \<lparr>cs_poisoned = True, cs_data = d\<rparr>"

definition replies_of :: "nat \<Rightarrow> lock_event list \<Rightarrow> concurrent_storage \<Rightarrow> (cs_reply, arxia_error) result list" where
  "replies_of t es st = map snd (filter (\<lambda>r. fst r = t) (fst (replay es st)))"

fun calls_of :: "nat \<Rightarrow> lock_event list \<Rightarrow> cs_call list" where
  "calls_of t [] = []"
| "calls_of t (Ran u c # es) = (if u = t then [c] else []) @ calls_of t es"
| "calls_of t (Died u c d # es) = (if u = t then [c] else []) @ calls_of t es"

lemma replay_append:
  "replay (es @ fs) st =
     (fst (replay es st) @ fst (replay fs (snd (replay es st))), snd (replay fs (snd (replay es st))))"
  by (induction es st rule: replay.induct) (simp_all add: Let_def split: prod.split)

lemma replies_of_append:
  "replies_of t (es @ fs) st = replies_of t es st @ replies_of t fs (snd (replay es st))"
  by (simp add: replies_of_def replay_append)

lemma calls_of_append [simp]: "calls_of t (es @ fs) = calls_of t es @ calls_of t fs"
  by (induction t es rule: calls_of.induct) simp_all

section \<open>Every run is a sequential run\<close>

definition active :: "thread \<Rightarrow> bool" where
  "active th \<longleftrightarrow> th_pc th \<noteq> Outside \<and> th_pc th \<noteq> Dead"

definition pending_replies :: "thread \<Rightarrow> (cs_reply, arxia_error) result list" where
  "pending_replies th = (case th_pc th of Leaving r \<Rightarrow> [r] | _ \<Rightarrow> [])"

definition pending_calls :: "thread \<Rightarrow> cs_call list" where
  "pending_calls th = (case th_pc th of Inside c \<Rightarrow> c # th_todo th | _ \<Rightarrow> th_todo th)"

definition thread_ok :: "cs_call list \<Rightarrow> lock_event list \<Rightarrow> concurrent_storage \<Rightarrow> nat option \<Rightarrow> nat \<Rightarrow> thread \<Rightarrow> bool" where
  "thread_ok calls es st holder t th \<longleftrightarrow> (active th \<longleftrightarrow> holder = Some t) \<and>
     th_replies th @ pending_replies th = replies_of t es st \<and> calls_of t es @ pending_calls th = calls"

definition system_ok :: "cs_call list list \<Rightarrow> concurrent_storage \<Rightarrow> lock_event list \<Rightarrow> shared_system \<Rightarrow> bool" where
  "system_ok prog st es s \<longleftrightarrow> length (sy_threads s) = length prog \<and> sy_store s = snd (replay es st) \<and>
     (\<forall>t. sy_holder s = Some t \<longrightarrow> t < length prog) \<and>
     (\<forall>t < length prog. thread_ok (prog ! t) es st (sy_holder s) t (sy_threads s ! t))"

text \<open>A step of one thread keeps the claim about another when it ran no section of it and takes or
  drops the guard for itself.\<close>

lemma thread_ok_other:
  assumes "thread_ok calls es st holder u th" "u \<noteq> t" "holder = None \<or> holder = Some t"
    and "holder' = None \<or> holder' = Some t" "calls_of u fs = []" "replies_of u fs (snd (replay es st)) = []"
  shows "thread_ok calls (es @ fs) st holder' u th"
  using assms by (auto simp: thread_ok_def replies_of_append)

lemma system_ok_step:
  assumes s: "system_ok prog st es s" and t: "t < length prog"
    and holder: "sy_holder s = None \<or> sy_holder s = Some t"
    and s': "sy_threads s' = (sy_threads s)[t := th']" "sy_store s' = store'" "sy_holder s' = holder'"
    and holder': "holder' = None \<or> holder' = Some t"
    and others: "\<And>u. u \<noteq> t \<Longrightarrow> calls_of u fs = [] \<and> replies_of u fs (snd (replay es st)) = []"
    and store: "store' = snd (replay fs (sy_store s))"
    and self: "thread_ok (prog ! t) (es @ fs) st holder' t th'"
  shows "system_ok prog st (es @ fs) s'"
proof -
  have "thread_ok (prog ! u) (es @ fs) st holder' u (sy_threads s' ! u)" if "u < length prog" for u
  proof (cases "u = t")
    case True
    then show ?thesis using s t self by (simp add: s' system_ok_def)
  next
    case False
    then have "thread_ok (prog ! u) (es @ fs) st holder' u (sy_threads s ! u)"
      using s that others[OF False] holder holder' by (intro thread_ok_other[of _ _ _ "sy_holder s" _ _ t])
        (simp_all add: system_ok_def)
    then show ?thesis using False by (simp add: s')
  qed
  then show ?thesis
    using s t holder' store by (auto simp: s' system_ok_def replay_append)
qed

lemma replies_of_single:
  "replies_of u [Ran t c] st = (if u = t then [fst (cs_exec c st)] else [])"
  "replies_of u [Died t c d] st = []" "replies_of u [] st = []"
  by (simp_all add: replies_of_def split: prod.split)

lemma system_ok_lock_step:
  assumes "lock_step s fs s'" "system_ok prog st es s"
  shows "system_ok prog st (es @ fs) s'"
  using assms
proof cases
  case (acquire t th c cs)
  then have t: "t < length prog" and ok: "thread_ok (prog ! t) es st (sy_holder s) t th"
    using assms(2) by (simp_all add: system_ok_def)
  show ?thesis
    by (rule system_ok_step[OF assms(2) t, where th' = "th\<lparr>th_pc := Inside c, th_todo := cs\<rparr>"
        and store' = "sy_store s" and holder' = "Some t"])
      (use acquire ok in \<open>simp_all add: set_thread_def replies_of_single thread_ok_def active_def pending_calls_def pending_replies_def\<close>)
next
  case (run t th c guard r d)
  then have t: "t < length prog" and ok: "thread_ok (prog ! t) es st (sy_holder s) t th"
      and store: "sy_store s = snd (replay es st)"
    using assms(2) by (simp_all add: system_ok_def)
  then have h: "sy_holder s = Some t" using run by (simp add: thread_ok_def active_def)
  have exec: "cs_exec c (sy_store s) = (Ok r, (sy_store s)\<lparr>cs_data := d\<rparr>)"
    using run by (simp add: cs_exec_body)
  show ?thesis
    by (rule system_ok_step[OF assms(2) t, where th' = "th\<lparr>th_pc := Leaving (Ok r)\<rparr>"
        and store' = "(sy_store s)\<lparr>cs_data := d\<rparr>" and holder' = "sy_holder s"])
      (use run ok h exec store in \<open>simp_all add: set_thread_def replies_of_append replies_of_single thread_ok_def active_def
        pending_calls_def pending_replies_def\<close>)
next
  case (poisoned t th c e)
  then have t: "t < length prog" and ok: "thread_ok (prog ! t) es st (sy_holder s) t th"
      and store: "sy_store s = snd (replay es st)"
    using assms(2) by (simp_all add: system_ok_def)
  then have h: "sy_holder s = Some t" using poisoned by (simp add: thread_ok_def active_def)
  have exec: "cs_exec c (sy_store s) = (Err e, sy_store s)"
    using poisoned by (simp add: cs_exec_body)
  show ?thesis
    by (rule system_ok_step[OF assms(2) t, where th' = "th\<lparr>th_pc := Leaving (Err e)\<rparr>"
        and store' = "sy_store s" and holder' = "sy_holder s"])
      (use poisoned ok h exec store in \<open>simp_all add: set_thread_def replies_of_append replies_of_single thread_ok_def active_def
        pending_calls_def pending_replies_def\<close>)
next
  case (die t th c guard d)
  then have t: "t < length prog" and ok: "thread_ok (prog ! t) es st (sy_holder s) t th"
    using assms(2) by (simp_all add: system_ok_def)
  then have h: "sy_holder s = Some t" using die by (simp add: thread_ok_def active_def)
  show ?thesis
    by (rule system_ok_step[OF assms(2) t, where th' = "th\<lparr>th_pc := Dead\<rparr>"
        and store' = "\<lparr>cs_poisoned = True, cs_data = d\<rparr>" and holder' = None])
      (use die ok h in \<open>simp_all add: set_thread_def replies_of_append replies_of_single thread_ok_def active_def
        pending_calls_def pending_replies_def\<close>)
next
  case (drop_guard t th r)
  then have t: "t < length prog" and ok: "thread_ok (prog ! t) es st (sy_holder s) t th"
    using assms(2) by (simp_all add: system_ok_def)
  then have h: "sy_holder s = Some t" using drop_guard by (simp add: thread_ok_def active_def)
  show ?thesis
    by (rule system_ok_step[OF assms(2) t, where th' = "th\<lparr>th_pc := Outside, th_replies := th_replies th @ [r]\<rparr>"
        and store' = "sy_store s" and holder' = None])
      (use drop_guard ok h in \<open>simp_all add: set_thread_def replies_of_single thread_ok_def active_def pending_calls_def pending_replies_def\<close>)
qed

lemma start_ok: "system_ok prog st [] (start_threads prog st)"
  by (simp add: system_ok_def start_threads_def thread_ok_def active_def pending_replies_def pending_calls_def
      replies_of_single)

lemma run_ok: "lock_run (start_threads prog st) n es s \<Longrightarrow> system_ok prog st es s"
  by (induction rule: lock_run.induct) (auto intro: start_ok system_ok_lock_step)

section \<open>No run blocks or goes on for ever\<close>

definition thread_cost :: "thread \<Rightarrow> nat" where
  "thread_cost th = 3 * length (th_todo th) + (case th_pc th of Inside _ \<Rightarrow> 2 | Leaving _ \<Rightarrow> 1 | _ \<Rightarrow> 0)"

definition system_cost :: "shared_system \<Rightarrow> nat" where
  "system_cost s = sum_list (map thread_cost (sy_threads s))"

lemma cost_set_thread:
  assumes "t < length (sy_threads s)" "sy_threads s' = sy_threads s" "thread_cost th < thread_cost (sy_threads s ! t)"
  shows "system_cost (set_thread t th s') < system_cost s"
proof -
  let ?xs = "map thread_cost (sy_threads s)"
  have "sum_list (?xs[t := thread_cost th]) + ?xs ! t = sum_list ?xs + thread_cost th"
    using assms(1) sum_list_update[of t ?xs "thread_cost th"] elem_le_sum_list[of t ?xs] by simp
  then show ?thesis using assms by (simp add: system_cost_def set_thread_def map_update)
qed

lemma lock_step_cost: "lock_step s fs s' \<Longrightarrow> system_cost s' < system_cost s"
  by (induction rule: lock_step.induct) (rule cost_set_thread; simp add: thread_cost_def)+

lemma run_cost: "lock_run s0 n es s \<Longrightarrow> n + system_cost s \<le> system_cost s0"
  by (induction rule: lock_run.induct) (auto dest: lock_step_cost)

lemma start_cost: "system_cost (start_threads prog st) = 3 * sum_list (map length prog)"
  by (induction prog) (simp_all add: system_cost_def start_threads_def thread_cost_def)

lemma active_step:
  assumes "t < length (sy_threads s)" "active (sy_threads s ! t)"
  shows "\<exists>fs s'. lock_step s fs s'"
proof (cases "th_pc (sy_threads s ! t)")
  case (Inside c)
  show ?thesis
  proof (cases "cs_lock (sy_store s)")
    case (Ok guard)
    then show ?thesis using lock_step.run[OF assms(1) refl Inside Ok prod.collapse[symmetric]] by blast
  next
    case (Err e)
    then show ?thesis using lock_step.poisoned[OF assms(1) refl Inside Err] by blast
  qed simp
next
  case (Leaving r)
  then show ?thesis using lock_step.drop_guard[OF assms(1) refl Leaving] by blast
qed (use assms in \<open>simp_all add: active_def\<close>)

lemma blocked_done:
  assumes ok: "system_ok prog st es s" and stuck: "\<nexists>fs s'. lock_step s fs s'" and t: "t < length prog"
  shows "th_pc (sy_threads s ! t) = Dead \<or>
    th_replies (sy_threads s ! t) = replies_of t es st \<and> calls_of t es = prog ! t"
proof -
  let ?th = "sy_threads s ! t"
  have len: "length (sy_threads s) = length prog" using ok by (simp add: system_ok_def)
  have idle: "\<not> active (sy_threads s ! u)" if "u < length prog" for u
    using active_step[of u s] stuck that len by auto
  then have "sy_holder s = None"
    using ok by (cases "sy_holder s") (auto simp: system_ok_def thread_ok_def)
  then have todo: "th_todo ?th = []" if "th_pc ?th = Outside"
    using lock_step.acquire[of t s ?th] that stuck t len by (cases "th_todo ?th") auto
  have "thread_ok (prog ! t) es st (sy_holder s) t ?th" using ok t by (simp add: system_ok_def)
  then show ?thesis
    using idle[OF t] todo
    by (cases "th_pc ?th") (simp_all add: thread_ok_def active_def pending_replies_def pending_calls_def)
qed

end
