(* ===== verification/Contracts.thy ===== *)
theory Contracts
  imports Crypto Interfaces
begin

text \<open>
  The contracts: \<open>contracts/escrow\<close> (an escrow released by its recipient or refunded to its
  sender) and \<open>contracts/token-lock\<close> (a deadline lock and a linear vesting schedule). The escrow
  checks signatures with \<open>VerifyingKey::verify\<close>, not with the strict check of \<open>arxia-crypto\<close>.
  Its error texts are strings in the code and here.
\<close>

section \<open>Escrow\<close>

definition ESCROW_RELEASE_DOMAIN :: bytes where
  "ESCROW_RELEASE_DOMAIN = str_bytes ''arxia-escrow-release-v1''"

definition ESCROW_REFUND_DOMAIN :: bytes where
  "ESCROW_REFUND_DOMAIN = str_bytes ''arxia-escrow-refund-v1''"

datatype escrow_state = Locked | Released | Refunded

record escrow =
  es_sender :: string
  es_recipient :: string
  es_amount :: u64
  es_state :: escrow_state
  es_timeout :: u64

definition escrow_new :: "string \<Rightarrow> string \<Rightarrow> u64 \<Rightarrow> u64 \<Rightarrow> escrow" where
  "escrow_new sender recipient amount timeout =
     \<lparr>es_sender = sender, es_recipient = recipient, es_amount = amount, es_state = Locked, es_timeout = timeout\<rparr>"

definition escrow_identity_bytes :: "('sk, 'vk, 'z) crypto_scheme \<Rightarrow> escrow \<Rightarrow> (bytes, string) result" where
  "escrow_identity_bytes E self =
     and_then (map_err (\<lambda>_. ''sender is not valid hex'') (hex_decode E (es_sender self))) (\<lambda>sender_bytes.
     and_then (map_err (\<lambda>_. ''recipient is not valid hex'') (hex_decode E (es_recipient self))) (\<lambda>recipient_bytes.
     and_then (fail_if (length sender_bytes \<noteq> 32) ''sender must be a 32-byte pubkey'') (\<lambda>_.
     and_then (fail_if (length recipient_bytes \<noteq> 32) ''recipient must be a 32-byte pubkey'') (\<lambda>_.
       Ok (sender_bytes @ recipient_bytes @ u64_to_be (es_amount self) @ u64_to_be (es_timeout self))))))"

definition release_message :: "('sk, 'vk, 'z) crypto_scheme \<Rightarrow> escrow \<Rightarrow> (bytes, string) result" where
  "release_message E self = map_ok (\<lambda>ident. ESCROW_RELEASE_DOMAIN @ ident) (escrow_identity_bytes E self)"

definition refund_message :: "('sk, 'vk, 'z) crypto_scheme \<Rightarrow> escrow \<Rightarrow> (bytes, string) result" where
  "refund_message E self = map_ok (\<lambda>ident. ESCROW_REFUND_DOMAIN @ ident) (escrow_identity_bytes E self)"

text \<open>The checks of a handler, in order, and the state it leaves: changed only when all pass.\<close>

definition release :: "('sk, 'vk, 'z) crypto_scheme \<Rightarrow> bytes \<Rightarrow> bytes \<Rightarrow> escrow \<Rightarrow> (unit, string) result \<times> escrow" where
  "release E caller_pubkey signature self =
     (let r =
        and_then (fail_if (es_state self \<noteq> Locked) ''escrow is not in locked state'') (\<lambda>_.
        and_then (map_err (\<lambda>_. ''recipient is not valid hex'') (hex_decode E (es_recipient self))) (\<lambda>recipient_bytes.
        and_then (fail_if (length recipient_bytes \<noteq> 32) ''recipient must be a 32-byte pubkey'') (\<lambda>_.
        and_then (fail_if (recipient_bytes \<noteq> caller_pubkey) ''caller is not the recipient'') (\<lambda>_.
        and_then (release_message E self) (\<lambda>msg.
        and_then (map_err (\<lambda>_. ''invalid caller pubkey'') (vk_from_bytes E caller_pubkey)) (\<lambda>vk.
          map_err (\<lambda>_. ''invalid signature'') (vk_verify E vk msg signature)))))))
      in (r, if r = Ok () then self\<lparr>es_state := Released\<rparr> else self))"

definition refund ::
    "('sk, 'vk, 'z) crypto_scheme \<Rightarrow> bytes \<Rightarrow> bytes \<Rightarrow> u64 \<Rightarrow> escrow \<Rightarrow> (unit, string) result \<times> escrow" where
  "refund E caller_pubkey signature current_time self =
     (let r =
        and_then (fail_if (es_state self \<noteq> Locked) ''escrow is not in locked state'') (\<lambda>_.
        and_then (fail_if (current_time < es_timeout self) ''timeout has not elapsed'') (\<lambda>_.
        and_then (map_err (\<lambda>_. ''sender is not valid hex'') (hex_decode E (es_sender self))) (\<lambda>sender_bytes.
        and_then (fail_if (length sender_bytes \<noteq> 32) ''sender must be a 32-byte pubkey'') (\<lambda>_.
        and_then (fail_if (sender_bytes \<noteq> caller_pubkey) ''caller is not the sender'') (\<lambda>_.
        and_then (refund_message E self) (\<lambda>msg.
        and_then (map_err (\<lambda>_. ''invalid caller pubkey'') (vk_from_bytes E caller_pubkey)) (\<lambda>vk.
          map_err (\<lambda>_. ''invalid signature'') (vk_verify E vk msg signature))))))))
      in (r, if r = Ok () then self\<lparr>es_state := Refunded\<rparr> else self))"

datatype escrow_op = DoRelease bytes bytes | DoRefund bytes bytes u64

fun escrow_call :: "('sk, 'vk, 'z) crypto_scheme \<Rightarrow> escrow_op \<Rightarrow> escrow \<Rightarrow> (unit, string) result \<times> escrow" where
  "escrow_call E (DoRelease pk sig) self = release E pk sig self"
| "escrow_call E (DoRefund pk sig now) self = refund E pk sig now self"

definition escrow_step :: "('sk, 'vk, 'z) crypto_scheme \<Rightarrow> escrow_op \<Rightarrow> escrow \<Rightarrow> escrow" where
  "escrow_step E op self = snd (escrow_call E op self)"

text \<open>What authorises each call.\<close>

definition release_authorised :: "('sk, 'vk, 'z) crypto_scheme \<Rightarrow> bytes \<Rightarrow> bytes \<Rightarrow> escrow \<Rightarrow> bool" where
  "release_authorised E pk sig self \<longleftrightarrow> hex_decode E (es_recipient self) = Ok pk \<and>
     (\<exists>msg vk. release_message E self = Ok msg \<and> vk_from_bytes E pk = Ok vk \<and> vk_verify E vk msg sig = Ok ())"

definition refund_authorised :: "('sk, 'vk, 'z) crypto_scheme \<Rightarrow> bytes \<Rightarrow> bytes \<Rightarrow> escrow \<Rightarrow> bool" where
  "refund_authorised E pk sig self \<longleftrightarrow> hex_decode E (es_sender self) = Ok pk \<and>
     (\<exists>msg vk. refund_message E self = Ok msg \<and> vk_from_bytes E pk = Ok vk \<and> vk_verify E vk msg sig = Ok ())"

lemma identity_bytes_Ok:
  "escrow_identity_bytes E self = Ok c \<longleftrightarrow> (\<exists>s r. hex_decode E (es_sender self) = Ok s \<and> hex_decode E (es_recipient self) = Ok r \<and>
     length s = 32 \<and> length r = 32 \<and> c = s @ r @ u64_to_be (es_amount self) @ u64_to_be (es_timeout self))"
  by (auto simp: escrow_identity_bytes_def outcome_simps)

lemma release_Ok_iff:
  "fst (release E pk sig self) = Ok () \<longleftrightarrow> es_state self = Locked \<and> release_authorised E pk sig self"
  by (auto simp: release_def Let_def outcome_simps release_authorised_def release_message_def identity_bytes_Ok)

lemma refund_Ok_iff:
  "fst (refund E pk sig now self) = Ok () \<longleftrightarrow>
    es_state self = Locked \<and> es_timeout self \<le> now \<and> refund_authorised E pk sig self"
  by (auto simp: refund_def Let_def outcome_simps refund_authorised_def refund_message_def identity_bytes_Ok)

lemma release_state: "snd (release E pk sig self) =
    (if fst (release E pk sig self) = Ok () then self\<lparr>es_state := Released\<rparr> else self)"
  by (simp add: release_def Let_def)

lemma refund_state: "snd (refund E pk sig now self) =
    (if fst (refund E pk sig now self) = Ok () then self\<lparr>es_state := Refunded\<rparr> else self)"
  by (simp add: refund_def Let_def)

text \<open>A settled escrow stays as it is, so exactly one call can settle it.\<close>

interpretation settled: state_inv "\<lambda>e. es_state t \<noteq> Locked \<and> e = t" "escrow_step E" for E t
proof
  fix s op assume "es_state t \<noteq> Locked \<and> s = t"
  then show "es_state t \<noteq> Locked \<and> escrow_step E op s = t"
    by (cases op) (auto simp: escrow_step_def release_state refund_state release_Ok_iff refund_Ok_iff)
qed

lemma escrow_calls:
  assumes "es_state self = Locked"
  shows "(fst (escrow_call E op self) = Ok () \<and> es_state (escrow_step E op self) \<noteq> Locked \<and>
      (\<exists>st. escrow_step E op self = self\<lparr>es_state := st\<rparr>)) \<or>
    (fst (escrow_call E op self) \<noteq> Ok () \<and> escrow_step E op self = self)"
  by (cases op) (auto simp: escrow_step_def release_state refund_state)

lemma escrow_settles_once:
  "es_state self \<noteq> Locked \<Longrightarrow> fold (escrow_step E) ops self = self"
  using settled.run_inv[of self self E ops] by simp

lemma escrow_identity_inj:
  assumes "escrow_identity_bytes E a = Ok c" "escrow_identity_bytes E b = Ok c"
  shows "hex_decode E (es_sender a) = hex_decode E (es_sender b) \<and>
    hex_decode E (es_recipient a) = hex_decode E (es_recipient b) \<and>
    es_amount a = es_amount b \<and> es_timeout a = es_timeout b"
  using assms by (auto simp: identity_bytes_Ok)

text \<open>No message authorises both a release and a refund, whatever the escrows.\<close>

lemma release_refund_separate: "release_message E a = Ok m \<Longrightarrow> refund_message E b \<noteq> Ok m"
proof
  assume "release_message E a = Ok m" "refund_message E b = Ok m"
  then obtain x y where "ESCROW_RELEASE_DOMAIN @ x = ESCROW_REFUND_DOMAIN @ y"
    by (auto simp: release_message_def refund_message_def outcome_simps)
  then have "take 22 (ESCROW_RELEASE_DOMAIN @ x) = take 22 (ESCROW_REFUND_DOMAIN @ y)" by simp
  then show False by (simp add: ESCROW_RELEASE_DOMAIN_def ESCROW_REFUND_DOMAIN_def str_bytes_def)
qed

section \<open>Token lock\<close>

record token_lock =
  tl_owner :: string
  tl_amount :: u64
  tl_unlock_at :: u64
  tl_claimed :: bool

definition tl_new :: "string \<Rightarrow> u64 \<Rightarrow> u64 \<Rightarrow> token_lock" where
  "tl_new owner amount unlock_at =
     \<lparr>tl_owner = owner, tl_amount = amount, tl_unlock_at = unlock_at, tl_claimed = False\<rparr>"

definition tl_claim :: "u64 \<Rightarrow> token_lock \<Rightarrow> (u64, string) result \<times> token_lock" where
  "tl_claim current_time self =
     (if tl_claimed self then (Err ''tokens already claimed'', self)
      else if current_time < tl_unlock_at self then (Err ''lock period has not elapsed'', self)
      else (Ok (tl_amount self), self\<lparr>tl_claimed := True\<rparr>))"

definition is_unlocked :: "token_lock \<Rightarrow> u64 \<Rightarrow> bool" where
  "is_unlocked self current_time \<longleftrightarrow> tl_unlock_at self \<le> current_time"

section \<open>Vesting\<close>

datatype vesting_error = NothingToClaim | InvalidSchedule

record vesting_schedule =
  vs_owner :: string
  vs_total_amount :: u64
  vs_start_at :: u64
  vs_cliff_at :: u64
  vs_end_at :: u64
  vs_claimed :: u64

definition vs_new :: "string \<Rightarrow> u64 \<Rightarrow> u64 \<Rightarrow> u64 \<Rightarrow> u64 \<Rightarrow> vesting_schedule" where
  "vs_new owner total_amount start_at cliff_at end_at =
     \<lparr>vs_owner = owner, vs_total_amount = total_amount, vs_start_at = start_at, vs_cliff_at = cliff_at,
      vs_end_at = end_at, vs_claimed = 0\<rparr>"

definition vs_new_checked ::
    "string \<Rightarrow> u64 \<Rightarrow> u64 \<Rightarrow> u64 \<Rightarrow> u64 \<Rightarrow> (vesting_schedule, vesting_error) result" where
  "vs_new_checked owner total_amount start_at cliff_at end_at =
     (if cliff_at < start_at \<or> end_at < cliff_at \<or> end_at \<le> start_at then Err InvalidSchedule
      else Ok (vs_new owner total_amount start_at cliff_at end_at))"

text \<open>
  The intermediate product is a \<open>u128\<close>; \<open>try_into().unwrap_or(u64::MAX)\<close> narrows the quotient.
\<close>

type_synonym u128 = "128 word"

definition vested_at :: "vesting_schedule \<Rightarrow> u64 \<Rightarrow> u64" where
  "vested_at self current_time =
     (if current_time < vs_cliff_at self then 0
      else if vs_end_at self \<le> current_time then vs_total_amount self
      else
        let elapsed = saturating_sub current_time (vs_start_at self);
            duration = saturating_sub (vs_end_at self) (vs_start_at self)
        in if duration = 0 then vs_total_amount self
           else
             let r = saturating_mul (ucast (vs_total_amount self) :: u128) (ucast elapsed) div ucast duration
             in if unat r < 2 ^ 64 then ucast r else - 1)"

definition claimable_at :: "vesting_schedule \<Rightarrow> u64 \<Rightarrow> u64" where
  "claimable_at self current_time = saturating_sub (vested_at self current_time) (vs_claimed self)"

definition vs_claim :: "u64 \<Rightarrow> vesting_schedule \<Rightarrow> (u64, vesting_error) result \<times> vesting_schedule" where
  "vs_claim current_time self =
     (let claimable = claimable_at self current_time in
      if claimable = 0 then (Err NothingToClaim, self)
      else (Ok claimable, self\<lparr>vs_claimed := saturating_add (vs_claimed self) claimable\<rparr>))"

text \<open>A schedule that \<open>new_checked\<close> accepts.\<close>

definition schedule_ok :: "vesting_schedule \<Rightarrow> bool" where
  "schedule_ok s \<longleftrightarrow> vs_start_at s \<le> vs_cliff_at s \<and> vs_cliff_at s \<le> vs_end_at s \<and> vs_start_at s < vs_end_at s"

lemma vs_new_checked_Ok:
  "vs_new_checked owner tot start cliff fin = Ok s \<longleftrightarrow> s = vs_new owner tot start cliff fin \<and> schedule_ok s"
  by (auto simp: vs_new_checked_def schedule_ok_def vs_new_def not_less not_le)

lemma unat_u128 [simp]: "unat (ucast (x :: u64) :: u128) = unat x"
proof -
  have "unat x < 2 ^ 128" using unat_u64_less[of x] by simp
  then show ?thesis by (simp add: unsigned_ucast_eq take_bit_nat_eq_self)
qed

lemma div_le_total: "e \<le> d \<Longrightarrow> n * e div d \<le> (n :: nat)"
proof -
  assume "e \<le> d"
  then have "n * e div d \<le> n * d div d" by (intro div_le_mono mult_le_mono2)
  also have "\<dots> \<le> n" by (cases "d = 0") simp_all
  finally show ?thesis .
qed

text \<open>The linear formula holds exactly: the intermediate product never saturates.\<close>

lemma vested_at_exact:
  assumes "schedule_ok s"
  shows "unat (vested_at s t) = (if t < vs_cliff_at s then 0 else if vs_end_at s \<le> t then unat (vs_total_amount s)
    else unat (vs_total_amount s) * (unat t - unat (vs_start_at s)) div (unat (vs_end_at s) - unat (vs_start_at s)))"
proof (cases "vs_cliff_at s \<le> t \<and> t < vs_end_at s")
  case True
  let ?n = "unat (vs_total_amount s)"
  let ?e = "unat t - unat (vs_start_at s)" and ?d = "unat (vs_end_at s) - unat (vs_start_at s)"
  have ord: "unat (vs_start_at s) < unat (vs_end_at s)" "unat t < unat (vs_end_at s)"
    using assms True by (simp_all add: schedule_ok_def word_less_nat_alt)
  then have d: "0 < ?d" "?e \<le> ?d" by linarith+
  have n: "?n < 2 ^ 64" "?e < 2 ^ 64" using unat_u64_less[of "vs_total_amount s"] unat_u64_less[of t] by simp_all
  have "?n * ?e < 2 ^ 64 * 2 ^ 64" using n by (intro mult_strict_mono) simp_all
  then have prod: "?n * ?e < 2 ^ 128" by simp
  let ?el = "saturating_sub t (vs_start_at s)" and ?du = "saturating_sub (vs_end_at s) (vs_start_at s)"
  let ?r = "saturating_mul (ucast (vs_total_amount s) :: u128) (ucast ?el) div ucast ?du"
  have du: "?du \<noteq> 0" using d by (simp add: word_unat_eq_iff unat_saturating_sub)
  have r: "unat ?r = ?n * ?e div ?d" using prod by (simp add: unat_div_distrib unat_saturating_mul unat_saturating_sub)
  have le: "?n * ?e div ?d \<le> ?n" using d(2) by (rule div_le_total)
  then have lt: "unat ?r < 2 ^ 64" using n(1) r by linarith
  have "unat (ucast ?r :: u64) = ?n * ?e div ?d"
    using lt r by (simp add: unsigned_ucast_eq take_bit_nat_eq_self)
  then show ?thesis using True du lt by (auto simp: vested_at_def Let_def not_le)
next
  case False
  then show ?thesis by (auto simp: vested_at_def)
qed

lemma vested_at_mono:
  assumes "schedule_ok s" "t \<le> t'"
  shows "vested_at s t \<le> vested_at s t'"
proof -
  have o: "unat t \<le> unat t'" "unat (vs_start_at s) < unat (vs_end_at s)"
    using assms by (simp_all add: schedule_ok_def word_less_nat_alt word_le_nat_alt)
  have a: "unat (vs_total_amount s) * (unat t - unat (vs_start_at s)) div d
      \<le> unat (vs_total_amount s) * (unat t' - unat (vs_start_at s)) div d" for d
    using o by (intro div_le_mono mult_le_mono2) simp
  have b: "unat (vs_total_amount s) * (unat t - unat (vs_start_at s)) div (unat (vs_end_at s) - unat (vs_start_at s))
      \<le> unat (vs_total_amount s)" if "\<not> vs_end_at s \<le> t"
    using that by (intro div_le_total) (simp add: word_le_nat_alt)
  show ?thesis
    using assms(2) a[of "unat (vs_end_at s) - unat (vs_start_at s)"] b
    unfolding word_le_nat_alt[of "vested_at s t"] vested_at_exact[OF assms(1)]
    by (auto simp: word_le_nat_alt word_less_nat_alt)
qed

lemma vested_at_bounded: "schedule_ok s \<Longrightarrow> vested_at s t \<le> vs_total_amount s"
  by (auto simp: word_le_nat_alt vested_at_exact word_less_nat_alt intro!: div_le_total)

text \<open>The owner's claims at a list of times, with the amounts paid.\<close>

fun claims :: "u64 list \<Rightarrow> vesting_schedule \<Rightarrow> nat \<times> vesting_schedule" where
  "claims [] s = (0, s)"
| "claims (t # ts) s =
     (let (r, s') = vs_claim t s; (paid, s'') = claims ts s'
      in ((case r of Ok a \<Rightarrow> unat a | _ \<Rightarrow> 0) + paid, s''))"

lemma vs_claim_effect:
  "vs_claim t s = (r, s') \<Longrightarrow> unat (vs_claimed s') = max (unat (vs_claimed s)) (unat (vested_at s t)) \<and>
    unat (vs_claimed s') = unat (vs_claimed s) + (case r of Ok a \<Rightarrow> unat a | _ \<Rightarrow> 0) \<and>
    vested_at s' = vested_at s \<and> vs_total_amount s' = vs_total_amount s"
proof -
  assume r: "vs_claim t s = (r, s')"
  have lt: "unat (vested_at s t) < 2 ^ 64" using unat_u64_less[of "vested_at s t"] by simp
  have same: "vested_at (s\<lparr>vs_claimed := c\<rparr>) = vested_at s" for c by (simp add: fun_eq_iff vested_at_def Let_def)
  show ?thesis
  proof (cases "claimable_at s t = 0")
    case True
    then show ?thesis using r by (auto simp: vs_claim_def claimable_at_def word_unat_eq_iff unat_saturating_sub)
  next
    case False
    then have "unat (vs_claimed s) < unat (vested_at s t)"
      by (simp add: claimable_at_def word_unat_eq_iff unat_saturating_sub)
    then show ?thesis using r False lt same
      by (auto simp: vs_claim_def Let_def claimable_at_def unat_saturating_add unat_saturating_sub)
  qed
qed

text \<open>Whatever the times, and in any order, what was paid is what had vested at the latest of them.\<close>

lemma claims_total:
  "claims ts s = (paid, s') \<Longrightarrow>
    unat (vs_claimed s') = unat (vs_claimed s) + paid \<and>
    unat (vs_claimed s') = fold (\<lambda>t m. max m (unat (vested_at s t))) ts (unat (vs_claimed s))"
proof (induction ts arbitrary: s paid s')
  case (Cons t ts)
  obtain r s1 where 1: "vs_claim t s = (r, s1)" by force
  obtain p2 s2 where 2: "claims ts s1 = (p2, s2)" by force
  show ?case using Cons.IH[OF 2] Cons.prems vs_claim_effect[OF 1] 1 2 by auto
qed simp

end
