(* ===== verification/Proto.thy ===== *)
theory Proto
  imports Prelude
begin

text \<open>
  Crate \<open>arxia-proto\<close>, file \<open>validation.rs\<close>: the guards before and after decoding. The
  messages themselves are generated by \<open>prost\<close> and are not part of the model.
\<close>

definition MAX_PROTO_DECODE_DEPTH :: nat where "MAX_PROTO_DECODE_DEPTH = 64"
definition MAX_TRANSPORT_FRAME_BYTES :: nat where "MAX_TRANSPORT_FRAME_BYTES = 1048576"

datatype proto_error =
    TransportFrameTooLarge nat nat
  | EnvelopePayloadEmpty string
  | DecodeDepthExceeded nat nat

definition validate_transport_frame_bytes :: "bytes \<Rightarrow> (unit, proto_error) result" where
  "validate_transport_frame_bytes bs =
     (if length bs > MAX_TRANSPORT_FRAME_BYTES
      then Err (TransportFrameTooLarge (length bs) MAX_TRANSPORT_FRAME_BYTES) else Ok ())"

definition require_envelope_payload :: "'t option \<Rightarrow> string \<Rightarrow> ('t, proto_error) result" where
  "require_envelope_payload payload envelope_kind = ok_or payload (EnvelopePayloadEmpty envelope_kind)"

definition validate_proto_decode_depth :: "nat \<Rightarrow> (unit, proto_error) result" where
  "validate_proto_decode_depth depth =
     (if depth > MAX_PROTO_DECODE_DEPTH then Err (DecodeDepthExceeded depth MAX_PROTO_DECODE_DEPTH) else Ok ())"

text \<open>The size and depth guards pass exactly up to their caps, and report what they saw.\<close>

lemma guards_exact:
  "validate_transport_frame_bytes bs = Ok () \<longleftrightarrow> length bs \<le> 2 ^ 20"
  "validate_proto_decode_depth depth = Ok () \<longleftrightarrow> depth \<le> 64"
  "require_envelope_payload payload kind = Ok t \<longleftrightarrow> payload = Some t"
  by (simp_all add: validate_transport_frame_bytes_def MAX_TRANSPORT_FRAME_BYTES_def
      validate_proto_decode_depth_def MAX_PROTO_DECODE_DEPTH_def require_envelope_payload_def outcome_simps)

end
