(* ===== verification/Texts.thy ===== *)
theory Texts
  imports Delegation Gossip Finality Relay Transport Reassembly Contracts Did Proto
begin

text \<open>
  What the crates print: the \<open>Display\<close> implementations of the errors, of the finality level and of the
  identifiers, and the conversion of transport errors, which keeps only the text.
\<close>

section \<open>Numbers\<close>

definition display_int :: "int \<Rightarrow> string" where
  "display_int i = (if i < 0 then ''-'' @ display_nat (nat (- i)) else display_nat (nat i))"

definition display_u8 :: "u8 \<Rightarrow> string" where
  "display_u8 x = display_nat (unat x)"

definition display_u16 :: "u16 \<Rightarrow> string" where
  "display_u16 x = display_nat (unat x)"

text \<open>\<open>{:02x}\<close> and \<open>{:02X}\<close>; the first argument is the code of the digit ten.\<close>

definition hex_digit :: "nat \<Rightarrow> nat \<Rightarrow> char" where
  "hex_digit a n = (if n < 10 then char_of (48 + n) else char_of (a + n - 10))"

definition display_hex2 :: "nat \<Rightarrow> u8 \<Rightarrow> string" where
  "display_hex2 a b = [hex_digit a (unat b div 16), hex_digit a (unat b mod 16)]"

section \<open>The errors\<close>

fun arxia_error_text :: "arxia_error \<Rightarrow> string" where
  "arxia_error_text (InvalidBlockType b) = ''invalid block type tag: 0x'' @ display_hex2 97 b"
| "arxia_error_text (DataTooShort got expected) =
     ''data too short: '' @ display_nat got @ '' bytes (need '' @ display_nat expected @ '')''"
| "arxia_error_text HashMismatch = ''hash mismatch''"
| "arxia_error_text (SignatureInvalid s) = ''signature verification failed: '' @ s"
| "arxia_error_text (InsufficientBalance available required) =
     ''insufficient balance: '' @ display_u64 available @ '' < '' @ display_u64 required"
| "arxia_error_text ZeroAmount = ''cannot send zero amount''"
| "arxia_error_text (NonceGap index expected got) =
     ''nonce gap at block '' @ display_nat index @ '': expected '' @ display_u64 expected @ '', got '' @ display_u64 got"
| "arxia_error_text (HashChainBroken i) = ''hash chain broken at block '' @ display_nat i"
| "arxia_error_text (InvalidGenesis s) = ''invalid genesis block: '' @ s"
| "arxia_error_text WrongDestination = ''SEND block not addressed to this account''"
| "arxia_error_text NotSendBlock = ''can only RECEIVE from a SEND block''"
| "arxia_error_text (DoubleSpend nonce) = ''double-spend detected for account at nonce '' @ display_u64 nonce"
| "arxia_error_text (arxia_error.Transport s) = ''transport error: '' @ s"
| "arxia_error_text SyncTimeout = ''sync timeout''"
| "arxia_error_text NoNeighbors = ''no neighbors available''"
| "arxia_error_text (HexDecode s) = ''hex decode error: '' @ s"
| "arxia_error_text (arxia_error.Serialization s) = ''serialization error: '' @ s"
| "arxia_error_text (InvalidKey s) = ''invalid key: '' @ s"
| "arxia_error_text AccountAlreadyOpen = ''account already open: chain is not empty''"
| "arxia_error_text (SupplyCapExceeded requested cap) =
     ''supply cap exceeded: requested '' @ display_u64 requested @ '' > max '' @ display_u64 cap"
| "arxia_error_text (DuplicateReceive source_hash) =
     ''duplicate receive: source hash '' @ source_hash @ '' already consumed''"
| "arxia_error_text (arxia_error.NonceConflict account nonce n) =
     ''nonce conflict: account '' @ account @ '' nonce '' @ display_u64 nonce @ '' has '' @ display_nat n @
     '' competing blocks''"
| "arxia_error_text (NegativeBalance account balance) =
     ''negative balance after reconciliation: account '' @ account @ '' balance '' @ display_int balance"
| "arxia_error_text (BalanceOverflow current incoming) =
     ''balance overflow: current '' @ display_u64 current @ '' + incoming '' @ display_u64 incoming @ '' > u64::MAX''"
| "arxia_error_text SelfSendNotAllowed = ''send rejected: destination equals sender (self-send not allowed)''"
| "arxia_error_text (UnknownVoteTarget block_hash) =
     ''vote rejected: block hash '' @ block_hash @ '' not in local block store''"
| "arxia_error_text (IneligibleConflictBlockType block_hash block_type) =
     ''ORV conflict resolution rejected: block '' @ block_hash @ '' has ineligible type '' @ block_type"
| "arxia_error_text (UnknownSourceSend source_hash) = ''receive references unknown source send: '' @ source_hash"

definition unimplemented_text :: "unimplemented \<Rightarrow> string" where
  "unimplemented_text e = ''feature not implemented; reserved for a future milestone''"

fun transport_error_text :: "transport_error \<Rightarrow> string" where
  "transport_error_text (PayloadTooLarge sz cap) =
     ''payload too large: '' @ display_nat sz @ '' > '' @ display_nat cap"
| "transport_error_text Disconnected = ''transport disconnected''"
| "transport_error_text MessageLost = ''message lost''"
| "transport_error_text (BackPressure capacity) = ''transport outbox full (capacity '' @ display_nat capacity @ '')''"
| "transport_error_text InvalidFromField = ''transport message `from` is not a 64-char hex 32-byte pubkey''"
| "transport_error_text TransportSignatureInvalid = ''transport message signature does not verify under `from`''"
| "transport_error_text (OtherTransport msg) = ''transport error: '' @ msg"

definition arxia_error_from_transport :: "transport_error \<Rightarrow> arxia_error" where
  "arxia_error_from_transport e = arxia_error.Transport (transport_error_text e)"

fun delegation_error_text :: "delegation_error \<Rightarrow> string" where
  "delegation_error_text SelfDelegation = ''delegator cannot delegate to itself''"
| "delegation_error_text (CycleDetected from_d to_d) =
     ''delegation '' @ from_d @ '' -> '' @ to_d @ '' would create a cycle''"
| "delegation_error_text (DepthExceeded depth cap) =
     ''delegation chain depth '' @ display_nat depth @ '' exceeds cap '' @ display_nat cap"
| "delegation_error_text InvalidRevocationSignature = ''revocation signature does not verify''"
| "delegation_error_text (EdgeNotFound delegator representative) =
     ''no delegation edge '' @ delegator @ '' -> '' @ representative"

fun message_error_text :: "message_error \<Rightarrow> string" where
  "message_error_text (BlockAnnounceTooLarge sz cap) =
     ''BlockAnnounce.block_data length '' @ display_nat sz @ '' exceeds cap '' @ display_nat cap"
| "message_error_text (NonceSyncResponseTooLarge n cap) =
     ''NonceSyncResponse.entries count '' @ display_nat n @ '' exceeds cap '' @ display_nat cap"
| "message_error_text (BlockAnnounceHopsExceeded hops cap) =
     ''BlockAnnounce.hops '' @ display_u8 hops @ '' exceeds cap '' @ display_u8 cap"

fun signed_gossip_error_text :: "signed_gossip_message_error \<Rightarrow> string" where
  "signed_gossip_error_text InvalidSignatureLength = ''signature must be exactly 64 bytes''"
| "signed_gossip_error_text InvalidPublicKey = ''sender_pubkey is not a valid Ed25519 public key''"
| "signed_gossip_error_text GossipSignatureInvalid = ''signature does not verify against the sender pubkey''"
| "signed_gossip_error_text (MessageInvalid e) = ''gossip message structurally invalid: '' @ message_error_text e"

fun finality_error_text :: "finality_error \<Rightarrow> string" where
  "finality_error_text FinInvalidSignatureLength = ''signature must be exactly 64 bytes''"
| "finality_error_text FinInvalidPublicKey = ''pubkey is not a valid Ed25519 public key''"
| "finality_error_text FinSignatureInvalid = ''signature from a registered key does not verify''"

fun finality_level_text :: "finality_level \<Rightarrow> string" where
  "finality_level_text Pending = ''PENDING''"
| "finality_level_text L0 = ''L0 (instant)''"
| "finality_level_text L1 = ''L1 (gossip)''"
| "finality_level_text L2 = ''L2 (full)''"

fun relay_receipt_error_text :: "relay_receipt_error \<Rightarrow> string" where
  "relay_receipt_error_text InvalidRelayId = ''relay_id is not a 64-char lowercase hex 32-byte pubkey''"
| "relay_receipt_error_text InvalidMessageHash = ''message_hash is not a 64-char lowercase hex 32-byte hash''"
| "relay_receipt_error_text ReceiptInvalidSignatureLength = ''signature must be exactly 64 bytes''"
| "relay_receipt_error_text ReceiptInvalidPublicKey = ''relay_id is not a valid Ed25519 public key''"
| "relay_receipt_error_text ReceiptSignatureInvalid = ''signature does not verify against the relay pubkey''"
| "relay_receipt_error_text WrongRelayId = ''receipt relay_id does not match the scored relay''"
| "relay_receipt_error_text DuplicateReceipt = ''receipt with this message_hash has already been credited''"
| "relay_receipt_error_text (HopCountTooHigh got cap) =
     ''hop_count '' @ display_u8 got @ '' exceeds protocol cap '' @ display_u8 cap"

fun slashing_error_text :: "slashing_error \<Rightarrow> string" where
  "slashing_error_text InvalidTargetRelayId = ''target_relay_id is not a 64-char lowercase hex 32-byte pubkey''"
| "slashing_error_text SlashSignatureInvalid = ''signature does not verify against the observer pubkey''"
| "slashing_error_text InvalidObserverPubkey = ''observer_pubkey is not a valid Ed25519 public key''"
| "slashing_error_text SlashInvalidSignatureLength = ''signature must be exactly 64 bytes''"
| "slashing_error_text TargetMismatch = ''proof's target_relay_id does not match the scored relay''"
| "slashing_error_text NegativePenalty = ''penalty must be non-negative''"

fun relay_id_error_text :: "relay_id_error \<Rightarrow> string" where
  "relay_id_error_text (InvalidLength got) =
     ''relay_id must be exactly '' @ display_nat RELAY_ID_LEN @ '' hex chars, got '' @ display_nat got"
| "relay_id_error_text (InvalidHex byte_offset b) =
     ''relay_id byte 0x'' @ display_hex2 65 b @ '' at offset '' @ display_nat byte_offset @ '' is not a hex digit''"

fun reassembly_error_text :: "reassembly_error \<Rightarrow> string" where
  "reassembly_error_text InvalidFragmentSignature = ''fragment signature does not verify''"
| "reassembly_error_text (TotalMismatch got expected) =
     ''fragment total '' @ display_u16 got @ '' disagrees with prior total '' @ display_u16 expected"
| "reassembly_error_text (SeqOutOfRange seq total_n) =
     ''fragment seq '' @ display_u16 seq @ '' out of range (total '' @ display_u16 total_n @ '')''"
| "reassembly_error_text EmptyMessage = ''fragment claims total=0 (no message to reassemble)''"
| "reassembly_error_text (PayloadMismatch seq) =
     ''fragment seq '' @ display_u16 seq @ '' payload mismatch (replay-with-mutation)''"

fun vesting_error_text :: "vesting_error \<Rightarrow> string" where
  "vesting_error_text NothingToClaim = ''no tokens currently claimable''"
| "vesting_error_text InvalidSchedule =
     ''invalid vesting schedule: cliff_at must be in [start_at, end_at] and end_at > start_at''"

fun proto_error_text :: "proto_error \<Rightarrow> string" where
  "proto_error_text (TransportFrameTooLarge sz cap) =
     ''transport frame '' @ display_nat sz @ '' bytes exceeds protocol cap '' @ display_nat cap @ '' bytes''"
| "proto_error_text (EnvelopePayloadEmpty envelope_kind) =
     envelope_kind @ '' decoded with empty oneof payload (unknown or missing variant)''"
| "proto_error_text (DecodeDepthExceeded depth cap) =
     ''proto decode depth '' @ display_nat depth @ '' exceeds cap '' @ display_nat cap @
     '' (MED-012 stack-overflow guard)''"

section \<open>Identifiers\<close>

definition did_as_str :: "arxia_did \<Rightarrow> string" where
  "did_as_str self = did_text self"

definition parsed_did_as_str :: "parsed_arxia_did \<Rightarrow> string" where
  "parsed_did_as_str self = pd_text self"

definition parsed_did_from_str :: "('sk, 'vk, 'z) crypto_scheme \<Rightarrow> string \<Rightarrow> (parsed_arxia_did, arxia_error) result" where
  "parsed_did_from_str E s = parse_did E s"

section \<open>What a text tells\<close>

lemma display_nat_eq_iff [simp]: "display_nat m = display_nat n \<longleftrightarrow> m = n"
  by (metis read_display_nat)

lemma display_nat_no_space: "CHR '' '' \<notin> set (display_nat n)" "CHR '')'' \<notin> set (display_nat n)"
  using display_nat_digits[of "CHR '' ''" n] display_nat_digits[of "CHR '')''" n] by auto

lemma display_nat_split: "display_nat m @ CHR '' '' # x = display_nat n @ CHR '' '' # y \<longleftrightarrow> m = n \<and> x = y"
  using split_at_separator[OF display_nat_no_space(1) display_nat_no_space(1)] by auto

text \<open>
  The conversion of a transport error into the common error type keeps only the text, and loses
  nothing: the text determines the error.
\<close>

lemma transport_error_text_eq_iff: "transport_error_text e = transport_error_text e' \<longleftrightarrow> e = e'"
  by (cases e; cases e') (simp_all add: display_nat_split)

lemma arxia_error_from_transport_eq_iff: "arxia_error_from_transport e = arxia_error_from_transport e' \<longleftrightarrow> e = e'"
  by (simp add: arxia_error_from_transport_def transport_error_text_eq_iff)

lemma finality_level_text_eq_iff: "finality_level_text l = finality_level_text l' \<longleftrightarrow> l = l'"
  by (cases l; cases l') simp_all

text \<open>What the parser accepts prints as it was read.\<close>

lemma parsed_did_text: "parsed_did_from_str E s = Ok d \<Longrightarrow> parsed_did_as_str d = s"
  by (auto simp: parsed_did_from_str_def parsed_did_as_str_def parse_did_def outcome_simps split: result.splits option.splits)

end
