(* ===== verification/Cli.thy ===== *)
theory Cli
  imports Did Texts
begin

text \<open>
  The command line tool \<open>tools/arxia-cli\<close>: argument parsing, key generation into a new file, and the
  generation of an identifier. Files and output streams are a state; every call that may fail takes
  its outcome from a list of faults, so that each \<open>?\<close> of the source is a branch. The generated key
  and the bytes of its secret are arguments.
\<close>

section \<open>Files and streams\<close>

datatype io_error = AlreadyExists | IoFault string

text \<open>A fault is an error with the number of characters that were still written.\<close>

record secret_file =
  file_mode :: nat
  file_text :: string

record io_state =
  io_files :: "string \<Rightarrow> secret_file option"
  io_out :: string
  io_err :: string
  io_faults :: "(nat \<times> string) option list"

type_synonym io_action = "io_state \<Rightarrow> (unit, io_error) result \<times> io_state"

definition next_fault :: "io_state \<Rightarrow> (nat \<times> string) option \<times> io_state" where
  "next_fault st =
     (case io_faults st of [] \<Rightarrow> (None, st) | f # fs \<Rightarrow> (f, st\<lparr>io_faults := fs\<rparr>))"

definition append_file :: "string \<Rightarrow> string \<Rightarrow> io_state \<Rightarrow> io_state" where
  "append_file path s st =
     st\<lparr>io_files := (io_files st)(path := map_option (\<lambda>f. f\<lparr>file_text := file_text f @ s\<rparr>) (io_files st path))\<rparr>"

text \<open>\<open>OpenOptions::create_new\<close>: an existing file is an error, never opened.\<close>

definition create_new_file :: "string \<Rightarrow> nat \<Rightarrow> io_action" where
  "create_new_file path mode st =
     (case next_fault st of
        (Some (n, e), st') \<Rightarrow> (Err (IoFault e), st')
      | (None, st') \<Rightarrow>
          if io_files st' path \<noteq> None then (Err AlreadyExists, st')
          else (Ok (), st'\<lparr>io_files := (io_files st')(path \<mapsto> \<lparr>file_mode = mode, file_text = []\<rparr>)\<rparr>))"

definition newline :: string where "newline = [CHR 0x0A]"
definition quote :: string where "quote = [CHR 0x22]"

definition writeln_file :: "string \<Rightarrow> string \<Rightarrow> io_action" where
  "writeln_file path s st =
     (case next_fault st of
        (Some (n, e), st') \<Rightarrow> (Err (IoFault e), append_file path (take n (s @ newline)) st')
      | (None, st') \<Rightarrow> (Ok (), append_file path (s @ newline) st'))"

definition flush_file :: io_action where
  "flush_file st = (case next_fault st of (Some (n, e), st') \<Rightarrow> (Err (IoFault e), st') | (None, st') \<Rightarrow> (Ok (), st'))"

definition writeln_out :: "string \<Rightarrow> io_action" where
  "writeln_out s st =
     (case next_fault st of
        (Some (n, e), st') \<Rightarrow> (Err (IoFault e), st'\<lparr>io_out := io_out st' @ take n (s @ newline)\<rparr>)
      | (None, st') \<Rightarrow> (Ok (), st'\<lparr>io_out := io_out st' @ s @ newline\<rparr>))"

text \<open>A sequence of calls, each followed by \<open>?\<close>.\<close>

fun io_seq :: "io_action list \<Rightarrow> io_action" where
  "io_seq [] st = (Ok (), st)"
| "io_seq (a # actions) st = (case a st of (Ok _, st') \<Rightarrow> io_seq actions st' | other \<Rightarrow> other)"

section \<open>Key generation\<close>

definition keypair_lines :: "string \<Rightarrow> string \<Rightarrow> string list" where
  "keypair_lines public_hex private_hex =
     [''{'',
      ''  '' @ quote @ ''public_key'' @ quote @ '':  '' @ quote @ public_hex @ quote @ '','',
      ''  '' @ quote @ ''private_key'' @ quote @ '': '' @ quote @ private_hex @ quote,
      ''}'']"

text \<open>The mode is octal 600.\<close>

definition write_secret_keypair :: "string \<Rightarrow> string \<Rightarrow> string \<Rightarrow> io_action" where
  "write_secret_keypair path public_hex private_hex =
     io_seq (create_new_file path 0x180 # map (writeln_file path) (keypair_lines public_hex private_hex) @ [flush_file])"

definition keygen_notice :: "string \<Rightarrow> string \<Rightarrow> string list" where
  "keygen_notice public_hex out_path =
     [''Public key:  '' @ public_hex,
      ''Private key: written to '' @ out_path @ '' (not shown on stdout)'',
      [],
      ''IMPORTANT: keep '' @ out_path @ '' secret. Back it up offline.'',
      ''Never share it or commit it to version control.'']"

definition cmd_keygen_to ::
    "('sk, 'vk, 'z) crypto_scheme \<Rightarrow> ('sk \<Rightarrow> bytes) \<Rightarrow> 'sk \<Rightarrow> string \<Rightarrow> io_action" where
  "cmd_keygen_to E secret_of signing_key out_path =
     (let public_hex = hex_encode E (pubkey_of E signing_key);
          private_hex = hex_encode E (secret_of signing_key)
      in io_seq (write_secret_keypair out_path public_hex private_hex
           # map writeln_out (keygen_notice public_hex out_path)))"

section \<open>The program\<close>

fun parse_out_path :: "string list \<Rightarrow> string option" where
  "parse_out_path [] = None"
| "parse_out_path (a # args) =
     (case strip_prefix ''--out='' a of
        Some rest \<Rightarrow> Some rest
      | None \<Rightarrow> if a = ''--out'' then (case args of [] \<Rightarrow> None | b # _ \<Rightarrow> Some b) else parse_out_path args)"

text \<open>\<open>println!\<close> and \<open>eprintln!\<close>, which panic when the stream fails, write without a fault here.\<close>

definition print_out :: "string list \<Rightarrow> io_state \<Rightarrow> io_state" where
  "print_out ls st = st\<lparr>io_out := io_out st @ concat (map (\<lambda>l. l @ newline) ls)\<rparr>"

definition print_err :: "string \<Rightarrow> io_state \<Rightarrow> io_state" where
  "print_err l st = st\<lparr>io_err := io_err st @ l @ newline\<rparr>"

definition cmd_did :: "('sk, 'vk, 'z) crypto_scheme \<Rightarrow> 'sk \<Rightarrow> io_state \<Rightarrow> nat \<times> io_state" where
  "cmd_did E signing_key st =
     (case did_from_public_key E (pubkey_of E signing_key) of
        Ok did \<Rightarrow> (0, print_out [''DID: '' @ did_as_str did] st)
      | Err e \<Rightarrow> (1, print_err (''DID generation failed: '' @ arxia_error_text e) st)
      | Panic \<Rightarrow> (101, st))"

definition help_lines :: "string list" where
  "help_lines =
     [''arxia-cli - Arxia command-line interface'',
      [],
      ''USAGE:'',
      ''  arxia-cli <COMMAND> [OPTIONS]'',
      [],
      ''COMMANDS:'',
      ''  keygen [--out=PATH]   Generate a new Ed25519 keypair.'',
      ''                        Private key is written to PATH'',
      ''                        (default: arxia_keypair.json), mode 0600 on Unix.'',
      ''                        Only the public key is printed on stdout.'',
      ''  did                   Generate a new DID.'',
      ''  help                  Print this help message.'']"

text \<open>The exit code is 101 after a panic. The text of an error of the system is a parameter.\<close>

definition cli_main ::
    "('sk, 'vk, 'z) crypto_scheme \<Rightarrow> (io_error \<Rightarrow> string) \<Rightarrow> ('sk \<Rightarrow> bytes) \<Rightarrow> 'sk \<Rightarrow> string list \<Rightarrow> io_state
      \<Rightarrow> nat \<times> io_state" where
  "cli_main E io_error_text secret_of signing_key args st =
     (case args of
        program # command # rest \<Rightarrow>
          if command = ''keygen'' then
            let out_path = (case parse_out_path args of None \<Rightarrow> ''arxia_keypair.json'' | Some p \<Rightarrow> p)
            in (case cmd_keygen_to E secret_of signing_key out_path st of
                  (Ok _, st') \<Rightarrow> (0, st')
                | (Err e, st') \<Rightarrow> (1, print_err (''keygen failed: '' @ io_error_text e) st')
                | (Panic, st') \<Rightarrow> (101, st'))
          else if command = ''did'' then cmd_did E signing_key st
          else (0, print_out help_lines st)
      | _ \<Rightarrow> (0, print_out help_lines st))"

section \<open>What a sequence of calls keeps\<close>

lemma io_seq_append:
  "io_seq (xs @ ys) st = (case io_seq xs st of (Ok _, st') \<Rightarrow> io_seq ys st' | other \<Rightarrow> other)"
  by (induction xs arbitrary: st) (auto split: prod.split result.split)

lemma io_seq_keeps:
  assumes "\<And>a st. a \<in> set actions \<Longrightarrow> f (snd (a st)) = f st"
  shows "f (snd (io_seq actions st)) = f st"
  using assms by (induction actions arbitrary: st) (simp_all split: prod.split result.split, metis snd_conv)

lemma next_fault_fields [simp]:
  "io_files (snd (next_fault st)) = io_files st" "io_out (snd (next_fault st)) = io_out st"
  "io_err (snd (next_fault st)) = io_err st"
  by (simp_all add: next_fault_def split: list.split)

lemma next_fault_pair:
  "next_fault st = (f, st') \<Longrightarrow> io_files st' = io_files st \<and> io_out st' = io_out st \<and> io_err st' = io_err st"
  using next_fault_fields[of st] by simp

text \<open>Only the key file is written, and only the notice is printed.\<close>

lemma file_calls_other:
  "q \<noteq> path \<Longrightarrow> io_files (snd (create_new_file path m st)) q = io_files st q"
  "q \<noteq> path \<Longrightarrow> io_files (snd (writeln_file path s st)) q = io_files st q"
  "io_files (snd (flush_file st)) = io_files st"
  "io_files (snd (writeln_out s st)) = io_files st"
  by (auto simp: create_new_file_def writeln_file_def flush_file_def writeln_out_def append_file_def
      split: prod.split option.split dest!: next_fault_pair)

lemma secret_keypair_other: "q \<noteq> path \<Longrightarrow> io_files (snd (write_secret_keypair path pub priv st)) q = io_files st q"
  unfolding write_secret_keypair_def
  by (rule io_seq_keeps[where f = "\<lambda>st. io_files st q"]) (auto simp: file_calls_other)

lemma keygen_other_files: "q \<noteq> path \<Longrightarrow> io_files (snd (cmd_keygen_to E secret_of k path st)) q = io_files st q"
  unfolding cmd_keygen_to_def Let_def
  by (rule io_seq_keeps[where f = "\<lambda>st. io_files st q"]) (auto simp: file_calls_other secret_keypair_other)

text \<open>An existing file is left as it is.\<close>

lemma keygen_existing:
  assumes "io_files st path \<noteq> None"
  shows "\<not> is_ok (fst (cmd_keygen_to E secret_of k path st)) \<and>
    io_files (snd (cmd_keygen_to E secret_of k path st)) = io_files st \<and>
    io_out (snd (cmd_keygen_to E secret_of k path st)) = io_out st"
proof -
  obtain f st' where f: "next_fault st = (f, st')" by force
  then show ?thesis
    using assms next_fault_pair[OF f]
    by (cases f) (auto simp: cmd_keygen_to_def write_secret_keypair_def create_new_file_def Let_def)
qed

text \<open>What a complete run wrote.\<close>

lemma writeln_files:
  "io_seq (map (writeln_file path) ls) st = (Ok u, st') \<Longrightarrow> io_files st path = Some f \<Longrightarrow>
    io_files st' path = Some (f\<lparr>file_text := file_text f @ concat (map (\<lambda>l. l @ newline) ls)\<rparr>) \<and> io_out st' = io_out st"
proof (induction ls arbitrary: st f)
  case (Cons l ls)
  obtain g st1 where n: "next_fault st = (g, st1)" by force
  have "g = None" using Cons.prems(1) n by (cases g) (auto simp: writeln_file_def)
  then have step: "writeln_file path l st = (Ok (), append_file path (l @ newline) st1)"
    using n by (simp add: writeln_file_def)
  have "io_files (append_file path (l @ newline) st1) path = Some (f\<lparr>file_text := file_text f @ l @ newline\<rparr>)"
    "io_out (append_file path (l @ newline) st1) = io_out st"
    using next_fault_pair[OF n] Cons.prems(2) by (simp_all add: append_file_def)
  with Cons.IH[of "append_file path (l @ newline) st1"] Cons.prems(1) step show ?case by simp
qed simp

lemma writeln_outs:
  "io_seq (map writeln_out ls) st = (Ok u, st') \<Longrightarrow>
    io_out st' = io_out st @ concat (map (\<lambda>l. l @ newline) ls) \<and> io_files st' = io_files st"
proof (induction ls arbitrary: st)
  case (Cons l ls)
  obtain g st1 where n: "next_fault st = (g, st1)" by force
  have "g = None" using Cons.prems(1) n by (cases g) (auto simp: writeln_out_def)
  then have "writeln_out l st = (Ok (), st1\<lparr>io_out := io_out st1 @ l @ newline\<rparr>)"
    using n by (simp add: writeln_out_def)
  with Cons.IH[of "st1\<lparr>io_out := io_out st1 @ l @ newline\<rparr>"] Cons.prems next_fault_pair[OF n] show ?case by simp
qed simp

lemma write_secret_keypair_Ok:
  assumes "write_secret_keypair path pub priv st = (Ok u, st')"
  shows "io_files st path = None \<and> io_out st' = io_out st \<and> io_files st' path =
    Some \<lparr>file_mode = 0x180, file_text = concat (map (\<lambda>l. l @ newline) (keypair_lines pub priv))\<rparr>"
proof -
  obtain g st1 where n: "next_fault st = (g, st1)" by force
  note same = next_fault_pair[OF n]
  have g: "g = None" using assms n by (cases g) (auto simp: write_secret_keypair_def create_new_file_def)
  have none: "io_files st path = None"
    using assms n g same by (auto simp: write_secret_keypair_def create_new_file_def split: if_splits)
  let ?st2 = "st1\<lparr>io_files := (io_files st1)(path \<mapsto> \<lparr>file_mode = 0x180, file_text = []\<rparr>)\<rparr>"
  have create: "create_new_file path 0x180 st = (Ok (), ?st2)" using n g none same by (simp add: create_new_file_def)
  obtain v st3 where lines: "io_seq (map (writeln_file path) (keypair_lines pub priv)) ?st2 = (Ok v, st3)"
    and flush: "flush_file st3 = (Ok (), st')"
    using assms create
    by (auto simp: write_secret_keypair_def io_seq_append split: prod.splits result.splits)
  have "io_files st' = io_files st3 \<and> io_out st' = io_out st3"
    using flush by (auto simp: flush_file_def dest!: next_fault_pair split: prod.splits option.splits)
  then show ?thesis using writeln_files[OF lines, of "\<lparr>file_mode = 0x180, file_text = []\<rparr>"] none same by simp
qed

lemma keygen_Ok:
  assumes "cmd_keygen_to E secret_of k path st = (Ok u, st')"
  shows "io_files st path = None \<and>
    io_files st' path = Some \<lparr>file_mode = 0x180, file_text = concat (map (\<lambda>l. l @ newline)
      (keypair_lines (hex_encode E (pubkey_of E k)) (hex_encode E (secret_of k))))\<rparr> \<and>
    io_out st' = io_out st @ concat (map (\<lambda>l. l @ newline) (keygen_notice (hex_encode E (pubkey_of E k)) path))"
proof -
  obtain v st1 where w: "write_secret_keypair path (hex_encode E (pubkey_of E k)) (hex_encode E (secret_of k)) st = (Ok v, st1)"
    and o: "io_seq (map writeln_out (keygen_notice (hex_encode E (pubkey_of E k)) path)) st1 = (Ok u, st')"
    using assms by (auto simp: cmd_keygen_to_def Let_def split: prod.splits result.splits)
  show ?thesis using write_secret_keypair_Ok[OF w] writeln_outs[OF o] by simp
qed

section \<open>What the secret can influence\<close>

text \<open>Two states that agree on everything but the text of one file.\<close>

definition same_view :: "string \<Rightarrow> io_state \<Rightarrow> io_state \<Rightarrow> bool" where
  "same_view path s t \<longleftrightarrow>
     io_out s = io_out t \<and> io_err s = io_err t \<and> io_faults s = io_faults t \<and>
     (\<forall>q. q \<noteq> path \<longrightarrow> io_files s q = io_files t q) \<and> (io_files s path = None \<longleftrightarrow> io_files t path = None)"

definition view_related :: "string \<Rightarrow> io_action \<Rightarrow> io_action \<Rightarrow> bool" where
  "view_related path a b \<longleftrightarrow>
     (\<forall>s t. same_view path s t \<longrightarrow> fst (a s) = fst (b t) \<and> same_view path (snd (a s)) (snd (b t)))"

lemma same_view_fault:
  "same_view path s t \<Longrightarrow> fst (next_fault s) = fst (next_fault t) \<and> same_view path (snd (next_fault s)) (snd (next_fault t))"
  by (auto simp: same_view_def next_fault_def split: list.split)

lemma view_related_faulty:
  assumes "\<And>n e s t. same_view path s t \<Longrightarrow> same_view path (h n s) (h' n t)"
    and "\<And>s t. same_view path s t \<Longrightarrow> fst (g s) = fst (g' t) \<and> same_view path (snd (g s)) (snd (g' t))"
  shows "view_related path
    (\<lambda>st. case next_fault st of (Some (n, e), st') \<Rightarrow> (Err (IoFault e), h n st') | (None, st') \<Rightarrow> g st')
    (\<lambda>st. case next_fault st of (Some (n, e), st') \<Rightarrow> (Err (IoFault e), h' n st') | (None, st') \<Rightarrow> g' st')"
  unfolding view_related_def
proof (intro allI impI)
  fix s t assume st: "same_view path s t"
  obtain f s' t' where f: "next_fault s = (f, s')" "next_fault t = (f, t')" "same_view path s' t'"
    using same_view_fault[OF st] by (metis prod.collapse)
  show "fst (case next_fault s of (Some (n, e), st') \<Rightarrow> (Err (IoFault e), h n st') | (None, st') \<Rightarrow> g st') =
      fst (case next_fault t of (Some (n, e), st') \<Rightarrow> (Err (IoFault e), h' n st') | (None, st') \<Rightarrow> g' st') \<and>
    same_view path
      (snd (case next_fault s of (Some (n, e), st') \<Rightarrow> (Err (IoFault e), h n st') | (None, st') \<Rightarrow> g st'))
      (snd (case next_fault t of (Some (n, e), st') \<Rightarrow> (Err (IoFault e), h' n st') | (None, st') \<Rightarrow> g' st'))"
    using f assms by (cases f) auto
qed

lemma same_view_append: "same_view path s t \<Longrightarrow> same_view path (append_file path x s) (append_file path y t)"
  by (auto simp: same_view_def append_file_def)

lemma view_related_calls:
  "view_related path (create_new_file path m) (create_new_file path m)"
  "view_related path (writeln_file path x) (writeln_file path y)"
  "view_related path flush_file flush_file"
  "view_related path (writeln_out x) (writeln_out x)"
proof -
  show "view_related path (create_new_file path m) (create_new_file path m)"
    unfolding create_new_file_def by (rule view_related_faulty) (auto simp: same_view_def)
  show "view_related path (writeln_file path x) (writeln_file path y)"
    unfolding writeln_file_def by (rule view_related_faulty) (auto intro: same_view_append)
  show "view_related path flush_file flush_file"
    unfolding flush_file_def by (rule view_related_faulty) auto
  show "view_related path (writeln_out x) (writeln_out x)"
    unfolding writeln_out_def by (rule view_related_faulty) (auto simp: same_view_def)
qed

lemma view_related_seq: "list_all2 (view_related path) as bs \<Longrightarrow> view_related path (io_seq as) (io_seq bs)"
proof (induction as bs rule: list_all2_induct)
  case Nil
  then show ?case by (simp add: view_related_def)
next
  case (Cons a as b bs)
  show ?case
    unfolding view_related_def
  proof (intro allI impI)
    fix s t assume st: "same_view path s t"
    obtain r s' t' where r: "a s = (r, s')" "b t = (r, t')" "same_view path s' t'"
      using Cons.hyps(1) st unfolding view_related_def by (metis prod.collapse)
    show "fst (io_seq (a # as) s) = fst (io_seq (b # bs) t) \<and> same_view path (snd (io_seq (a # as) s)) (snd (io_seq (b # bs) t))"
      using r Cons.IH by (cases r) (simp_all add: view_related_def)
  qed
qed

text \<open>Whatever the secret is: same result, same output, same files except for the text of the key file.\<close>

lemma keygen_secret_hidden:
  "view_related path (cmd_keygen_to E secret_of k path) (cmd_keygen_to E secret_of' k path)"
proof -
  have lines: "list_all2 (view_related path) (map (writeln_file path) (keypair_lines pub x))
      (map (writeln_file path) (keypair_lines pub y))" for pub x y
    by (simp add: keypair_lines_def view_related_calls)
  have keyfile: "view_related path (write_secret_keypair path pub x) (write_secret_keypair path pub y)" for pub x y
    unfolding write_secret_keypair_def
    by (intro view_related_seq list.rel_intros list_all2_appendI lines) (simp_all add: view_related_calls)
  have notice: "list_all2 (view_related path) (map writeln_out ls) (map writeln_out ls)" for ls
    by (induction ls) (simp_all add: view_related_calls)
  show ?thesis
    unfolding cmd_keygen_to_def Let_def by (intro view_related_seq list.rel_intros keyfile notice)
qed

end
