(* ===== verification/Application_Properties.thy ===== *)
theory Application_Properties
  imports Locking Lattice_Properties Storage Contracts Did Cli
begin

text \<open>
  What the crates around the ledger promise: the properties of storage transactions, of the escrow
  and vesting contracts, of decentralised identifiers and of the command line tool, with their
  witnesses.
\<close>

section \<open>Storage\<close>

text \<open>C33. A transaction is atomic: whatever is put and deleted in it, its view is that of a store to which the
  operations were applied directly; commit makes it the store, rollback gives the store it began with;
  and a batch leaves the store as putting its items one by one.\<close>

theorem transaction_refines:
  assumes "hm_wf s" "t = fold tx_step ops (begin_transaction s)"
  shows "tx_get t = ms_get (fold ms_step ops s) \<and> ms_get (tx_commit t) = ms_get (fold ms_step ops s) \<and>
    tx_rollback t = s \<and> hm_wf (tx_commit t) \<and>
    ms_get (atomic_put_batch items s) = ms_get (fold (\<lambda>(k, v). ms_put k v) items s)"
proof -
  have "tx_ok t \<and> tx_get t = ms_get (fold ms_step ops s) \<and> tx_store t = s"
    using tx_simulates[of "begin_transaction s" s ops] begin_ok[OF assms(1)] assms
    by (simp add: begin_transaction_def)
  then show ?thesis
    using commit_is_view[of t] commit_wf[of t] atomic_put_batch_puts[OF assms(1), of items]
    by (simp add: tx_rollback_def)
qed

theorem transaction_refines_witness:
  "\<exists>t. t = fold tx_step [StorePut [1] [2], StoreDelete [3]] (begin_transaction [([3], [4])]) \<and>
    tx_get t = [[1] \<mapsto> [2]] \<and> tx_rollback t = [([3], [4])]"
proof -
  let ?ops = "[StorePut [1] [2], StoreDelete [3]]"
  have wf: "hm_wf [([3 :: u8], [4 :: u8])]" by (simp add: hm_wf_def)
  have "ms_get (fold ms_step ?ops [([3], [4])]) = [[1] \<mapsto> [2]]"
    by (auto simp: ms_get_def ms_put_def ms_delete_def fun_eq_iff)
  then show ?thesis using transaction_refines[OF wf refl, of ?ops "[]"] by simp
qed

text \<open>C36. Threads that share a locked store, in any interleaving of their lock, body and unlock steps and
  even when some die holding the guard, never hold it together; the store and every reply are those of
  the calls made one after another in the order of their critical sections, each thread's in program
  order; a run has at most three steps per call, and when it can go no further every thread that did
  not die has all its replies.\<close>

theorem shared_store_linearizable:
  assumes "lock_run (start_threads prog st) n es s"
  shows "(\<forall>t < length prog. \<forall>u < length prog.
      active (sy_threads s ! t) \<and> active (sy_threads s ! u) \<longrightarrow> t = u) \<and>
    sy_store s = snd (replay es st) \<and>
    (\<forall>t < length prog.
      th_replies (sy_threads s ! t) @ pending_replies (sy_threads s ! t) = replies_of t es st \<and>
      calls_of t es @ pending_calls (sy_threads s ! t) = prog ! t) \<and>
    n \<le> 3 * sum_list (map length prog) \<and>
    ((\<nexists>fs s'. lock_step s fs s') \<longrightarrow> (\<forall>t < length prog. th_pc (sy_threads s ! t) = Dead \<or>
      th_replies (sy_threads s ! t) = replies_of t es st \<and> calls_of t es = prog ! t))"
proof -
  have ok: "system_ok prog st es s" by (rule run_ok[OF assms])
  have "n \<le> 3 * sum_list (map length prog)"
    using run_cost[OF assms] by (simp add: start_cost)
  moreover have "t = u" if "t < length prog" "u < length prog"
      "active (sy_threads s ! t)" "active (sy_threads s ! u)" for t u
    using ok that by (simp add: system_ok_def thread_ok_def)
  ultimately show ?thesis
    using ok blocked_done[OF ok] by (auto simp: system_ok_def thread_ok_def)
qed

theorem shared_store_linearizable_witness:
  "\<exists>s. lock_run (start_threads [[CallPut [1] [2]], [CallGet [1]]] cs_new) 5
        [Ran 0 (CallPut [1] [2]), Ran 1 (CallGet [1])] s \<and>
    th_replies (sy_threads s ! 1) @ pending_replies (sy_threads s ! 1) = [Ok (ReplyValue (Some [2]))]"
proof -
  let ?put = "CallPut [1] [2]" and ?get = "CallGet [1]"
  let ?S = "\<lambda>d h a b. \<lparr>sy_store = \<lparr>cs_poisoned = False, cs_data = d\<rparr>, sy_holder = h, sy_threads = [a, b]\<rparr>"
  let ?T = "\<lambda>pc todo rs. \<lparr>th_pc = pc, th_todo = todo, th_replies = rs\<rparr>"
  let ?put_done = "?T Outside [] [Ok NoReply]" and ?d = "[([1], [2])]"
  let ?s0 = "?S [] None (?T Outside [?put] []) (?T Outside [?get] [])"
  have s0: "start_threads [[?put], [?get]] cs_new = ?s0" by (simp add: start_threads_def cs_new_def)
  have "lock_step ?s0 [] (?S [] (Some 0) (?T (Inside ?put) [] []) (?T Outside [?get] []))"
    using lock_step.acquire[of 0 ?s0] by (simp add: set_thread_def)
  moreover have "lock_step (?S [] (Some 0) (?T (Inside ?put) [] []) b) [Ran 0 ?put]
      (?S ?d (Some 0) (?T (Leaving (Ok NoReply)) [] []) b)" for b
    using lock_step.run[of 0 "?S [] (Some 0) (?T (Inside ?put) [] []) b"]
    by (simp add: set_thread_def cs_lock_def hm_insert_def)
  moreover have "lock_step (?S ?d (Some 0) (?T (Leaving (Ok NoReply)) [] []) b) [] (?S ?d None ?put_done b)" for b
    using lock_step.drop_guard[of 0 "?S ?d (Some 0) (?T (Leaving (Ok NoReply)) [] []) b"]
    by (simp add: set_thread_def)
  moreover have "lock_step (?S ?d None ?put_done (?T Outside [?get] [])) []
      (?S ?d (Some 1) ?put_done (?T (Inside ?get) [] []))"
    using lock_step.acquire[of 1 "?S ?d None ?put_done (?T Outside [?get] [])"] by (simp add: set_thread_def)
  moreover have "lock_step (?S ?d (Some 1) ?put_done (?T (Inside ?get) [] [])) [Ran 1 ?get]
      (?S ?d (Some 1) ?put_done (?T (Leaving (Ok (ReplyValue (Some [2])))) [] []))"
    using lock_step.run[of 1 "?S ?d (Some 1) ?put_done (?T (Inside ?get) [] [])"]
    by (simp add: set_thread_def cs_lock_def)
  ultimately have run: "lock_run (start_threads [[?put], [?get]] cs_new) 5 [Ran 0 ?put, Ran 1 ?get]
      (?S ?d (Some 1) ?put_done (?T (Leaving (Ok (ReplyValue (Some [2])))) [] []))" (is "lock_run _ _ ?es ?s")
    using lock_run.more[OF lock_run.more[OF lock_run.more[OF lock_run.more[OF lock_run.more[OF lock_run.start]]]]]
    unfolding s0 by (fastforce simp: eval_nat_numeral)
  have "th_replies (sy_threads ?s ! 1) @ pending_replies (sy_threads ?s ! 1) = replies_of 1 ?es cs_new"
    using conjunct1[OF conjunct2[OF conjunct2[OF shared_store_linearizable[OF run]]], rule_format, of 1]
    by (simp only: list.size One_nat_def add_Suc_right add_0_right lessI)
  also have "\<dots> = [Ok (ReplyValue (Some [2]))]"
    by (simp add: replies_of_def cs_put_def cs_get_def cs_lock_def cs_new_def)
  finally show ?thesis using run by blast
qed

section \<open>Contracts\<close>

text \<open>C31. A locked escrow is released exactly by a signature of its recipient over its release message, and
  refunded exactly by one of its sender over its refund message after the timeout; a refused call
  changes nothing, and after the first accepted one every call is refused and nothing changes again.\<close>

theorem escrow_lifecycle:
  assumes "es_state self = Locked"
  shows "(fst (release E pk sig self) = Ok () \<longleftrightarrow> release_authorised E pk sig self) \<and>
    (fst (refund E pk sig now self) = Ok () \<longleftrightarrow> es_timeout self \<le> now \<and> refund_authorised E pk sig self) \<and>
    (fst (escrow_call E op self) \<noteq> Ok () \<longrightarrow> snd (escrow_call E op self) = self) \<and>
    (fst (escrow_call E op self) = Ok () \<longrightarrow>
      snd (escrow_call E op self) = self\<lparr>es_state := (case op of DoRelease _ _ \<Rightarrow> Released | DoRefund _ _ _ \<Rightarrow> Refunded)\<rparr> \<and>
      (\<forall>ops. fold (escrow_step E) ops (snd (escrow_call E op self)) = snd (escrow_call E op self)) \<and>
      (\<forall>op'. fst (escrow_call E op' (snd (escrow_call E op self))) \<noteq> Ok ()))"
proof -
  have settled: "fst (escrow_call E op' s) \<noteq> Ok ()" if "es_state s \<noteq> Locked" for op' s
    using that by (cases op') (simp_all add: release_Ok_iff refund_Ok_iff)
  have ok: "snd (escrow_call E op self) = self\<lparr>es_state := (case op of DoRelease _ _ \<Rightarrow> Released | DoRefund _ _ _ \<Rightarrow> Refunded)\<rparr>"
    if "fst (escrow_call E op self) = Ok ()"
    using that by (cases op) (simp_all add: release_state refund_state)
  then have left: "es_state (snd (escrow_call E op self)) \<noteq> Locked" if "fst (escrow_call E op self) = Ok ()"
    using that by (simp split: escrow_op.split)
  have refused: "fst (escrow_call E op self) \<noteq> Ok () \<longrightarrow> snd (escrow_call E op self) = self"
    by (cases op) (simp_all add: release_state refund_state)
  show ?thesis
    using release_Ok_iff[of E pk sig self] refund_Ok_iff[of E pk sig now self] refused
      ok escrow_settles_once[OF left] settled[OF left] assms by blast
qed

definition demo_escrow :: escrow where
  "demo_escrow = escrow_new (demo_hex_encode (replicate 32 7)) (demo_hex_encode (replicate 32 9)) 100 50"

definition demo_release_signature :: bytes where
  "demo_release_signature =
     replicate 32 9 @ demo_digest (ESCROW_RELEASE_DOMAIN @ replicate 32 7 @ replicate 32 9 @ u64_to_be 100 @ u64_to_be 50)"

theorem escrow_lifecycle_witness:
  "fst (release demo_env (replicate 32 9) demo_release_signature demo_escrow) = Ok () \<and>
    es_state (snd (release demo_env (replicate 32 9) demo_release_signature demo_escrow)) = Released \<and>
    (\<forall>pk sig now. fst (refund demo_env pk sig now (snd (release demo_env (replicate 32 9) demo_release_signature demo_escrow))) \<noteq> Ok ())"
proof -
  have locked: "es_state demo_escrow = Locked" by (simp add: demo_escrow_def escrow_new_def)
  have rel: "release_authorised demo_env (replicate 32 9) demo_release_signature demo_escrow"
    by (simp add: release_authorised_def release_message_def escrow_identity_bytes_def demo_escrow_def escrow_new_def
        demo_hex_round demo_verify_def demo_release_signature_def)
  let ?op = "DoRelease (replicate 32 9) demo_release_signature"
  note life = escrow_lifecycle[OF locked, of demo_env "replicate 32 9" demo_release_signature 0 ?op]
  have released: "fst (escrow_call demo_env ?op demo_escrow) = Ok ()" using life rel by simp
  then have "snd (escrow_call demo_env ?op demo_escrow) = demo_escrow\<lparr>es_state := Released\<rparr>" using life by simp
  moreover have "fst (escrow_call demo_env (DoRefund pk sig now) (snd (escrow_call demo_env ?op demo_escrow))) \<noteq> Ok ()"
    for pk sig now
    using life released by blast
  ultimately show ?thesis using released by simp
qed

text \<open>C32. Whatever times the owner of an accepted schedule claims at, and in whatever order, what was paid in
  all is exactly the largest vested amount of those times: nothing before the cliff, the linear share
  (rounded down) up to the end, and the full amount after it; never more than the total.\<close>

theorem vesting_claims:
  assumes "vs_new_checked owner tot start cliff fin = Ok s" "claims ts s = (paid, s')"
    and v: "\<And>t. v t = (if t < cliff then 0 else if fin \<le> t then unat tot
      else unat tot * (unat t - unat start) div (unat fin - unat start))"
  shows "paid = Max (insert 0 (v ` set ts)) \<and> paid \<le> unat tot \<and> (\<forall>t \<in> set ts. fin \<le> t \<longrightarrow> paid = unat tot)"
proof -
  have s: "s = vs_new owner tot start cliff fin" and ok: "schedule_ok s"
    using assms(1) unfolding vs_new_checked_Ok by blast+
  have vested: "unat (vested_at s t) = v t" for t
    using vested_at_exact[OF ok, of t] by (simp add: s vs_new_def v)
  have "paid = fold (\<lambda>t m. max m (v t)) ts 0"
    using claims_total[OF assms(2)] vested by (simp add: s vs_new_def)
  also have "(\<lambda>t m. max m (v t)) = (\<lambda>t. max (v t))" by (simp add: fun_eq_iff max.commute)
  also have "fold (\<lambda>t. max (v t)) ts 0 = fold max (map v ts) 0" by (simp add: fold_map comp_def)
  also have "\<dots> = Max (set (0 # map v ts))" by (simp only: Max.set_eq_fold)
  finally have paid: "paid = Max (insert 0 (v ` set ts))" by simp
  have bound: "v t \<le> unat tot" for t
    using vested_at_bounded[OF ok, of t] vested[of t] by (simp add: word_le_nat_alt s vs_new_def)
  have "paid \<le> unat tot" using bound by (simp add: paid)
  moreover have "paid = unat tot" if "t \<in> set ts" "fin \<le> t" for t
  proof -
    have "v t = unat tot" using that ok by (auto simp: v schedule_ok_def s vs_new_def)
    moreover have "v t \<le> paid" using that(1) unfolding paid by (intro Max_ge) auto
    ultimately show ?thesis using \<open>paid \<le> unat tot\<close> by simp
  qed
  ultimately show ?thesis using paid by blast
qed

theorem vesting_claims_witness:
  "\<exists>s paid s'. vs_new_checked ''owner'' 1000 100 150 200 = Ok s \<and> claims [120, 180, 160, 300] s = (paid, s') \<and> paid = 1000"
proof -
  have new: "vs_new_checked ''owner'' 1000 100 150 200 = Ok (vs_new ''owner'' 1000 100 150 200)"
    by (simp add: vs_new_checked_def)
  obtain paid s' where run: "claims [120, 180, 160, 300] (vs_new ''owner'' 1000 100 150 200) = (paid, s')" by force
  show ?thesis using vesting_claims[OF new run refl] new run by simp
qed

section \<open>Identifiers\<close>

text \<open>C37. The identifier of a public key parses back to the digest of the key and matches it, only valid keys
  have one, and two keys share an identifier exactly when their digests agree.\<close>

theorem did_roundtrip:
  assumes "bs58_laws E" "blake3_laws E" "did_from_public_key E pk = Ok d" "did_from_public_key E pk' = Ok d'"
  shows "parse_did E (did_text d) = Ok \<lparr>pd_text = did_text d, pd_identifier_hash = blake3 E pk\<rparr> \<and>
    did_identifier d = bs58_encode E (blake3 E pk) \<and>
    (\<forall>p. parse_did E (did_text d) = Ok p \<longrightarrow> (matches_pubkey E p pk' \<longleftrightarrow> did_text d = did_text d')) \<and>
    validate_pubkey_strict E pk = Ok () \<and> (did_text d = did_text d' \<longleftrightarrow> blake3 E pk = blake3 E pk')"
proof -
  have d: "did_text d = DID_PREFIX @ bs58_encode E (blake3 E pk)" "did_text d' = DID_PREFIX @ bs58_encode E (blake3 E pk')"
    using assms(3,4) by (auto simp: did_from_public_key_def outcome_simps hash_blake3_bytes_def Let_def)
  have same: "did_text d = did_text d' \<longleftrightarrow> blake3 E pk = blake3 E pk'"
    using did_binds_key[OF assms(1,3,4)] by (auto simp: d)
  have "did_identifier d = bs58_encode E (blake3 E pk)"
    by (simp add: did_identifier_def d strip_prefix_iff[THEN iffD2, OF refl])
  then show ?thesis
    using did_parses_back[OF assms(1-3)] same by (auto simp: matches_pubkey_def hash_blake3_bytes_def)
qed

theorem did_roundtrip_witness:
  "\<exists>d. did_from_public_key demo_env (replicate 32 7) = Ok d \<and>
    parse_did demo_env (did_text d) = Ok \<lparr>pd_text = did_text d, pd_identifier_hash = blake3 demo_env (replicate 32 7)\<rparr>"
proof -
  have "is_ok (did_from_public_key demo_env (replicate 32 7))"
    by (simp add: did_from_public_key_def validate_pubkey_strict_def Let_def)
  then obtain d where "did_from_public_key demo_env (replicate 32 7) = Ok d" by (auto simp: is_ok_iff)
  then show ?thesis using did_roundtrip[OF demo_bs58_laws demo_blake3_laws] by blast
qed

section \<open>The command line tool\<close>

text \<open>C39. Key generation never touches an existing file and writes no other file than the one asked for; when
  it succeeds, that file holds both keys with mode 600 and standard output shows the notice with the
  public key; and whatever happens, faults included, the outcome and the output do not depend on the
  secret.\<close>

theorem keygen_safe:
  assumes "cmd_keygen_to E secret_of k path st = (r, st')"
  shows "(io_files st path \<noteq> None \<longrightarrow> \<not> is_ok r \<and> io_files st' = io_files st \<and> io_out st' = io_out st) \<and>
    (\<forall>q. q \<noteq> path \<longrightarrow> io_files st' q = io_files st q) \<and>
    (is_ok r \<longrightarrow>
      io_files st' path = Some \<lparr>file_mode = 0x180, file_text = concat (map (\<lambda>l. l @ newline)
        (keypair_lines (hex_encode E (pubkey_of E k)) (hex_encode E (secret_of k))))\<rparr> \<and>
      io_out st' = io_out st @ concat (map (\<lambda>l. l @ newline) (keygen_notice (hex_encode E (pubkey_of E k)) path))) \<and>
    (\<forall>other. \<exists>st''. cmd_keygen_to E other k path st = (r, st'') \<and> io_out st'' = io_out st' \<and> io_err st'' = io_err st')"
proof -
  have "\<exists>st''. cmd_keygen_to E other k path st = (r, st'') \<and> io_out st'' = io_out st' \<and> io_err st'' = io_err st'" for other
  proof -
    have "same_view path st st" by (simp add: same_view_def)
    then show ?thesis
      using keygen_secret_hidden[of path E secret_of k other] assms
      unfolding view_related_def same_view_def by (metis prod.collapse fst_conv snd_conv)
  qed
  moreover have "is_ok r \<longrightarrow> (\<exists>u. r = Ok u)" by (simp add: is_ok_iff)
  ultimately show ?thesis
    using keygen_existing[of st path E secret_of k] keygen_other_files[of _ path E secret_of k st]
      keygen_Ok[of E secret_of k path st _ st'] assms by auto
qed

definition demo_io :: io_state where
  "demo_io = \<lparr>io_files = Map.empty, io_out = [], io_err = [], io_faults = []\<rparr>"

theorem keygen_safe_witness:
  "\<exists>st'. cmd_keygen_to demo_env (\<lambda>k. [k]) 7 ''key.json'' demo_io = (Ok (), st') \<and> io_files st' ''other'' = None \<and>
    (\<exists>st''. cmd_keygen_to demo_env (\<lambda>k. [k + 1]) 7 ''key.json'' demo_io = (Ok (), st'') \<and> io_out st'' = io_out st')"
proof -
  have "is_ok (fst (cmd_keygen_to demo_env (\<lambda>k. [k]) 7 ''key.json'' demo_io))"
    by (simp add: cmd_keygen_to_def write_secret_keypair_def create_new_file_def writeln_file_def flush_file_def
        writeln_out_def next_fault_def append_file_def keypair_lines_def keygen_notice_def demo_io_def Let_def)
  then obtain st' where run: "cmd_keygen_to demo_env (\<lambda>k. [k]) 7 ''key.json'' demo_io = (Ok (), st')"
    by (cases "cmd_keygen_to demo_env (\<lambda>k. [k]) 7 ''key.json'' demo_io") (auto simp: is_ok_iff)
  note spec = keygen_safe[OF run]
  have "io_files st' ''other'' = None" using spec by (simp add: demo_io_def)
  then show ?thesis using run spec by blast
qed

end
