(* ===== verification/Flows.thy ===== *)
theory Flows
  imports Chain Finality Relay Crdt Transport Did
begin

text \<open>
  The programs under \<open>examples\<close>, which put the crates together: an offline payment from opening to
  finality, a relay that signs its receipts, two counters and clocks that meet again, and identities
  for new keys. What they only print is left out, except for the slices of hashes, which can panic. Keys and times are arguments.
\<close>

section \<open>An offline payment\<close>

datatype payment_error =
    ChainFailed arxia_error
  | HashNotHex string
  | HashNot32Bytes
  | FinalityFailed finality_error

text \<open>\<open>&hash[..16]\<close> and \<open>assert!\<close>.\<close>

definition slice16 :: "string \<Rightarrow> (string, 'e) result" where
  "slice16 s = (case str_prefix 16 s of None \<Rightarrow> Panic | Some p \<Rightarrow> Ok p)"

definition assert_that :: "bool \<Rightarrow> (unit, 'e) result" where
  "assert_that c = (if c then Ok () else Panic)"

text \<open>The confirmation of one witness over the sent block, and its assessment.\<close>

definition confirm_send ::
    "('sk, 'vk, 'z) crypto_scheme \<Rightarrow> 'sk \<Rightarrow> block \<Rightarrow> (finality_level, payment_error) result" where
  "confirm_send E witness send_block =
     and_then (map_err HashNotHex (hex_decode E (b_hash send_block))) (\<lambda>hash_vec.
     and_then (ok_or (to_array 32 hash_vec) HashNot32Bytes) (\<lambda>hash.
       let witness_pk = pubkey_of E witness;
           confirmation = \<lparr>cf_confirmer_pubkey = witness_pk, cf_block_hash = hash,
             cf_signature = crypto_sign E witness (confirmation_canonical_bytes witness_pk hash)\<rparr>;
           registry = vr_insert witness_pk 1 []
       in map_err FinalityFailed
            (assess_finality E 5000000 hash [confirmation] (SyncMismatch 0) [] registry)))"

definition offline_payment ::
    "('sk, 'vk, 'z) arxia_env_scheme \<Rightarrow> 'sk \<Rightarrow> 'sk \<Rightarrow> 'sk \<Rightarrow> (nat \<Rightarrow> u64)
      \<Rightarrow> (finality_level \<times> ('sk, 'vk) account_chain \<times> ('sk, 'vk) account_chain, payment_error) result" where
  "offline_payment E ka kb witness now =
     (let alice = ac_new E ka; bob = ac_new E kb;
          (r1, alice, vclock) = ac_open E 100000000 (now 0) alice vc_new in
      and_then (map_err ChainFailed r1) (\<lambda>alice_genesis.
      let (r2, bob, vclock) = ac_open E 0 (now 1) bob vclock in
      and_then (map_err ChainFailed r2) (\<lambda>_.
      and_then (slice16 (b_hash alice_genesis)) (\<lambda>_.
      let (r3, alice, vclock) = ac_send E (ac_id bob) 5000000 (now 2) alice vclock in
      and_then (map_err ChainFailed r3) (\<lambda>send_block.
      and_then (slice16 (b_hash send_block)) (\<lambda>_.
      and_then (assert_that (is_ok (verify_block E send_block))) (\<lambda>_.
      let (r4, bob, vclock) = ac_receive E send_block (now 3) bob vclock in
      and_then (map_err ChainFailed r4) (\<lambda>recv_block.
      and_then (slice16 (b_hash recv_block)) (\<lambda>_.
      and_then (assert_that (is_ok (verify_block E recv_block))) (\<lambda>_.
      and_then (assert_that (is_ok (verify_chain_integrity E (ac_chain alice)))) (\<lambda>_.
      and_then (assert_that (is_ok (verify_chain_integrity E (ac_chain bob)))) (\<lambda>_.
      and_then (confirm_send E witness send_block) (\<lambda>level.
      and_then (assert_that (level = L0)) (\<lambda>_.
        Ok (level, alice, bob)))))))))))))))"

section \<open>A relay\<close>

definition build_signed_receipt ::
    "('sk, 'vk, 'z) crypto_scheme \<Rightarrow> 'sk \<Rightarrow> string \<Rightarrow> bytes \<Rightarrow> u64 \<Rightarrow> u8 \<Rightarrow> (relay_receipt, unit) result" where
  "build_signed_receipt E relay_sk relay_id message timestamp hop_count =
     (let r = \<lparr>rp_relay_id = relay_id, rp_message_hash = hash_blake3 E message, rp_timestamp = timestamp,
        rp_signature = [], rp_hop_count = hop_count\<rparr>
      in case receipt_canonical_message E r of
           Ok canonical \<Rightarrow> Ok (r\<lparr>rp_signature := crypto_sign E relay_sk canonical\<rparr>)
         | _ \<Rightarrow> Panic)"

text \<open>The loop over the forwarded messages; a refused receipt is only printed.\<close>

fun credit_all ::
    "('sk, 'vk, 'z) crypto_scheme \<Rightarrow> 'sk \<Rightarrow> string \<Rightarrow> u64 \<Rightarrow> bytes list \<Rightarrow> relay_score \<Rightarrow> (relay_score, unit) result" where
  "credit_all E relay_sk relay_id timestamp [] score = Ok score"
| "credit_all E relay_sk relay_id timestamp (m # ms) score =
     and_then (build_signed_receipt E relay_sk relay_id m timestamp 1) (\<lambda>r.
       case record_success E r score of
         (Panic, _) \<Rightarrow> Panic
       | (_, score') \<Rightarrow> credit_all E relay_sk relay_id (timestamp + 1) ms score')"

definition mesh_relay ::
    "('sk, 'vk, 'z) crypto_scheme \<Rightarrow> 'sk \<Rightarrow> ((unit, transport_error) result \<times> int \<times> bool, unit) result" where
  "mesh_relay E relay_sk =
     (let relay_id = hex_encode E (pubkey_of E relay_sk);
          msg = \<lparr>tm_from = ''sender'', tm_to = ''destination'', tm_payload = [1, 2, 3, 4, 5], tm_timestamp = 1000\<rparr> in
      and_then (slice16 relay_id) (\<lambda>_.
      let (sent, transport) = sim_send msg lora in
      if sent = Panic then Panic
      else and_then (credit_all E relay_sk relay_id 1000 [str_bytes ''first-message'', str_bytes ''second-message'']
        (relay_score_new relay_id)) (\<lambda>score.
      case record_failure score of
        (Ok _, score') \<Rightarrow> Ok (sent, rs_score score', is_trusted score')
      | (Err e, _) \<Rightarrow> Err e
      | (Panic, _) \<Rightarrow> Panic)))"

section \<open>Two partitions\<close>

definition partition_counters :: "(int \<times> int \<times> int, unit) result" where
  "partition_counters =
     (let counter_a = pn_decrement ''node_1'' 10 (pn_increment ''node_2'' 50 (pn_increment ''node_1'' 100 pn_new));
          counter_b = pn_decrement ''node_3'' 30 (pn_increment ''node_3'' 200 pn_new);
          merged_a = pn_merge counter_a counter_b;
          merged_b = pn_merge counter_b merged_a
      in and_then (assert_that (pn_value merged_a = pn_value merged_b)) (\<lambda>_.
           Ok (pn_value counter_a, pn_value counter_b, pn_value merged_a)))"

definition partition_clocks :: "(bool \<times> crdt_vector_clock, unit) result" where
  "partition_clocks =
     and_then (cvc_tick ''node_1'' cvc_new) (\<lambda>vc_a.
     and_then (cvc_tick ''node_1'' vc_a) (\<lambda>vc_a.
     and_then (cvc_tick ''node_2'' cvc_new) (\<lambda>vc_b.
       Ok (cvc_is_concurrent vc_a vc_b, cvc_merge vc_a vc_b))))"

section \<open>Identities\<close>

text \<open>\<open>expect\<close> on the identity of each new key.\<close>

fun did_issuance :: "('sk, 'vk, 'z) crypto_scheme \<Rightarrow> 'sk list \<Rightarrow> (string list, unit) result" where
  "did_issuance E [] = Ok []"
| "did_issuance E (k # ks) =
     (case did_from_public_key E (pubkey_of E k) of
        Ok did \<Rightarrow> map_ok (\<lambda>ts. did_text did # ts) (did_issuance E ks)
      | _ \<Rightarrow> Panic)"

section \<open>The flows succeed\<close>

lemma slice16_hex: "lower_hex s \<Longrightarrow> length s = 64 \<Longrightarrow> slice16 s = Ok (take 16 s)"
  using lower_hex_ascii[of s 16] by (auto simp: slice16_def str_prefix_def)

lemma verified_hash:
  assumes E: "env_laws E" and v: "verify_block E b = Ok ()"
  shows "lower_hex (b_hash b)" "length (b_hash b) = 64" "\<exists>h. hex_decode E (b_hash b) = Ok h \<and> length h = 32"
proof -
  note hex = hex_lawsD[OF env_lawsD(1)[OF E]]
  obtain c where c: "b_hash b = hex_encode E (blake3 E c)"
    using v env_lawsD(2)[OF E] by (auto simp: verify_block_Ok_iff block_hash_of_Ok blake3_laws_def)
  have len: "length (blake3 E c) = 32" using env_lawsD(2)[OF E] by (simp add: blake3_laws_def)
  show "lower_hex (b_hash b)" "length (b_hash b) = 64" using hex len by (simp_all add: c)
  show "\<exists>h. hex_decode E (b_hash b) = Ok h \<and> length h = 32" using hex len by (simp add: c)
qed

lemma confirm_send_L0:
  assumes E: "env_laws E" and v: "verify_block E b = Ok ()"
  shows "confirm_send E k b = Ok L0"
proof -
  obtain h where h: "hex_decode E (b_hash b) = Ok h" "length h = 32" using verified_hash(3)[OF E v] by blast
  let ?pk = "pubkey_of E k"
  let ?c = "\<lparr>cf_confirmer_pubkey = ?pk, cf_block_hash = h,
    cf_signature = crypto_sign E k (confirmation_canonical_bytes ?pk h)\<rparr>"
  have ed: "ed25519_laws E" using env_lawsD(3)[OF E] .
  have sig: "length (crypto_sign E k m) = 64" for m
    using ed25519_lawsD[OF ed] by (simp add: crypto_sign_def)
  have "confirmation_verify E ?c = Ok ()"
    using verify_signed[OF ed, of k] sig
    by (simp add: confirmation_verify_def verify_signature_def to_array_def)
  then have "assess_finality E 5000000 h [?c] (SyncMismatch 0) [] (vr_insert ?pk 1 []) = Ok L0"
    by (simp add: assess_finality_def vr_insert_def vr_total_stake_def vr_contains_def saturating_sum_def
        saturating_add_def saturating_mul_def L0_CAP_MICRO_ARX_def Let_def)
  then show ?thesis using h by (simp add: confirm_send_def to_array_def)
qed

text \<open>A receipt built by the relay is credited once, and never twice.\<close>

lemma built_receipt:
  assumes E: "ed25519_laws E" and hex: "hex_laws E" and b3: "blake3_laws E" and h: "h \<le> MAX_HOPS_PER_RECEIPT"
  shows "\<exists>r. build_signed_receipt E k (hex_encode E (pubkey_of E k)) m t h = Ok r \<and> receipt_verify E r = Ok () \<and>
    rp_relay_id r = hex_encode E (pubkey_of E k) \<and> hex_decode E (rp_message_hash r) = Ok (blake3 E m)"
proof -
  note hl = hex_lawsD(1)[OF hex] and ed = ed25519_lawsD[OF E]
  let ?pk = "pubkey_of E k"
  have len: "length (blake3 E m) = 32" "length ?pk = 32" and b3h: "blake3_to_hex E h = hex_encode E h" for h
    using b3 ed by (simp_all add: blake3_laws_def pubkey_of_def)
  have sig: "length (crypto_sign E k c) = 64" for c using ed by (simp add: crypto_sign_def)
  define c where "c = RELAY_RECEIPT_DOMAIN @ ?pk @ blake3 E m @ u64_to_be t @ [h]"
  let ?r = "\<lambda>s. \<lparr>rp_relay_id = hex_encode E ?pk, rp_message_hash = hash_blake3 E m, rp_timestamp = t,
    rp_signature = s, rp_hop_count = h\<rparr>"
  have dec: "decode_hex_32 E (hex_encode E ?pk) = Ok ?pk" "decode_hex_32 E (hash_blake3 E m) = Ok (blake3 E m)"
    using hl len by (simp_all add: decode_hex_32_def to_array_def hash_blake3_def b3h)
  have canon: "receipt_canonical_message E (?r s) = Ok c" for s
    by (simp add: receipt_canonical_message_def dec c_def)
  have "receipt_verify E (?r (crypto_sign E k c)) = Ok ()"
    using h verify_signed[OF E, of k c] sig[of c]
    by (simp add: receipt_verify_def canon dec to_array_def linorder_not_less[symmetric])
  moreover have "build_signed_receipt E k (hex_encode E ?pk) m t h = Ok (?r (crypto_sign E k c))"
    by (simp add: build_signed_receipt_def canon)
  moreover have "hex_decode E (hash_blake3 E m) = Ok (blake3 E m)" using hl by (simp add: hash_blake3_def b3h)
  ultimately show ?thesis by auto
qed

lemma issued_identities:
  assumes "ed25519_laws E"
  shows "did_issuance E ks = Ok (map (\<lambda>k. DID_PREFIX @ bs58_encode E (hash_blake3_bytes E (pubkey_of E k))) ks)"
  by (induction ks) (simp_all add: did_from_public_key_def validate_pubkey_of[OF assms] Let_def)

text \<open>The two partitions agree on the sum of their counters, and their clocks were concurrent.\<close>

lemma node_order: "''node_1'' < ''node_2''" "\<not> ''node_2'' < ''node_1''" "''node_1'' < ''node_3''"
  "\<not> ''node_3'' < ''node_1''" "''node_2'' < ''node_3''" "\<not> ''node_3'' < ''node_2''"
  by (simp_all add: less_char_def)

lemma counters_meet: "partition_counters = Ok (140, 170, 310)"
  by (simp add: partition_counters_def pn_value_clamped pn_increment_def pn_decrement_def pn_merge_def pn_new_def
      bt_entry_def node_order entry_total_def assert_that_def i64_MAX_def i64_MIN_def saturating_add_def)

lemma clocks_meet: "partition_clocks = Ok (True, \<lparr>crdt_clocks = [(''node_1'', 2), (''node_2'', 1)]\<rparr>)"
  by (simp add: partition_clocks_def cvc_tick_def cvc_new_def clock_at_def plain_add_def checked_add_def
      cvc_is_concurrent_def cvc_happened_before_def cvc_merge_simp bt_entry_def node_order)

end
