(* ===== verification/Flow_Properties.thy ===== *)
theory Flow_Properties
  imports Flows World_Properties
begin

text \<open>
  The properties of the programs under \<open>examples\<close>: the payment between two fresh accounts runs to
  its end whatever the keys and the times, and the relay is credited for both messages.
\<close>

section \<open>The relay\<close>

lemma built_credited:
  assumes E: "env_laws E" and h: "h \<le> MAX_HOPS_PER_RECEIPT" and id: "rs_relay_id s = hex_encode E (pubkey_of E k)"
    and room: "unat (rs_messages_relayed s) + 1 < 2 ^ 64" "i64_MIN \<le> rs_score s + 1" "rs_score s + 1 \<le> i64_MAX"
    and fresh: "blake3 E m \<notin> rs_credited_messages s"
  shows "\<exists>r. build_signed_receipt E k (rs_relay_id s) m t h = Ok r \<and>
    record_success E r s = (Ok (), s\<lparr>rs_credited_messages := insert (blake3 E m) (rs_credited_messages s),
      rs_messages_relayed := rs_messages_relayed s + 1, rs_score := rs_score s + 1\<rparr>)"
proof -
  obtain r where r: "build_signed_receipt E k (rs_relay_id s) m t h = Ok r" "receipt_verify E r = Ok ()"
    "rp_relay_id r = rs_relay_id s" "hex_decode E (rp_message_hash r) = Ok (blake3 E m)"
    using built_receipt[OF env_lawsD(3,1,2)[OF E] h] id by metis
  have "length (blake3 E m) = 32" using env_lawsD(2)[OF E] by (simp add: blake3_laws_def)
  then show ?thesis using r fresh room by (simp add: record_success_def to_array_def add_success_Ok)
qed

lemma sent_no_panic: "fst (sim_send m s) \<noteq> Panic"
  by (simp add: sim_send_def Let_def)

text \<open>The relay of the example ends with a score of 97 and is trusted, when the two messages it
  forwards have different digests.\<close>

lemma relay_credited:
  assumes E: "env_laws E"
    and differ: "blake3 E (str_bytes ''first-message'') \<noteq> blake3 E (str_bytes ''second-message'')"
  shows "\<exists>sent. mesh_relay E k = Ok (sent, 97, True)"
proof -
  let ?id = "hex_encode E (pubkey_of E k)" and ?m1 = "str_bytes ''first-message''" and ?m2 = "str_bytes ''second-message''"
  let ?s0 = "relay_score_new ?id"
  have i64: "i64_MIN \<le> 102" "102 \<le> i64_MAX" "i64_MIN \<le> 101" "101 \<le> i64_MAX" "i64_MIN \<le> 97" "97 \<le> i64_MAX"
    by (simp_all add: i64_MIN_def i64_MAX_def)
  have hops: "1 \<le> MAX_HOPS_PER_RECEIPT" by (simp add: MAX_HOPS_PER_RECEIPT_def)
  obtain r1 where r1: "build_signed_receipt E k ?id ?m1 1000 1 = Ok r1"
    "record_success E r1 ?s0 = (Ok (), ?s0\<lparr>rs_credited_messages := {blake3 E ?m1}, rs_messages_relayed := 1, rs_score := 101\<rparr>)"
    using built_credited[OF E hops, of ?s0 k ?m1 1000] i64 by (auto simp: relay_score_new_def)
  let ?s1 = "?s0\<lparr>rs_credited_messages := {blake3 E ?m1}, rs_messages_relayed := 1, rs_score := 101\<rparr>"
  obtain r2 where r2: "build_signed_receipt E k ?id ?m2 1001 1 = Ok r2"
    "record_success E r2 ?s1 = (Ok (), ?s1\<lparr>rs_credited_messages := {blake3 E ?m2, blake3 E ?m1}, rs_messages_relayed := 2, rs_score := 102\<rparr>)"
    using built_credited[OF E hops, of ?s1 k ?m2 1001] differ i64 by (auto simp: relay_score_new_def)
  have "slice16 ?id = (Ok (take 16 ?id) :: (string, unit) result)"
    using hex_lawsD[OF env_lawsD(1)[OF E]] env_lawsD(3)[OF E] by (intro slice16_hex) simp_all
  moreover obtain sent t where "sim_send \<lparr>tm_from = ''sender'', tm_to = ''destination'',
      tm_payload = [1, 2, 3, 4, 5], tm_timestamp = 1000\<rparr> lora = (sent, t)" "sent \<noteq> Panic"
    using sent_no_panic by (metis prod.collapse)
  ultimately show ?thesis
    using r1 r2 i64 by (auto simp: mesh_relay_def Let_def record_failure_def i64_plain_add_def relay_score_new_def
        plain_add_def checked_add_def is_trusted_def is_trusted_with_threshold_def TRUST_THRESHOLD_def)
qed

section \<open>The chains of the payment\<close>

lemma ok_chain_block:
  assumes E: "env_laws E" and ok: "ac_ok E a" and b: "b \<in> set (ac_chain a)"
  shows "verify_block E b = Ok ()" "\<exists>s. slice16 (b_hash b) = Ok s"
proof -
  show v: "verify_block E b = Ok ()" using ok b by (auto simp: ac_ok_def intro: chain_valid_verified)
  show "\<exists>s. slice16 (b_hash b) = Ok s" using slice16_hex verified_hash(1,2)[OF E v] by blast
qed

lemma ok_chain_intact: "ac_ok E a \<Longrightarrow> verify_chain_integrity E (ac_chain a) = Ok ()"
  by (simp add: ac_ok_def verify_chain_integrity_Ok_iff)

section \<open>The payment\<close>

text \<open>C40. The payment example never fails and never panics. For any three keys, provided that Alice's
  and Bob's accounts differ, and any four times, the program runs to its end: both accounts open, the
  send and the receive verify, both chains pass the integrity check, one signed confirmation gives
  level L0, and Alice is left with 95 and Bob with 5 ARX, his last block crediting hers.\<close>

theorem payment_flow:
  assumes E: "env_laws E" and ids: "ac_id (ac_new E ka) \<noteq> ac_id (ac_new E kb)"
  shows "\<exists>alice bob s. offline_payment E ka kb witness now = Ok (L0, alice, bob) \<and>
    ac_balance alice = 95000000 \<and> ac_balance bob = 5000000 \<and>
    last (ac_chain alice) = s \<and> b_type s = Send (ac_id bob) 5000000 \<and>
    map b_type (ac_chain bob) = [Open 0, Receive (b_hash s)]"
proof -
  have caps: "100000000 \<le> MAX_INITIAL_BALANCE_PER_ACCOUNT" "0 \<le> MAX_INITIAL_BALANCE_PER_ACCOUNT"
    by (simp_all add: MAX_INITIAL_BALANCE_PER_ACCOUNT_def ONE_ARX_def)
  obtain g a1 c1 where a1: "ac_open E 100000000 (now 0) (ac_new E ka) vc_new = (Ok g, a1, c1)" "ac_ok E a1"
    "ac_chain a1 = [g]" "ac_balance a1 = 100000000" "ac_nonce a1 = 1" "ac_public_key_hex a1 = ac_public_key_hex (ac_new E ka)"
    by (rule opened_fresh[OF E caps(1), of "now 0" ka vc_new]) (rule that)
  obtain h b2 c2 where b2: "ac_open E 0 (now 1) (ac_new E kb) c1 = (Ok h, b2, c2)" "ac_ok E b2" "ac_chain b2 = [h]"
    "ac_balance b2 = 0" "b_type h = Open 0" "ac_nonce b2 = 1" "ac_consumed_sources b2 = {}" "ac_public_key_hex b2 = ac_public_key_hex (ac_new E kb)"
    by (rule opened_fresh[OF E caps(2), of "now 1" kb c1]) (rule that)
  have ready: "ac_nonce a1 \<noteq> - 1" "ac_nonce b2 \<noteq> - 1" "ac_chain b2 \<noteq> []" "5000000 \<le> ac_balance a1"
    "unat (ac_balance b2) + unat (5000000 :: u64) \<le> unat MAX_INITIAL_BALANCE_PER_ACCOUNT" "(5000000 :: u64) \<noteq> 0"
    by (simp_all add: a1(4,5) b2(3,4,6) unat_MAX_INITIAL_BALANCE)
  have differ: "ac_public_key_hex b2 \<noteq> ac_public_key_hex a1" using ids a1(6) b2(8) by (simp add: ac_id_def)
  obtain s a3 c3 v b4 c4 where pay: "ac_send E (ac_public_key_hex b2) 5000000 (now 2) a1 c2 = (Ok s, a3, c3)"
    "ac_receive E s (now 3) b2 c3 = (Ok v, b4, c4)" "ac_ok E a3" "ac_ok E b4" "b_type s = Send (ac_public_key_hex b2) 5000000"
    "b_type v = Receive (b_hash s)" "ac_chain a3 = [g] @ [s]" "ac_chain b4 = [h] @ [v]"
    "unat (ac_balance a3) + unat (5000000 :: u64) = unat (100000000 :: u64)"
    "unat (ac_balance b4) = unat (0 :: u64) + unat (5000000 :: u64)" "ac_public_key_hex b4 = ac_public_key_hex b2"
    by (rule first_payment[OF E a1(2) ready(1) b2(2) ready(2,3) b2(7) differ ready(6,4,5), of "now 2" c2 "now 3", unfolded a1(3,4) b2(3,4)])
      (rule that)
  have verified: "verify_block E s = Ok ()" "verify_block E v = Ok ()"
    using ok_chain_block(1)[OF E pay(3)] ok_chain_block(1)[OF E pay(4)] pay(7,8) by auto
  obtain x y z where slices: "slice16 (b_hash g) = (Ok x :: (string, payment_error) result)"
    "slice16 (b_hash s) = (Ok y :: (string, payment_error) result)" "slice16 (b_hash v) = (Ok z :: (string, payment_error) result)"
    using ok_chain_block(2)[OF E pay(3), of g] ok_chain_block(2)[OF E pay(3), of s] ok_chain_block(2)[OF E pay(4), of v]
    by (auto simp: pay(7,8))
  have "offline_payment E ka kb witness now = Ok (L0, a3, b4)"
    using slices verified ok_chain_intact[OF pay(3)] ok_chain_intact[OF pay(4)] confirm_send_L0[OF E verified(1), of witness]
    by (simp add: offline_payment_def ac_id_def a1(1) b2(1) pay(1,2) assert_that_def del: One_nat_def)
  moreover have "ac_balance a3 = 95000000" "ac_balance b4 = 5000000" using pay(9,10) by (simp_all add: word_unat_eq_iff)
  ultimately show ?thesis using b2(5) pay(5-8,11) by (auto simp: ac_id_def)
qed

theorem payment_flow_witness:
  "\<exists>alice bob s. offline_payment demo_env 1 2 3 of_nat = Ok (L0, alice, bob) \<and>
    ac_balance alice = 95000000 \<and> ac_balance bob = 5000000 \<and>
    last (ac_chain alice) = s \<and> b_type s = Send (ac_id bob) 5000000 \<and>
    map b_type (ac_chain bob) = [Open 0, Receive (b_hash s)]"
  by (rule payment_flow[OF demo_env_laws]) (use demo_new_ids in \<open>auto simp: ac_id_def\<close>)

end
