(* ===== verification/Spec2Isabelle.thy ===== *)
theory Spec2Isabelle
  imports World_Properties State_Properties Consensus_Properties Network_Properties Application_Properties
    Flow_Properties Texts
begin

text \<open>
  Arxia: a block lattice for payments that work offline.

  \<^bold>\<open>The program.\<close> Every account writes its own chain of signed blocks (\<open>arxia-lattice\<close>); a ledger
  accepts blocks that verify, extend their chain and, for a receive, cite a send that nobody received
  yet. Nodes exchange blocks and nonce registries by gossip (\<open>arxia-gossip\<close>) over a transport that
  splits messages into signed fragments (\<open>arxia-transport\<close>), pay relays in reputation
  (\<open>arxia-relay\<close>), settle two blocks at one position by stake (\<open>arxia-consensus\<close>), grade how final a
  block is (\<open>arxia-finality\<close>) and, after a network partition, merge what both sides did
  (\<open>arxia-crdt\<close>). Around it stand a key-value store (\<open>arxia-storage\<close>), identifiers (\<open>arxia-did\<close>),
  protobuf guards (\<open>arxia-proto\<close>), two contracts (\<open>contracts/escrow\<close>, \<open>contracts/token-lock\<close>), a
  command line tool (\<open>tools/arxia-cli\<close>) and four example programs (\<open>examples\<close>).

  \<^bold>\<open>Conventions.\<close> A struct is a record with the field names of the source behind a short prefix
  (\<open>ac_\<close> account chain, \<open>lg_\<close> ledger, \<open>b_\<close> block, \<open>gn_\<close> gossip node, ...), an enum a datatype, an
  integer of \<open>w\<close> bits a word (\<open>i64\<close>: an \<open>int\<close> with its range), an array or \<open>Vec\<close> of bytes a list of
  8-bit words, a \<open>String\<close> a list of characters. \<open>Result\<close> is the datatype \<open>result\<close> of \<open>Prelude\<close>, with a
  third value \<open>Panic\<close> for an overflow of plain arithmetic (builds with overflow checks), an index out
  of range or an \<open>expect\<close>. A \<open>BTreeMap\<close> is a sorted association list, a \<open>HashMap\<close> an association list.
  The standard library iterates a \<open>HashMap\<close> in an arbitrary order: where a result shows it, in
  \<open>reconcile_partitions\<close>, the orders are an argument (\<open>Reconciliation.hash_orders\<close>) over which the
  theorems quantify; elsewhere the theorems speak of sets, of lookups or of order-independent sums. A
  method on \<open>&mut self\<close> returns its result and the new state, also on the error paths that leave part
  of the work done. Interleaved
  threads and the search of the delegation graph are \<open>inductive\<close> step relations. Loops are
  structural recursion; \<open>Delegation.dfs\<close>, \<open>Gossip.evict_to_capacity\<close>
  and \<open>Gossip.relay_path\<close> are functions with a termination proof. No fuel is used anywhere.

  \<^bold>\<open>Parameters.\<close> Third-party code is the record \<open>crypto_scheme\<close> (\<open>Crypto\<close>) and its extension
  \<open>arxia_env\<close> (\<open>Block\<close>): hexadecimal, BLAKE3, Ed25519, base58 and the JSON text of a block
  type. What the code relies on are the predicates \<open>hex_laws\<close>, \<open>blake3_laws\<close>, \<open>ed25519_laws\<close>,
  \<open>json_laws\<close>, \<open>json_text_laws\<close> and \<open>bs58_laws\<close>: documented behaviour such as decode after encode, the
  length of a digest, that what a key signs verifies under it, and the shape of the JSON text of an
  enum (needed only to show that a hash binds its block). Nothing is assumed about collisions or
  forgery; where a statement needs them, the collision or the set of issued signatures is named in
  it. \<open>Demo\<close>
  builds a concrete environment in which the witnesses are evaluated; it satisfies all of them, with
  one short JSON text for most witnesses and the text of \<open>serde_json\<close> for \<open>json_text_laws\<close>. The
  wall clock, generated keys and I/O faults are arguments.

  \<^bold>\<open>The library.\<close>
  \<^item> \<open>Prelude\<close>: results, checked, saturating and plain arithmetic, byte and text encodings,
    the collection \<open>outcome_simps\<close>. \<open>Containers\<close>: the two kinds of map.
  \<^item> \<open>Interfaces\<close>: the locales \<open>state_inv\<close> (a run keeps an invariant), \<open>replica_merge\<close>
    (replicas converge), \<open>drop_oldest_queue\<close>, \<open>key_value_store\<close> and \<open>signed_envelope\<close>, each interpreted
    on the operations of the components.

  \<^bold>\<open>The components\<close> and the files they model, all under \<open>src/crates\<close> unless named otherwise:
  \<^item> \<open>Floating\<close>: the operations on \<open>f64\<close> that the crates use, over rationals with the rounding of
    the format written out.
  \<^item> \<open>Core\<close>: \<open>arxia-core\<close> (constants.rs, error.rs, types.rs). \<open>Crypto\<close>: \<open>arxia-crypto\<close>.
  \<^item> \<open>Block\<close>: \<open>arxia-lattice\<close> block.rs and validation.rs; \<open>Clocks\<close> and \<open>Chain\<close>:
    chain.rs (the capped vector clock, \<open>open\<close>, \<open>send\<close>, \<open>receive\<close>); \<open>Ledger\<close>: ledger.rs;
    \<open>Serialization\<close>: serialization.rs. \<open>World\<close> and \<open>Participants\<close> compose them: the log of blocks
    that any number of accounts produce, offered to a ledger or shared out to two partitions; \<open>Network\<close>
    gives its blocks to gossip nodes that exchange their registries.
  \<^item> \<open>Crdt\<close>: \<open>arxia-crdt\<close> pn_counter.rs, or_set.rs; \<open>Clocks\<close> also vector_clock.rs;
    \<open>Reconciliation\<close>: reconciliation.rs and pruning.rs.
  \<^item> \<open>Consensus\<close>: \<open>arxia-consensus\<close> vote.rs, orv.rs, quorum.rs, conflict.rs;
    \<open>Delegation\<close>: delegation.rs. \<open>Finality\<close>: \<open>arxia-finality\<close>.
  \<^item> \<open>Gossip\<close>: \<open>arxia-gossip\<close>. \<open>Relay\<close>: \<open>arxia-relay\<close>. \<open>Transport\<close>:
    \<open>arxia-transport\<close> traits.rs and sim/simulated.rs; \<open>Reassembly\<close>: reassembly.rs.
  \<^item> \<open>Storage\<close>: \<open>arxia-storage\<close>; \<open>Locking\<close>: its mutex, as a step relation on threads that share
    the store. \<open>Did\<close>: \<open>arxia-did\<close>. \<open>Proto\<close>:
    \<open>arxia-proto\<close> validation.rs. \<open>Contracts\<close>: \<open>src/contracts\<close>. \<open>Texts\<close>: the
    \<open>Display\<close> implementations of all crates and the conversion of transport errors.
  \<^item> \<open>Cli\<close>: \<open>src/tools/arxia-cli\<close>, its files, streams and I/O faults being an explicit state.
    \<open>Flows\<close>: the programs under \<open>src/examples\<close>, which call the crates together.

  \<^bold>\<open>What is shown.\<close> The theorems that stand for the whole are in the seven theories of properties and
  here; each follows a text that states it, and has a witness when it has hypotheses.
  \<^item> \<open>Lattice_Properties\<close>: an account and a ledger keep their invariants through any calls; a
    transfer settles once and conserves the balances; the exact conditions and effects of \<open>send\<close>,
    \<open>receive\<close> and \<open>add_block\<close>; chain verification decides a declarative notion of valid chain; a hash
    binds its block, whatever text its \<open>previous\<close> field holds; the compact form round-trips.
  \<^item> \<open>World_Properties\<close>: a ledger accepts whatever honest accounts produce, in any
    interleaving, and no money appears or disappears; split over two partitions in any way, the same blocks
    reconcile to the balances of the accounts; given to gossip nodes, they raise no conflict, and nodes that
    exchange registries agree and pass the check before L1; an account that signs two blocks for one
    position is reported when the nodes that hold them meet.
  \<^item> \<open>State_Properties\<close>: replicas converge; reconciliation depends on the set of blocks only, not on
    the iteration order of its maps, but for the order of the conflict list and the account an error
    names (\<open>reconcile_error_order\<close>), and reports exact balances; a send received at two nonces is
    credited twice (\<open>reconcile_double_credit\<close>).
  \<^item> \<open>Consensus_Properties\<close>: the stake rule, the quorum and the finality rule over the natural
    numbers, the delegation graph stays acyclic and the search for a cycle ends, the latch holds the maximum.
  \<^item> \<open>Network_Properties\<close>: bounded gossip state, first block wins, bindings of signed bytes,
    one credit per relayed message, a simulated link that delivers in order and never before the
    latency has passed, reassembly delivers exactly what was signed,
    and a block sent in fragments decodes to that block.
  \<^item> \<open>Application_Properties\<close>: transactions refine the store, threads that share the locked store
    behave as if they called it one after another, an escrow settles once, a vesting
    schedule pays what has vested, identifiers round-trip, key generation neither overwrites a file nor
    shows the secret.
  \<^item> \<open>Flow_Properties\<close>: the offline payment runs to its end whatever the keys and times.
  \<^item> Here: the messages the crates sign live in disjoint domains.

  \<^bold>\<open>Bounds in hypotheses.\<close> The rules over the natural numbers hold while the stakes involved stay below
  \<open>2 ^ 64 - 1\<close> (conflicts) and \<open>2 ^ 64 / 100\<close> (finality); the supply constant of \<open>Core\<close> is
  \<open>10 ^ 15\<close>, far below both. A reconciled balance is that of the account while its credits sum to less than \<open>2 ^ 64\<close>;
  the anomaly report is exact for fewer than \<open>2 ^ 53\<close> events. \<open>Finality.assess_finality_saturated\<close> and
  \<open>Consensus.resolve_conflict_overflow\<close> say what happens above them.

  \<^bold>\<open>Not modelled.\<close> The system clock and the random key generator (arguments here); what prost
  generates from the protobuf files; methods that only return a field, which the record selectors are;
  the benchmarks, the inspector and node stubs, the ESP32 constants and the web-assembly stub, which hold
  no logic; what the example programs print; the fairness of the mutex (a waiting thread may be
  overtaken); tests.
\<close>

section \<open>Signing domains\<close>

text \<open>What the crates sign, one constructor for each kind of message with a domain prefix.\<close>

datatype signed_item =
    SignedGossip gossip_message bytes
  | SignedTransport transport_message
  | SignedFragment bytes bytes u16 u16 bytes
  | SignedReceipt relay_receipt
  | SignedSlashing slashing_proof
  | SignedRevocation bytes string string u64
  | SignedConfirmation bytes bytes
  | SignedValidatorVote bytes bytes
  | SignedRelease escrow
  | SignedRefund escrow

definition bytes_of :: "(bytes, 'e) result \<Rightarrow> bytes option" where
  "bytes_of r = (case r of Ok c \<Rightarrow> Some c | _ \<Rightarrow> None)"

fun signed_bytes :: "('sk, 'vk, 'z) crypto_scheme \<Rightarrow> signed_item \<Rightarrow> bytes option" where
  "signed_bytes E (SignedGossip m pk) = Some (gossip_canonical_bytes m pk)"
| "signed_bytes E (SignedTransport m) = bytes_of (transport_canonical_bytes E m)"
| "signed_bytes E (SignedFragment pk mid s n p) = Some (fragment_canonical_bytes pk mid s n p)"
| "signed_bytes E (SignedReceipt r) = bytes_of (receipt_canonical_message E r)"
| "signed_bytes E (SignedSlashing p) = bytes_of (slashing_canonical_message E p)"
| "signed_bytes E (SignedRevocation pk a b n) = Some (revocation_canonical_bytes pk a b n)"
| "signed_bytes E (SignedConfirmation pk h) = Some (confirmation_canonical_bytes pk h)"
| "signed_bytes E (SignedValidatorVote pk h) = Some (validator_vote_canonical_bytes pk h)"
| "signed_bytes E (SignedRelease e) = bytes_of (release_message E e)"
| "signed_bytes E (SignedRefund e) = bytes_of (refund_message E e)"

fun item_domain :: "signed_item \<Rightarrow> bytes" where
  "item_domain (SignedGossip m pk) = GOSSIP_MESSAGE_DOMAIN"
| "item_domain (SignedTransport m) = TRANSPORT_MESSAGE_DOMAIN"
| "item_domain (SignedFragment pk mid s n p) = FRAGMENT_DOMAIN"
| "item_domain (SignedReceipt r) = RELAY_RECEIPT_DOMAIN"
| "item_domain (SignedSlashing p) = SLASHING_PROOF_DOMAIN"
| "item_domain (SignedRevocation pk a b n) = DELEGATION_REVOCATION_DOMAIN"
| "item_domain (SignedConfirmation pk h) = FINALITY_CONFIRMATION_DOMAIN"
| "item_domain (SignedValidatorVote pk h) = FINALITY_VALIDATOR_VOTE_DOMAIN"
| "item_domain (SignedRelease e) = ESCROW_RELEASE_DOMAIN"
| "item_domain (SignedRefund e) = ESCROW_REFUND_DOMAIN"

fun item_kind :: "signed_item \<Rightarrow> nat" where
  "item_kind (SignedGossip m pk) = 0"
| "item_kind (SignedTransport m) = 1"
| "item_kind (SignedFragment pk mid s n p) = 2"
| "item_kind (SignedReceipt r) = 3"
| "item_kind (SignedSlashing p) = 4"
| "item_kind (SignedRevocation pk a b n) = 5"
| "item_kind (SignedConfirmation pk h) = 6"
| "item_kind (SignedValidatorVote pk h) = 7"
| "item_kind (SignedRelease e) = 8"
| "item_kind (SignedRefund e) = 9"

lemma signed_bytes_domain: "signed_bytes E p = Some c \<Longrightarrow> \<exists>x. c = item_domain p @ x"
  by (cases p)
    (auto simp: bytes_of_def gossip_canonical_bytes_def transport_canonical_bytes_def fragment_canonical_bytes_def
      receipt_canonical_message_def slashing_canonical_message_def revocation_canonical_bytes_def
      confirmation_canonical_bytes_def validator_vote_canonical_bytes_def release_message_def refund_message_def
      outcome_simps Let_def split: result.splits)

lemmas signing_domains =
  GOSSIP_MESSAGE_DOMAIN_def TRANSPORT_MESSAGE_DOMAIN_def FRAGMENT_DOMAIN_def RELAY_RECEIPT_DOMAIN_def
  SLASHING_PROOF_DOMAIN_def DELEGATION_REVOCATION_DOMAIN_def FINALITY_CONFIRMATION_DOMAIN_def
  FINALITY_VALIDATOR_VOTE_DOMAIN_def ESCROW_RELEASE_DOMAIN_def ESCROW_REFUND_DOMAIN_def

lemma domains_differ: "item_domain p @ x = item_domain q @ y \<Longrightarrow> item_kind p = item_kind q"
  by (cases p; cases q) (simp_all add: signing_domains str_bytes_def)

text \<open>C34. No signature can be replayed as one for another kind of message: the bytes that gossip, transport,
  fragments, relay receipts, slashing proofs, revocations, confirmations, validator votes, escrow
  releases and escrow refunds sign never coincide across two kinds, whatever their contents.\<close>

theorem signing_domains_disjoint:
  assumes "signed_bytes E p = Some c" "signed_bytes E q = Some c"
  shows "item_kind p = item_kind q"
  using signed_bytes_domain[OF assms(1)] signed_bytes_domain[OF assms(2)] domains_differ by metis

theorem signing_domains_disjoint_witness:
  "\<exists>c. signed_bytes demo_env (SignedConfirmation [1] [2]) = Some c \<and>
    signed_bytes demo_env (SignedValidatorVote [1] [2]) \<noteq> Some c \<and>
    item_kind (SignedConfirmation [1] [2]) = item_kind (SignedConfirmation [1] [2])"
proof -
  obtain c where c: "signed_bytes demo_env (SignedConfirmation [1] [2]) = Some c" by simp
  have "signed_bytes demo_env (SignedValidatorVote [1] [2]) \<noteq> Some c"
    using signing_domains_disjoint[OF c, of "SignedValidatorVote [1] [2]"] by auto
  then show ?thesis using c by blast
qed

end
